(* ===== verification/Prelude.thy ===== *)
theory Prelude
  imports Main "HOL-Library.Word" "HOL-Library.Char_ord" "HOL-Library.List_Lexorder"
begin

text \<open>
  What every theory of the development shares: the machine integer types of the C++ code, the
  correspondence between \<open>char\<close> and bytes, the fact collections that the component proofs use, and
  generic lemmas on lists and words that belong to no component.

  C++ integers keep their width where the code computes with them: \<open>unsigned int\<close> is
  \<open>32 word\<close>, \<open>unsigned long long\<close> is \<open>64 word\<close>, and a \<open>char\<close> on the wire is an \<open>8 word\<close>.
  A \<open>std::string\<close> is a HOL \<open>string\<close>; its order is lexicographic on unsigned bytes, which is
  what \<open>Char_ord\<close> and \<open>List_Lexorder\<close> provide.
\<close>

unbundle bit_operations_syntax

type_synonym byte = "8 word"
type_synonym u16 = "16 word"
type_synonym u32 = "32 word"
type_synonym u64 = "64 word"

text \<open>
  Fact collections: \<open>wire\<close> holds what a reader or writer does to the buffer, \<open>inv_keep\<close>
  the preservation of component invariants, \<open>step_defs\<close> the definitions that a proof about one
  handler unfolds.
\<close>

named_theorems wire \<open>effect of the marshalling operations on buffers\<close>
named_theorems inv_keep \<open>operations that keep an invariant\<close>
named_theorems step_defs \<open>definitions of handlers and steps\<close>

subsection \<open>Characters and bytes\<close>

definition byte_of_char :: "char \<Rightarrow> byte" where
  "byte_of_char c = word_of_nat (of_char c)"

definition char_of_byte :: "byte \<Rightarrow> char" where
  "char_of_byte b = char_of (unat b)"

lemma of_char_less_256 [simp]: "(of_char c :: nat) < 256"
proof -
  have "(of_char c :: nat) = of_char (char_of (of_char c :: nat))" by simp
  also have "\<dots> = of_char c mod 256" by (rule of_char_of)
  finally show ?thesis by (metis mod_less_divisor zero_less_numeral)
qed

lemma char_of_byte_of_char [simp]: "char_of_byte (byte_of_char c) = c"
  by (simp add: char_of_byte_def byte_of_char_def unat_of_nat)

lemma byte_of_char_of_byte [simp]: "byte_of_char (char_of_byte b) = b"
proof -
  have "unat b < 256" using unsigned_less [of b, where ?'a = nat] by simp
  then show ?thesis by (simp add: char_of_byte_def byte_of_char_def of_char_of)
qed

definition bytes_of_string :: "string \<Rightarrow> byte list" where
  "bytes_of_string s = map byte_of_char s"

definition string_of_bytes :: "byte list \<Rightarrow> string" where
  "string_of_bytes bs = map char_of_byte bs"

lemma string_of_bytes_of_string [simp]: "string_of_bytes (bytes_of_string s) = s"
  by (simp add: string_of_bytes_def bytes_of_string_def comp_def)

lemma length_bytes_of_string [simp]: "length (bytes_of_string s) = length s"
  by (simp add: bytes_of_string_def)

lemma length_string_of_bytes [simp]: "length (string_of_bytes bs) = length bs"
  by (simp add: string_of_bytes_def)

subsection \<open>Words\<close>

text \<open>The code masks with \<open>0xff\<close> where it keeps the low byte.\<close>

lemma and_ff: "(x :: 'a::len word) AND 255 = take_bit 8 x"
  by (simp add: take_bit_eq_mask mask_eq_exp_minus_1)

lemma scast_byte_and_ff: "(scast (c :: byte) :: u32) AND 255 = ucast c"
proof -
  have "bit (take_bit 8 (scast c :: u32)) n = bit (ucast c :: u32) n" for n
  proof (cases "n < 8")
    case True
    then have "min 7 n = n" by simp
    with True show ?thesis by (simp add: bit_simps)
  next
    case False
    then show ?thesis using bit_imp_le_length [of c n] by (auto simp: bit_simps)
  qed
  then have "take_bit 8 (scast c :: u32) = ucast c"
    by (intro bit_eqI) simp
  then show ?thesis by (simp add: and_ff)
qed

lemma u32_from_bytes:
  fixes x :: u32
  shows "push_bit 24 (ucast (ucast (drop_bit 24 x AND 255) :: byte)) OR
         push_bit 16 (ucast (ucast (drop_bit 16 x AND 255) :: byte)) OR
         push_bit 8 (ucast (ucast (drop_bit 8 x AND 255) :: byte)) OR
         ucast (ucast (x AND 255) :: byte) = x"
  unfolding and_ff
proof (rule bit_eqI, goal_cases)
  case (1 n)
  consider "n < 8" | "8 \<le> n" "n < 16" | "16 \<le> n" "n < 24" | "24 \<le> n" by linarith
  then show ?case using 1 by cases (auto simp: bit_simps)
qed

lemma u16_from_bytes:
  fixes x :: u16
  shows "push_bit 8 (ucast (ucast (drop_bit 8 x AND 255) :: byte)) OR
         ucast (ucast (x AND 255) :: byte) = x"
  unfolding and_ff
proof (rule bit_eqI, goal_cases)
  case (1 n)
  then show ?case by (cases "n < 8") (auto simp: bit_simps)
qed

lemma u64_from_halves:
  fixes x :: u64
  shows "ucast (ucast x :: u32) OR push_bit 32 (ucast (ucast (drop_bit 32 x) :: u32)) = x"
proof (rule bit_eqI, goal_cases)
  case (1 n)
  then show ?case by (cases "n < 32") (auto simp: bit_simps)
qed

subsection \<open>Lists\<close>

lemma drop_take_split: "i \<le> j \<Longrightarrow> j \<le> length xs \<Longrightarrow> drop i xs = drop i (take j xs) @ drop j xs"
  by (metis append_take_drop_id drop_append diff_is_0_eq drop_0 length_take min.absorb2)

lemma drop_eq_append_next:
  "drop i xs = ys @ zs \<Longrightarrow> drop (i + length ys) xs = zs"
  by (metis append_eq_conv_conj drop_drop add.commute)

lemma drop_Cons_nth: "drop i xs = y # ys \<Longrightarrow> i < length xs \<and> xs ! i = y \<and> drop (Suc i) xs = ys"
  by (metis drop_all drop_Suc list.discI list.sel(3) nth_via_drop tl_drop linorder_not_le)

lemma sorted_wrt_less_distinct: "sorted_wrt (<) (xs :: 'a::linorder list) \<Longrightarrow> distinct xs"
  by (induction xs) auto

end
