(* ===== verification/Containers.thy ===== *)
theory Containers
  imports Prelude
begin

text \<open>
  The associative containers of the C++ standard library that the code iterates over:
  \<open>std::map\<close> as a list of pairs in increasing key order and \<open>std::set\<close> as an increasing list,
  so that iteration order, \<open>begin()\<close> and size are what they are in C++.  The locale
  \<open>dictionary\<close> states what a client may rely on (find after insert, after erase, iteration
  in order); the interpretation \<open>omap\<close> discharges it for the list representation.
\<close>

subsection \<open>The representation\<close>

type_synonym ('k, 'v) omap = "('k \<times> 'v) list"

definition omap_find :: "('k, 'v) omap \<Rightarrow> 'k \<Rightarrow> 'v option" where
  "omap_find m k = map_of m k"

fun omap_set :: "'k::linorder \<Rightarrow> 'v \<Rightarrow> ('k, 'v) omap \<Rightarrow> ('k, 'v) omap" where
  "omap_set k v [] = [(k, v)]"
| "omap_set k v ((k', v') # m) =
     (if k < k' then (k, v) # (k', v') # m
      else if k = k' then (k, v) # m
      else (k', v') # omap_set k v m)"

definition omap_erase :: "'k::linorder \<Rightarrow> ('k, 'v) omap \<Rightarrow> ('k, 'v) omap" where
  "omap_erase k m = filter (\<lambda>(k', _). k' \<noteq> k) m"

text \<open>\<open>m[k]\<close> inserts the default value of a missing key; \<open>omap_get\<close> is the value it reads.\<close>

definition omap_get :: "'v \<Rightarrow> ('k, 'v) omap \<Rightarrow> 'k \<Rightarrow> 'v" where
  "omap_get d m k = (case omap_find m k of None \<Rightarrow> d | Some v \<Rightarrow> v)"

definition omap_touch :: "'v \<Rightarrow> 'k::linorder \<Rightarrow> ('k, 'v) omap \<Rightarrow> ('k, 'v) omap" where
  "omap_touch d k m = (case omap_find m k of None \<Rightarrow> omap_set k d m | Some _ \<Rightarrow> m)"

definition omap_ok :: "('k::linorder, 'v) omap \<Rightarrow> bool" where
  "omap_ok m = sorted_wrt (<) (map fst m)"

fun oset_insert :: "'a::linorder \<Rightarrow> 'a list \<Rightarrow> 'a list" where
  "oset_insert x [] = [x]"
| "oset_insert x (y # ys) =
     (if x < y then x # y # ys else if x = y then y # ys else y # oset_insert x ys)"

definition oset_erase :: "'a::linorder \<Rightarrow> 'a list \<Rightarrow> 'a list" where
  "oset_erase x ys = filter (\<lambda>y. y \<noteq> x) ys"

abbreviation oset_ok :: "'a::linorder list \<Rightarrow> bool" where
  "oset_ok xs \<equiv> sorted_wrt (<) xs"

subsection \<open>The contract of a dictionary\<close>

locale dictionary =
  fixes empty :: "'m" and find :: "'m \<Rightarrow> 'k::linorder \<Rightarrow> 'v option"
    and ins :: "'k \<Rightarrow> 'v \<Rightarrow> 'm \<Rightarrow> 'm" and del :: "'k \<Rightarrow> 'm \<Rightarrow> 'm"
    and entries :: "'m \<Rightarrow> ('k \<times> 'v) list" and invar :: "'m \<Rightarrow> bool"
  assumes find_empty: "find empty k = None"
    and find_ins: "find (ins k v m) k' = (if k' = k then Some v else find m k')"
    and find_del: "find (del k m) k' = (if k' = k then None else find m k')"
    and find_entries: "find m k = map_of (entries m) k"
    and invar_empty: "invar empty"
    and invar_ins: "invar m \<Longrightarrow> invar (ins k v m)"
    and invar_del: "invar m \<Longrightarrow> invar (del k m)"
    and entries_sorted: "invar m \<Longrightarrow> sorted_wrt (<) (map fst (entries m))"
    and entries_inj: "invar m \<Longrightarrow> invar m' \<Longrightarrow> entries m = entries m' \<Longrightarrow> m = m'"
begin

text \<open>Two well-formed dictionaries with the same lookups are equal: iteration determines them.\<close>

lemma sorted_pairs_eq:
  assumes "sorted_wrt (<) (map fst xs)" "sorted_wrt (<) (map fst ys)" "map_of xs = map_of ys"
  shows "xs = (ys :: ('k \<times> 'v) list)"
proof -
  have dx: "distinct (map fst xs)" and dy: "distinct (map fst ys)"
    using assms(1,2) by (auto intro: sorted_wrt_less_distinct)
  have s: "set xs = set ys"
    using assms(3) map_of_eq_Some_iff [OF dx] map_of_eq_Some_iff [OF dy] by auto
  have keys: "map fst xs = map fst ys"
  proof (rule strict_sorted_equal)
    show "set (map fst xs) = set (map fst ys)" using s by simp
  qed (use assms(1,2) in simp_all)
  have vals: "map snd zs = map (the \<circ> map_of zs) (map fst zs)"
    if "distinct (map fst zs)" for zs :: "('k \<times> 'v) list"
    using that by (auto simp: map_of_is_SomeI)
  have "map snd xs = map snd ys"
    unfolding vals [OF dx] vals [OF dy] keys assms(3) ..
  with keys show ?thesis
    by (rule pair_list_eqI)
qed

lemma dictionary_ext:
  assumes "invar m" "invar m'" "\<And>k. find m k = find m' k"
  shows "m = m'"
proof (rule entries_inj [OF assms(1,2)])
  show "entries m = entries m'"
    using assms(3) find_entries entries_sorted [OF assms(1)] entries_sorted [OF assms(2)]
    by (intro sorted_pairs_eq) auto
qed

text \<open>Re-inserting the entries of a dictionary one by one into an empty one rebuilds it: this is
  the unmarshalling loop of a map.\<close>

lemma find_fold_ins:
  "find (fold (\<lambda>(k, v) m. ins k v m) xs m0) k =
     (case map_of (rev xs) k of None \<Rightarrow> find m0 k | Some v \<Rightarrow> Some v)"
proof (induction xs arbitrary: m0)
  case Nil
  then show ?case by simp
next
  case (Cons p xs)
  obtain a b where "p = (a, b)" by fastforce
  with Cons show ?case
    by (auto simp: find_ins map_add_def split: option.splits)
qed

lemma invar_fold_ins: "invar m0 \<Longrightarrow> invar (fold (\<lambda>(k, v) m. ins k v m) xs m0)"
  by (induction xs arbitrary: m0) (auto simp: invar_ins split: prod.splits)

lemma rebuild_entries:
  assumes "invar m"
  shows "fold (\<lambda>(k, v) m. ins k v m) (entries m) empty = m"
proof (rule dictionary_ext)
  have d: "distinct (map fst (entries m))"
    using entries_sorted [OF assms] by (rule sorted_wrt_less_distinct)
  then have "map_of (rev (entries m)) = map_of (entries m)"
    by (subst map_of_inject_set) (simp_all flip: rev_map)
  then show "find (fold (\<lambda>(k, v) m. ins k v m) (entries m) empty) k = find m k" for k
    by (simp add: find_fold_ins find_empty find_entries [of m] split: option.splits)
qed (use assms in \<open>auto simp: invar_fold_ins invar_empty\<close>)

end

subsection \<open>The list representation satisfies it\<close>

lemma omap_find_set: "omap_find (omap_set k v m) k' = (if k' = k then Some v else omap_find m k')"
  by (induction k v m rule: omap_set.induct) (auto simp: omap_find_def)

lemma omap_find_erase: "omap_find (omap_erase k m) k' = (if k' = k then None else omap_find m k')"
  by (induction m) (auto simp: omap_find_def omap_erase_def)

lemma omap_get_set: "omap_get d (omap_set k v m) k' = (if k' = k then v else omap_get d m k')"
  by (simp add: omap_get_def omap_find_set)

lemma omap_get_list [simp]:
  "omap_get d [] k = d" "omap_get d ((k', v) # m) k = (if k = k' then v else omap_get d m k)"
  by (simp_all add: omap_get_def omap_find_def)

lemma omap_get_touch [simp]: "omap_get d (omap_touch d k m) k' = omap_get d m k'"
  by (auto simp: omap_get_def omap_touch_def omap_find_set split: option.splits)

lemma omap_find_touch:
  "omap_find (omap_touch d k m) k' = (if k' = k then Some (omap_get d m k) else omap_find m k')"
  by (auto simp: omap_get_def omap_touch_def omap_find_set split: option.splits)

lemma set_omap_set: "fst ` set (omap_set k v m) = insert k (fst ` set m)"
  by (induction k v m rule: omap_set.induct) auto

lemma omap_ok_set: "omap_ok m \<Longrightarrow> omap_ok (omap_set k v m)"
  unfolding omap_ok_def
proof (induction k v m rule: omap_set.induct)
  case (2 k v k' v' m)
  have *: "\<forall>x \<in> fst ` set (omap_set k v m). k' < x" if "\<not> k < k'" "k \<noteq> k'"
    using "2.prems" that unfolding set_omap_set by auto
  consider "k < k'" | "k = k'" | "\<not> k < k'" "k \<noteq> k'" by blast
  then show ?case
  proof cases
    case 3
    then show ?thesis using * [OF 3] "2.IH" [OF 3] "2.prems" by simp
  qed (use "2.prems" in auto)
qed simp

lemma omap_ok_touch: "omap_ok m \<Longrightarrow> omap_ok (omap_touch d k m)"
  by (simp add: omap_touch_def omap_ok_set split: option.splits)

lemma omap_ok_erase: "omap_ok m \<Longrightarrow> omap_ok (omap_erase k m)"
  by (induction m) (auto simp: omap_ok_def omap_erase_def)

interpretation omap: dictionary "[]" omap_find omap_set omap_erase "\<lambda>m. m" omap_ok
  by unfold_locales
    (simp_all add: omap_find_set omap_find_erase omap_ok_set omap_ok_erase,
     simp_all add: omap_find_def omap_ok_def)

subsection \<open>Sets\<close>

lemma set_oset_insert [simp]: "set (oset_insert x xs) = insert x (set xs)"
  by (induction x xs rule: oset_insert.induct) auto

lemma set_oset_erase [simp]: "set (oset_erase x xs) = set xs - {x}"
  by (auto simp: oset_erase_def)

lemma oset_ok_insert [inv_keep]: "oset_ok xs \<Longrightarrow> oset_ok (oset_insert x xs)"
proof (induction x xs rule: oset_insert.induct)
  case (2 x y ys)
  then show ?case by auto
qed simp

lemma oset_ok_erase [inv_keep]: "oset_ok xs \<Longrightarrow> oset_ok (oset_erase x xs)"
  by (simp add: oset_erase_def sorted_wrt_filter)

lemma oset_eqI: "oset_ok xs \<Longrightarrow> oset_ok ys \<Longrightarrow> set xs = set ys \<Longrightarrow> xs = ys"
  by (metis strict_sorted_equal)

lemma set_fold_oset_insert: "set (fold oset_insert xs ys) = set xs \<union> set ys"
  by (induction xs arbitrary: ys) auto

lemma oset_ok_fold_insert: "oset_ok ys \<Longrightarrow> oset_ok (fold oset_insert xs ys)"
  by (induction xs arbitrary: ys) (auto simp: oset_ok_insert)

lemma oset_rebuild: "oset_ok xs \<Longrightarrow> fold oset_insert xs [] = xs"
  by (rule oset_eqI) (auto simp: set_fold_oset_insert oset_ok_fold_insert)

end
