(* ===== verification/Marshal.thy ===== *)
theory Marshal
  imports Containers "HOL-Library.Monad_Syntax"
begin

text \<open>
  The wire format (\<open>rpc/marshall.h\<close> and the marshalling half of \<open>rpc/rpc.cc\<close>): the growing
  output buffer \<open>marshall\<close>, the input buffer \<open>unmarshall\<close>, the operators \<open><<\<close> and
  \<open>>>\<close> on the base types, strings, vectors and maps, and the packing of the two RPC headers.

  A writer \<open>m_t m x\<close> is \<open>m << x\<close>.  A reader \<open>u_t u\<close> is \<open>u >> x\<close> and returns the value of \<open>x\<close>
  with the new buffer state; readers that can leave the bounds of the buffer return an option,
  \<open>None\<close> being an access outside the allocation.  The locale \<open>codec\<close> is the contract between the
  two sides; it is interpreted for every type the protocols put on the wire.
\<close>

section \<open>Headers and sizes\<close>

text \<open>\<open>int\<close> fields are 32-bit words, read with \<open>sint\<close> where the code compares them.\<close>

record req_header =
  rq_xid :: u32
  rq_proc :: u32
  rq_clt_nonce :: u32
  rq_srv_nonce :: u32
  rq_xid_rep :: u32

record reply_header =
  rp_xid :: u32
  rp_ret :: u32

definition DEFAULT_RPC_SZ :: nat where "DEFAULT_RPC_SZ = 1024"

text \<open>\<open>static_max<sizeof(req_header), sizeof(reply_header)>::value + sizeof(rpc_sz_t)\<close>, five
  four-byte fields against two, without checksumming.\<close>

definition RPC_HEADER_SZ :: nat where "RPC_HEADER_SZ = max (5 * 4) (2 * 4) + 4"

lemma RPC_HEADER_SZ_24: "RPC_HEADER_SZ = 24"
  by (simp add: RPC_HEADER_SZ_def)

section \<open>The output buffer\<close>

text \<open>\<open>m_junk\<close> is what fresh memory holds; \<open>realloc\<close> keeps the old bytes and exposes junk
  after them.  The sizes are of type \<open>int\<close>: where a sum or the doubled capacity reaches \<open>2 ^ 31\<close> it becomes
  negative, \<open>realloc\<close> fails and \<open>VERIFY\<close> ends the process (or the copy leaves the buffer).  \<open>m_aborted\<close> says
  that this has happened; nothing is written after it.\<close>

record marshall =
  m_buf :: "byte list"
  m_capa :: nat
  m_ind :: nat
  m_junk :: "nat \<Rightarrow> byte"
  m_aborted :: bool

definition INT_LIMIT :: nat where "INT_LIMIT = 2 ^ 31"

definition realloc :: "(nat \<Rightarrow> byte) \<Rightarrow> byte list \<Rightarrow> nat \<Rightarrow> byte list" where
  "realloc junk buf n = take n buf @ map junk [length buf ..< n]"

definition marshall_new :: "(nat \<Rightarrow> byte) \<Rightarrow> marshall" where
  "marshall_new junk =
     \<lparr> m_buf = realloc junk [] DEFAULT_RPC_SZ, m_capa = DEFAULT_RPC_SZ,
       m_ind = RPC_HEADER_SZ, m_junk = junk, m_aborted = False \<rparr>"

definition m_rawbyte :: "marshall \<Rightarrow> byte \<Rightarrow> marshall" where
  "m_rawbyte m x =
     (if m_aborted m then m
      else if m_ind m \<ge> m_capa m \<and> 2 * m_capa m \<ge> INT_LIMIT then m\<lparr> m_aborted := True \<rparr>
      else
        let m = (if m_ind m \<ge> m_capa m
                 then m\<lparr> m_capa := 2 * m_capa m, m_buf := realloc (m_junk m) (m_buf m) (2 * m_capa m) \<rparr>
                 else m)
        in m\<lparr> m_buf := (m_buf m)[m_ind m := x], m_ind := m_ind m + 1 \<rparr>)"

definition memcpy_at :: "byte list \<Rightarrow> nat \<Rightarrow> byte list \<Rightarrow> byte list" where
  "memcpy_at buf i p = take i buf @ p @ drop (i + length p) buf"

definition m_rawbytes :: "marshall \<Rightarrow> byte list \<Rightarrow> marshall" where
  "m_rawbytes m p =
     (let n = length p;
          c = (if m_ind m + n > m_capa m then if m_capa m > n then 2 * m_capa m else m_capa m + n else m_capa m)
      in if m_aborted m then m
         else if m_ind m + n \<ge> INT_LIMIT \<or> c \<ge> INT_LIMIT then m\<lparr> m_aborted := True \<rparr>
         else
           let m = (if m_ind m + n > m_capa m then m\<lparr> m_capa := c, m_buf := realloc (m_junk m) (m_buf m) c \<rparr> else m)
           in m\<lparr> m_buf := memcpy_at (m_buf m) (m_ind m) p, m_ind := m_ind m + n \<rparr>)"

definition m_bool :: "marshall \<Rightarrow> bool \<Rightarrow> marshall" where
  "m_bool m x = m_rawbyte m (if x then 1 else 0)"

definition m_uchar :: "marshall \<Rightarrow> byte \<Rightarrow> marshall" where
  "m_uchar m x = m_rawbyte m x"

text \<open>The signed types are sent as their unsigned counterparts.\<close>

definition m_char :: "marshall \<Rightarrow> byte \<Rightarrow> marshall" where
  "m_char m x = m_uchar m x"

definition m_ushort :: "marshall \<Rightarrow> u16 \<Rightarrow> marshall" where
  "m_ushort m x =
     (let m = m_rawbyte m (ucast (drop_bit 8 x AND 255)) in m_rawbyte m (ucast (x AND 255)))"

definition m_short :: "marshall \<Rightarrow> u16 \<Rightarrow> marshall" where
  "m_short m x = m_ushort m x"

definition m_uint :: "marshall \<Rightarrow> u32 \<Rightarrow> marshall" where
  "m_uint m x =
     (let m = m_rawbyte m (ucast (drop_bit 24 x AND 255));
          m = m_rawbyte m (ucast (drop_bit 16 x AND 255));
          m = m_rawbyte m (ucast (drop_bit 8 x AND 255))
      in m_rawbyte m (ucast (x AND 255)))"

definition m_int :: "marshall \<Rightarrow> u32 \<Rightarrow> marshall" where
  "m_int m x = m_uint m x"

definition m_ulonglong :: "marshall \<Rightarrow> u64 \<Rightarrow> marshall" where
  "m_ulonglong m x = m_uint (m_uint m (ucast (drop_bit 32 x))) (ucast x)"

definition m_string :: "marshall \<Rightarrow> string \<Rightarrow> marshall" where
  "m_string m s = m_rawbytes (m_uint m (of_nat (length s))) (bytes_of_string s)"

definition m_vector :: "(marshall \<Rightarrow> 'a \<Rightarrow> marshall) \<Rightarrow> marshall \<Rightarrow> 'a list \<Rightarrow> marshall" where
  "m_vector put m v = foldl put (m_uint m (of_nat (length v))) v"

definition m_map ::
  "(marshall \<Rightarrow> 'k \<Rightarrow> marshall) \<Rightarrow> (marshall \<Rightarrow> 'v \<Rightarrow> marshall) \<Rightarrow> marshall \<Rightarrow> ('k, 'v) omap \<Rightarrow> marshall" where
  "m_map putk putv m d =
     foldl (\<lambda>m (k, v). putv (putk m k) v) (m_uint m (of_nat (length d))) d"

text \<open>\<open>pack\<close> shifts a signed \<open>int\<close>: the shift is arithmetic.\<close>

definition m_pack :: "marshall \<Rightarrow> u32 \<Rightarrow> marshall" where
  "m_pack m x =
     (let m = m_rawbyte m (ucast (signed_drop_bit 24 x AND 255));
          m = m_rawbyte m (ucast (signed_drop_bit 16 x AND 255));
          m = m_rawbyte m (ucast (signed_drop_bit 8 x AND 255))
      in m_rawbyte m (ucast (x AND 255)))"

definition pack_req_header :: "marshall \<Rightarrow> req_header \<Rightarrow> marshall" where
  "pack_req_header m h =
     (let saved_sz = m_ind m;
          m = m\<lparr> m_ind := 4 \<rparr>;
          m = m_pack m (rq_xid h);
          m = m_pack m (rq_proc h);
          m = m_pack m (rq_clt_nonce h);
          m = m_pack m (rq_srv_nonce h);
          m = m_pack m (rq_xid_rep h)
      in m\<lparr> m_ind := saved_sz \<rparr>)"

definition pack_reply_header :: "marshall \<Rightarrow> reply_header \<Rightarrow> marshall" where
  "pack_reply_header m h =
     (let saved_sz = m_ind m;
          m = m\<lparr> m_ind := 4 \<rparr>;
          m = m_pack m (rp_xid h);
          m = m_pack m (rp_ret h)
      in m\<lparr> m_ind := saved_sz \<rparr>)"

definition m_get_content :: "marshall \<Rightarrow> string" where
  "m_get_content m =
     string_of_bytes (take (m_ind m - RPC_HEADER_SZ) (drop RPC_HEADER_SZ (m_buf m)))"

text \<open>\<open>take_buf\<close> hands out the buffer and its size; the object is empty afterwards.\<close>

definition m_take_buf :: "marshall \<Rightarrow> (byte list \<times> nat) \<times> marshall" where
  "m_take_buf m = ((m_buf m, m_ind m), m\<lparr> m_buf := [], m_ind := 0 \<rparr>)"

section \<open>The input buffer\<close>

record unmarshall =
  u_buf :: "byte list"
  u_sz :: nat
  u_ind :: nat
  u_ok :: bool

definition unmarshall_of_buf :: "byte list \<Rightarrow> nat \<Rightarrow> unmarshall" where
  "unmarshall_of_buf b sz = \<lparr> u_buf = b, u_sz = sz, u_ind = 0, u_ok = True \<rparr>"

definition u_take_content :: "(nat \<Rightarrow> byte) \<Rightarrow> unmarshall \<Rightarrow> string \<Rightarrow> unmarshall" where
  "u_take_content junk u s =
     (let sz = length s + RPC_HEADER_SZ
      in u\<lparr> u_sz := sz,
            u_buf := memcpy_at (realloc junk (u_buf u) sz) RPC_HEADER_SZ (bytes_of_string s),
            u_ind := RPC_HEADER_SZ, u_ok := True \<rparr>)"

definition unmarshall_of_string :: "(nat \<Rightarrow> byte) \<Rightarrow> string \<Rightarrow> unmarshall" where
  "unmarshall_of_string junk s =
     u_take_content junk \<lparr> u_buf = [], u_sz = 0, u_ind = 0, u_ok = False \<rparr> s"

definition u_take_in :: "unmarshall \<Rightarrow> unmarshall \<Rightarrow> unmarshall \<times> unmarshall" where
  "u_take_in u another =
     (u\<lparr> u_buf := u_buf another, u_sz := u_sz another, u_ind := RPC_HEADER_SZ,
         u_ok := (u_sz another \<ge> RPC_HEADER_SZ) \<rparr>,
      another\<lparr> u_buf := [], u_sz := 0, u_ind := 0 \<rparr>)"

definition u_okdone :: "unmarshall \<Rightarrow> bool" where
  "u_okdone u = (u_ok u \<and> u_ind u = u_sz u)"

text \<open>The byte is a \<open>char\<close> that is sign-extended on return.\<close>

definition u_rawbyte :: "unmarshall \<Rightarrow> u32 \<times> unmarshall" where
  "u_rawbyte u =
     (if u_ind u \<ge> u_sz u then (0, u\<lparr> u_ok := False \<rparr>)
      else (scast (u_buf u ! u_ind u), u\<lparr> u_ind := u_ind u + 1 \<rparr>))"

text \<open>The bounds check adds \<open>int _ind\<close> and \<open>unsigned n\<close> at 32 bits, so the sum wraps;
  \<open>std::string(_buf+_ind, n)\<close> then reads outside the allocation.\<close>

definition u_rawbytes :: "unmarshall \<Rightarrow> string \<Rightarrow> u32 \<Rightarrow> (string \<times> unmarshall) option" where
  "u_rawbytes u ss n =
     (if of_nat (u_ind u) + n > (of_nat (u_sz u) :: u32) then Some (ss, u\<lparr> u_ok := False \<rparr>)
      else if u_ind u + unat n > length (u_buf u) then None
      else Some (string_of_bytes (take (unat n) (drop (u_ind u) (u_buf u))),
                 u\<lparr> u_ind := u_ind u + unat n \<rparr>))"

definition u_bool :: "unmarshall \<Rightarrow> (bool \<times> unmarshall) option" where
  "u_bool u = (let (c, u) = u_rawbyte u in Some (c \<noteq> 0, u))"

definition u_uchar :: "unmarshall \<Rightarrow> (byte \<times> unmarshall) option" where
  "u_uchar u = (let (c, u) = u_rawbyte u in Some (ucast c, u))"

definition u_char :: "unmarshall \<Rightarrow> (byte \<times> unmarshall) option" where
  "u_char u = (let (c, u) = u_rawbyte u in Some (ucast c, u))"

definition u_ushort :: "unmarshall \<Rightarrow> (u16 \<times> unmarshall) option" where
  "u_ushort u =
     (let (c1, u) = u_rawbyte u; x = ucast (push_bit 8 (c1 AND 255));
          (c0, u) = u_rawbyte u; x = x OR ucast (c0 AND 255)
      in Some (x, u))"

definition u_short :: "unmarshall \<Rightarrow> (u16 \<times> unmarshall) option" where
  "u_short u =
     (let (c1, u) = u_rawbyte u; x = ucast (push_bit 8 (c1 AND 255));
          (c0, u) = u_rawbyte u; x = x OR ucast (c0 AND 255)
      in Some (x, u))"

definition u_unpack :: "unmarshall \<Rightarrow> u32 \<times> unmarshall" where
  "u_unpack u =
     (let (c3, u) = u_rawbyte u; x = push_bit 24 (c3 AND 255);
          (c2, u) = u_rawbyte u; x = x OR push_bit 16 (c2 AND 255);
          (c1, u) = u_rawbyte u; x = x OR push_bit 8 (c1 AND 255);
          (c0, u) = u_rawbyte u; x = x OR (c0 AND 255)
      in (x, u))"

definition u_uint :: "unmarshall \<Rightarrow> (u32 \<times> unmarshall) option" where
  "u_uint u =
     (let (c3, u) = u_rawbyte u; x = push_bit 24 (c3 AND 255);
          (c2, u) = u_rawbyte u; x = x OR push_bit 16 (c2 AND 255);
          (c1, u) = u_rawbyte u; x = x OR push_bit 8 (c1 AND 255);
          (c0, u) = u_rawbyte u; x = x OR (c0 AND 255)
      in Some (x, u))"

definition u_int :: "unmarshall \<Rightarrow> (u32 \<times> unmarshall) option" where
  "u_int u =
     (let (c3, u) = u_rawbyte u; x = push_bit 24 (c3 AND 255);
          (c2, u) = u_rawbyte u; x = x OR push_bit 16 (c2 AND 255);
          (c1, u) = u_rawbyte u; x = x OR push_bit 8 (c1 AND 255);
          (c0, u) = u_rawbyte u; x = x OR (c0 AND 255)
      in Some (x, u))"

definition u_ulonglong :: "unmarshall \<Rightarrow> (u64 \<times> unmarshall) option" where
  "u_ulonglong u = do {
     (h, u) \<leftarrow> u_uint u;
     (l, u) \<leftarrow> u_uint u;
     Some (ucast l OR push_bit 32 (ucast h), u) }"

text \<open>Reading a string into a fresh variable: where a check fails it keeps its initial value.\<close>

definition u_string :: "unmarshall \<Rightarrow> (string \<times> unmarshall) option" where
  "u_string u = do {
     (sz, u) \<leftarrow> u_uint u;
     if u_ok u then u_rawbytes u [] sz else Some ([], u) }"

fun u_repeat :: "(unmarshall \<Rightarrow> ('a \<times> unmarshall) option) \<Rightarrow> nat \<Rightarrow> unmarshall \<Rightarrow> ('a list \<times> unmarshall) option" where
  "u_repeat get 0 u = Some ([], u)"
| "u_repeat get (Suc n) u = do {
     (z, u) \<leftarrow> get u;
     (v, u) \<leftarrow> u_repeat get n u;
     Some (z # v, u) }"

definition u_vector :: "(unmarshall \<Rightarrow> ('a \<times> unmarshall) option) \<Rightarrow> unmarshall \<Rightarrow> ('a list \<times> unmarshall) option" where
  "u_vector get u = do {
     (n, u) \<leftarrow> u_uint u;
     u_repeat get (unat n) u }"

fun u_map_loop ::
  "(unmarshall \<Rightarrow> ('k::linorder \<times> unmarshall) option) \<Rightarrow> (unmarshall \<Rightarrow> ('v \<times> unmarshall) option) \<Rightarrow>
   nat \<Rightarrow> ('k, 'v) omap \<Rightarrow> unmarshall \<Rightarrow> (('k, 'v) omap \<times> unmarshall) option" where
  "u_map_loop getk getv 0 d u = Some (d, u)"
| "u_map_loop getk getv (Suc n) d u = do {
     (a, u) \<leftarrow> getk u;
     (b, u) \<leftarrow> getv u;
     u_map_loop getk getv n (omap_set a b d) u }"

definition u_map ::
  "(unmarshall \<Rightarrow> ('k::linorder \<times> unmarshall) option) \<Rightarrow> (unmarshall \<Rightarrow> ('v \<times> unmarshall) option) \<Rightarrow>
   unmarshall \<Rightarrow> (('k, 'v) omap \<times> unmarshall) option" where
  "u_map getk getv u = do {
     (n, u) \<leftarrow> u_uint u;
     u_map_loop getk getv (unat n) [] u }"

definition unpack_req_header :: "unmarshall \<Rightarrow> req_header \<times> unmarshall" where
  "unpack_req_header u =
     (let u = u\<lparr> u_ind := 4 \<rparr>;
          (xid, u) = u_unpack u;
          (proc, u) = u_unpack u;
          (clt_nonce, u) = u_unpack u;
          (srv_nonce, u) = u_unpack u;
          (xid_rep, u) = u_unpack u
      in (\<lparr> rq_xid = xid, rq_proc = proc, rq_clt_nonce = clt_nonce, rq_srv_nonce = srv_nonce,
            rq_xid_rep = xid_rep \<rparr>, u\<lparr> u_ind := RPC_HEADER_SZ \<rparr>))"

definition unpack_reply_header :: "unmarshall \<Rightarrow> reply_header \<times> unmarshall" where
  "unpack_reply_header u =
     (let u = u\<lparr> u_ind := 4 \<rparr>;
          (xid, u) = u_unpack u;
          (ret, u) = u_unpack u
      in (\<lparr> rp_xid = xid, rp_ret = ret \<rparr>, u\<lparr> u_ind := RPC_HEADER_SZ \<rparr>))"

section \<open>What the writers do\<close>

text \<open>\<open>m_wf\<close> is the invariant of the output buffer, \<open>written\<close> the bytes before the write head,
  \<open>content\<close> those after the header.  A message of at most \<open>MSG_LIMIT\<close> bytes never makes a size overflow.\<close>

definition MSG_LIMIT :: nat where "MSG_LIMIT = 2 ^ 30"

definition m_wf :: "marshall \<Rightarrow> bool" where
  "m_wf m = (length (m_buf m) = m_capa m \<and> m_ind m \<le> m_capa m \<and> 0 < m_capa m \<and> m_capa m < INT_LIMIT \<and> \<not> m_aborted m)"

definition written :: "marshall \<Rightarrow> byte list" where
  "written m = take (m_ind m) (m_buf m)"

definition content :: "marshall \<Rightarrow> byte list" where
  "content m = drop RPC_HEADER_SZ (written m)"

lemma length_realloc: "length buf \<le> n \<Longrightarrow> length (realloc junk buf n) = n"
  by (simp add: realloc_def)

lemma take_realloc: "i \<le> length buf \<Longrightarrow> length buf \<le> n \<Longrightarrow> take i (realloc junk buf n) = take i buf"
  by (simp add: realloc_def)

lemma length_memcpy_at: "i + length p \<le> length buf \<Longrightarrow> length (memcpy_at buf i p) = length buf"
  by (simp add: memcpy_at_def)

lemma take_memcpy_at:
  "i + length p \<le> length buf \<Longrightarrow> take (i + length p) (memcpy_at buf i p) = take i buf @ p"
  by (simp add: memcpy_at_def)

lemma memcpy_at_append:
  assumes "i + length p + length q \<le> length buf"
  shows "memcpy_at (memcpy_at buf i p) (i + length p) q = memcpy_at buf i (p @ q)"
  using assms by (simp add: memcpy_at_def ac_simps)

lemma list_update_memcpy_at: "i < length buf \<Longrightarrow> buf[i := x] = memcpy_at buf i [x]"
  by (simp add: memcpy_at_def upd_conv_take_nth_drop)

lemmas limits = INT_LIMIT_def MSG_LIMIT_def

lemma m_rawbyte_written [wire]:
  assumes "m_wf m" "m_ind m + 1 \<le> MSG_LIMIT"
  shows "m_wf (m_rawbyte m x)" "written (m_rawbyte m x) = written m @ [x]" "m_ind (m_rawbyte m x) = m_ind m + 1"
  using assms by (auto simp: m_wf_def m_rawbyte_def Let_def written_def length_realloc take_realloc
      take_Suc_conv_app_nth limits)

lemma m_rawbytes_written [wire]:
  assumes "m_wf m" "m_ind m + length p \<le> MSG_LIMIT"
  shows "m_wf (m_rawbytes m p)" "written (m_rawbytes m p) = written m @ p"
  using assms by (auto simp: m_wf_def m_rawbytes_def Let_def written_def length_realloc take_realloc
      take_memcpy_at length_memcpy_at limits)

lemma marshall_new_wf: "m_wf (marshall_new junk)"
  by (simp add: m_wf_def marshall_new_def length_realloc DEFAULT_RPC_SZ_def RPC_HEADER_SZ_24 limits)

lemma ind_new: "m_ind (marshall_new junk) = RPC_HEADER_SZ"
  by (simp add: marshall_new_def)

lemma content_new: "content (marshall_new junk) = []"
  by (simp add: content_def written_def marshall_new_def)

lemma m_ind_written: "m_wf m \<Longrightarrow> m_ind m = length (written m)"
  by (simp add: m_wf_def written_def)

subsection \<open>The encodings\<close>

definition enc_bool :: "bool \<Rightarrow> byte list" where
  "enc_bool x = [if x then 1 else 0]"

definition enc_ushort :: "u16 \<Rightarrow> byte list" where
  "enc_ushort x = [ucast (drop_bit 8 x AND 255), ucast (x AND 255)]"

definition enc_uint :: "u32 \<Rightarrow> byte list" where
  "enc_uint x = [ucast (drop_bit 24 x AND 255), ucast (drop_bit 16 x AND 255),
                 ucast (drop_bit 8 x AND 255), ucast (x AND 255)]"

definition enc_ulonglong :: "u64 \<Rightarrow> byte list" where
  "enc_ulonglong x = enc_uint (ucast (drop_bit 32 x)) @ enc_uint (ucast x)"

definition enc_string :: "string \<Rightarrow> byte list" where
  "enc_string s = enc_uint (of_nat (length s)) @ bytes_of_string s"

definition enc_vector :: "('a \<Rightarrow> byte list) \<Rightarrow> 'a list \<Rightarrow> byte list" where
  "enc_vector enc v = enc_uint (of_nat (length v)) @ concat (map enc v)"

definition enc_pair :: "('a \<Rightarrow> byte list) \<Rightarrow> ('b \<Rightarrow> byte list) \<Rightarrow> 'a \<times> 'b \<Rightarrow> byte list" where
  "enc_pair e1 e2 = (\<lambda>(x, y). e1 x @ e2 y)"

lemma length_enc_uint [simp]: "length (enc_uint x) = 4"
  by (simp add: enc_uint_def)

lemma m_uint_written [wire]:
  assumes "m_wf m" "m_ind m + 4 \<le> MSG_LIMIT"
  shows "m_wf (m_uint m x)" "written (m_uint m x) = written m @ enc_uint x" "m_ind (m_uint m x) = m_ind m + 4"
  using assms by (simp_all add: m_uint_def enc_uint_def wire)

lemma signed_drop_bit_and_ff:
  assumes "i + 8 \<le> 32"
  shows "signed_drop_bit i (x :: u32) AND 255 = drop_bit i x AND 255"
  unfolding and_ff
proof (rule bit_eqI, goal_cases)
  case (1 n)
  then show ?case using assms by (cases "n < 8") (auto simp: bit_simps)
qed

lemma m_pack_eq_uint: "m_pack m x = m_uint m x"
  by (simp add: m_pack_def m_uint_def signed_drop_bit_and_ff)

text \<open>Inside the buffer a write is a copy in place: this is how the headers are packed.\<close>

lemma m_rawbyte_inside:
  "m_ind m < m_capa m \<Longrightarrow> length (m_buf m) = m_capa m \<Longrightarrow> \<not> m_aborted m \<Longrightarrow>
   m_rawbyte m x = m\<lparr> m_buf := memcpy_at (m_buf m) (m_ind m) [x], m_ind := m_ind m + 1 \<rparr>"
  by (simp add: m_rawbyte_def list_update_memcpy_at)

lemma m_pack_inside:
  assumes "m_ind m + 4 \<le> m_capa m" "length (m_buf m) = m_capa m" "\<not> m_aborted m"
  shows "m_pack m x = m\<lparr> m_buf := memcpy_at (m_buf m) (m_ind m) (enc_uint x), m_ind := m_ind m + 4 \<rparr>"
proof -
  have app: "memcpy_at (memcpy_at b i p) (i + k) [z] = memcpy_at b i (p @ [z])"
    if "k = length p" "i + k + 1 \<le> length b" for b p z and i k :: nat
    using that memcpy_at_append [of i p "[z]" b] by simp
  show ?thesis
    using assms app [of 1 "[_]" "m_ind m" "m_buf m"] app [of "Suc (Suc 0)" "[_, _]" "m_ind m" "m_buf m"]
      app [of "Suc (Suc (Suc 0))" "[_, _, _]" "m_ind m" "m_buf m"]
    by (simp add: m_pack_eq_uint m_uint_def m_rawbyte_inside length_memcpy_at enc_uint_def Let_def)
qed

section \<open>What the readers do\<close>

definition u_wf :: "unmarshall \<Rightarrow> bool" where
  "u_wf u = (u_ind u \<le> u_sz u \<and> u_sz u \<le> length (u_buf u) \<and> u_sz u < 2 ^ 31)"

definition unread :: "unmarshall \<Rightarrow> byte list" where
  "unread u = drop (u_ind u) (take (u_sz u) (u_buf u))"

definition advance :: "nat \<Rightarrow> unmarshall \<Rightarrow> unmarshall" where
  "advance n u = u\<lparr> u_ind := u_ind u + n \<rparr>"

text \<open>\<open>starts u bs\<close>: the unread bytes begin with \<open>bs\<close>.\<close>

definition starts :: "unmarshall \<Rightarrow> byte list \<Rightarrow> bool" where
  "starts u bs = (take (length bs) (unread u) = bs)"

lemma advance_simps [simp]:
  "u_buf (advance n u) = u_buf u" "u_sz (advance n u) = u_sz u" "u_ok (advance n u) = u_ok u"
  "u_ind (advance n u) = u_ind u + n" "advance 0 u = u"
  "advance k (advance n u) = advance (n + k) u"
  by (simp_all add: advance_def add.assoc)

lemma unread_advance: "unread (advance n u) = drop n (unread u)"
  by (simp add: unread_def add.commute)

lemma take_append_eq_iff:
  "(take (length a + length b) xs = a @ b) = (take (length a) xs = a \<and> take (length b) (drop (length a) xs) = b)"
  unfolding take_add
  by (metis append_eq_append_conv append_eq_conv_conj append_take_drop_id drop_all
      length_append length_take linorder_not_le min.absorb2 nat_le_linear take_all_iff)

lemma starts_append: "starts u (a @ b) = (starts u a \<and> starts (advance (length a) u) b)"
  by (simp add: starts_def unread_advance take_append_eq_iff)

lemma length_unread: "u_wf u \<Longrightarrow> length (unread u) = u_sz u - u_ind u"
  by (simp add: u_wf_def unread_def)

lemma starts_length: "u_wf u \<Longrightarrow> starts u bs \<Longrightarrow> u_ind u + length bs \<le> u_sz u"
  using length_unread [of u] length_take [of "length bs" "unread u"] by (auto simp: starts_def u_wf_def)

lemma starts_wf: "u_wf u \<Longrightarrow> starts u bs \<Longrightarrow> u_wf (advance (length bs) u)"
  using starts_length [of u bs] by (simp add: u_wf_def)

lemma rawbyte_starts:
  assumes "u_wf u" "starts u [b]"
  shows "u_rawbyte u = (scast b, advance 1 u)"
proof -
  from starts_length [OF assms] have lt: "u_ind u < u_sz u" by simp
  with assms have "u_buf u ! u_ind u = b"
    by (auto simp: starts_def unread_def u_wf_def take_Suc_conv_app_nth hd_drop_conv_nth
        take_Suc dest!: arg_cong [of _ _ hd])
  with lt show ?thesis by (simp add: u_rawbyte_def advance_def)
qed

text \<open>A read that leaves the buffer \<open>ok\<close> started \<open>ok\<close> and found all its bytes.\<close>

lemma rawbyte_keeps:
  assumes "u_wf u"
  shows "u_wf (snd (u_rawbyte u))"
    and "u_ok (snd (u_rawbyte u)) \<Longrightarrow> u_ok u \<and> u_ind u + 1 \<le> u_sz u \<and> snd (u_rawbyte u) = advance 1 u"
  using assms by (auto simp: u_rawbyte_def u_wf_def advance_def)

lemma u_uint_unpack: "u_uint u = Some (u_unpack u)"
  by (simp add: u_uint_def u_unpack_def split: prod.splits)

lemma unpack_keeps:
  assumes "u_wf u"
  shows "u_wf (snd (u_unpack u))"
    and "u_ok (snd (u_unpack u)) \<Longrightarrow> u_ok u \<and> u_ind u + 4 \<le> u_sz u \<and> snd (u_unpack u) = advance 4 u"
proof -
  obtain c3 u3 where 3: "u_rawbyte u = (c3, u3)" by fastforce
  obtain c2 u2 where 2: "u_rawbyte u3 = (c2, u2)" by fastforce
  obtain c1 u1 where 1: "u_rawbyte u2 = (c1, u1)" by fastforce
  obtain c0 u0 where 0: "u_rawbyte u1 = (c0, u0)" by fastforce
  have r: "snd (u_unpack u) = u0"
    by (simp add: u_unpack_def 3 2 1 0)
  have w3: "u_wf u3" using rawbyte_keeps(1) [OF assms] 3 by simp
  have w2: "u_wf u2" using rawbyte_keeps(1) [OF w3] 2 by simp
  have w1: "u_wf u1" using rawbyte_keeps(1) [OF w2] 1 by simp
  show "u_wf (snd (u_unpack u))" using rawbyte_keeps(1) [OF w1] 0 r by simp
  assume "u_ok (snd (u_unpack u))"
  then have k0: "u_ok u1" "u_ind u1 + 1 \<le> u_sz u1" "u0 = advance 1 u1"
    using rawbyte_keeps(2) [OF w1] 0 r by auto
  then have k1: "u_ok u2" "u1 = advance 1 u2"
    using rawbyte_keeps(2) [OF w2] 1 by auto
  then have k2: "u_ok u3" "u2 = advance 1 u3"
    using rawbyte_keeps(2) [OF w3] 2 by auto
  then have k3: "u_ok u" "u3 = advance 1 u"
    using rawbyte_keeps(2) [OF assms] 3 by auto
  show "u_ok u \<and> u_ind u + 4 \<le> u_sz u \<and> snd (u_unpack u) = advance 4 u"
    using k0(2,3) k1 k2 k3 by (simp add: r eval_nat_numeral)
qed

lemma unpack_starts:
  assumes "u_wf u" "starts u (enc_uint x)"
  shows "u_unpack u = (x, advance 4 u)"
proof -
  let ?b3 = "ucast (drop_bit 24 x AND 255) :: byte" and ?b2 = "ucast (drop_bit 16 x AND 255) :: byte"
    and ?b1 = "ucast (drop_bit 8 x AND 255) :: byte" and ?b0 = "ucast (x AND 255) :: byte"
  have e: "enc_uint x = [?b3] @ [?b2] @ [?b1] @ [?b0]" by (simp add: enc_uint_def)
  from assms(2) have s: "starts u [?b3]" "starts (advance 1 u) [?b2]" "starts (advance 2 u) [?b1]"
      "starts (advance 3 u) [?b0]"
    unfolding e starts_append by (simp_all add: numeral_2_eq_2 numeral_3_eq_3)
  have w1: "u_wf (advance 1 u)" using starts_wf [OF assms(1) s(1)] by simp
  have w2: "u_wf (advance 2 u)" using starts_wf [OF w1 s(2)] by (simp add: numeral_2_eq_2)
  have w3: "u_wf (advance 3 u)" using starts_wf [OF w2 s(3)] by (simp add: numeral_2_eq_2 numeral_3_eq_3)
  have a: "advance 1 (advance 1 u) = advance 2 u" "advance 1 (advance 2 u) = advance 3 u"
      "advance 1 (advance 3 u) = advance 4 u" by simp_all
  note r = rawbyte_starts [OF assms(1) s(1)] rawbyte_starts [OF w1 s(2)]
    rawbyte_starts [OF w2 s(3)] rawbyte_starts [OF w3 s(4)]
  show ?thesis
    unfolding u_unpack_def r a Let_def prod.case scast_byte_and_ff or.assoc u32_from_bytes ..
qed

section \<open>The contract of a wire type\<close>

locale codec =
  fixes put :: "marshall \<Rightarrow> 'a \<Rightarrow> marshall" and get :: "unmarshall \<Rightarrow> ('a \<times> unmarshall) option"
    and enc :: "'a \<Rightarrow> byte list" and valid :: "'a \<Rightarrow> bool"
  assumes put_wf: "m_wf m \<Longrightarrow> m_ind m + length (enc x) \<le> MSG_LIMIT \<Longrightarrow> m_wf (put m x)"
    and put_written: "m_wf m \<Longrightarrow> m_ind m + length (enc x) \<le> MSG_LIMIT \<Longrightarrow> written (put m x) = written m @ enc x"
    and enc_nonempty: "enc x \<noteq> []"
    and get_starts: "u_wf u \<Longrightarrow> u_ok u \<Longrightarrow> valid x \<Longrightarrow> starts u (enc x) \<Longrightarrow>
       get u = Some (x, advance (length (enc x)) u)"
    and get_short: "u_wf u \<Longrightarrow> u_ok u \<Longrightarrow> valid x \<Longrightarrow> length (enc x) < 2 ^ 31 \<Longrightarrow>
       enc x = unread u @ q \<Longrightarrow> q \<noteq> [] \<Longrightarrow> \<exists>y u'. get u = Some (y, u') \<and> u_wf u' \<and> \<not> u_ok u'"
    and get_bad: "u_wf u \<Longrightarrow> \<not> u_ok u \<Longrightarrow> \<exists>y u'. get u = Some (y, u') \<and> u_wf u' \<and> \<not> u_ok u'"
begin

text \<open>The bytes of a message: the header area, then the encoding of the value.\<close>

lemma put_ind: "m_wf m \<Longrightarrow> m_ind m + length (enc x) \<le> MSG_LIMIT \<Longrightarrow> m_ind (put m x) = m_ind m + length (enc x)"
  using m_ind_written [of m] m_ind_written [of "put m x"] by (simp add: put_wf put_written)

lemma put_content:
  assumes "m_wf m" "RPC_HEADER_SZ \<le> m_ind m" "m_ind m + length (enc x) \<le> MSG_LIMIT"
  shows "content (put m x) = content m @ enc x"
  using assms put_written [OF assms(1,3)] by (simp add: content_def m_ind_written)

lemma read_back:
  assumes "u_wf u" "u_ok u" "valid x" "unread u = enc x @ rest"
  shows "\<exists>u'. get u = Some (x, u') \<and> u_wf u' \<and> u_ok u' \<and> unread u' = rest \<and> (u_okdone u' = (rest = []))"
proof -
  have s: "starts u (enc x)" using assms(4) by (simp add: starts_def)
  let ?u' = "advance (length (enc x)) u"
  have w: "u_wf ?u'" by (rule starts_wf [OF assms(1) s])
  have r: "unread ?u' = rest" by (simp add: unread_advance assms(4))
  have "u_okdone ?u' = (rest = [])"
    using length_unread [OF w] w assms(2) by (auto simp: r u_okdone_def u_wf_def)
  with w r assms(2) get_starts [OF assms(1-3) s] show ?thesis by auto
qed

text \<open>A message that ends inside the encoding is never reported complete.\<close>

lemma short_detected:
  assumes "u_wf u" "u_ok u" "valid x" "length (enc x) < 2 ^ 31" "k < length (enc x)"
    and "unread u = take k (enc x)"
  shows "\<exists>y u'. get u = Some (y, u') \<and> \<not> u_ok u' \<and> \<not> u_okdone u'"
  using get_short [OF assms(1-4), of "drop k (enc x)"] assms(5,6) by (auto simp: u_okdone_def)

end

subsection \<open>Combining codecs\<close>

definition m_pair ::
  "(marshall \<Rightarrow> 'a \<Rightarrow> marshall) \<Rightarrow> (marshall \<Rightarrow> 'b \<Rightarrow> marshall) \<Rightarrow> marshall \<Rightarrow> 'a \<times> 'b \<Rightarrow> marshall" where
  "m_pair put1 put2 = (\<lambda>m (x, y). put2 (put1 m x) y)"

definition u_pair ::
  "(unmarshall \<Rightarrow> ('a \<times> unmarshall) option) \<Rightarrow> (unmarshall \<Rightarrow> ('b \<times> unmarshall) option) \<Rightarrow>
   unmarshall \<Rightarrow> (('a \<times> 'b) \<times> unmarshall) option" where
  "u_pair get1 get2 u = do { (x, u) \<leftarrow> get1 u; (y, u) \<leftarrow> get2 u; Some ((x, y), u) }"

lemma codec_pair:
  assumes "codec put1 get1 enc1 valid1" "codec put2 get2 enc2 valid2"
  shows "codec (m_pair put1 put2) (u_pair get1 get2) (enc_pair enc1 enc2)
           (\<lambda>(x, y). valid1 x \<and> valid2 y)"
proof (unfold_locales, goal_cases)
  case (1 m p)
  then show ?case
    using codec.put_wf [OF assms(1)] codec.put_ind [OF assms(1)] codec.put_wf [OF assms(2)]
    by (cases p) (simp add: m_pair_def enc_pair_def)
next
  case (2 m p)
  then show ?case
    using codec.put_wf [OF assms(1)] codec.put_ind [OF assms(1)] codec.put_written [OF assms(1)] codec.put_written [OF assms(2)]
    by (cases p) (simp add: m_pair_def enc_pair_def)
next
  case (3 p)
  then show ?case using codec.enc_nonempty [OF assms(1)] by (cases p) (simp add: enc_pair_def)
next
  case (4 u p)
  obtain x y where p: "p = (x, y)" by fastforce
  with 4 have v: "valid1 x" "valid2 y" and s: "starts u (enc1 x)"
    "starts (advance (length (enc1 x)) u) (enc2 y)" by (auto simp: enc_pair_def starts_append)
  with 4(2) show ?case
    using codec.get_starts [OF assms(1) 4(1,2) v(1) s(1)]
      codec.get_starts [OF assms(2) starts_wf [OF 4(1) s(1)] _ v(2) s(2)]
    by (simp add: p u_pair_def enc_pair_def)
next
  case (5 u p q)
  obtain x y where p: "p = (x, y)" by fastforce
  with 5 have v: "valid1 x" "valid2 y" and len: "length (enc1 x) + length (enc2 y) < 2 ^ 31"
    and e: "enc1 x @ enc2 y = unread u @ q" by (auto simp: enc_pair_def)
  from e obtain t where
    "enc1 x = unread u @ t \<and> t @ enc2 y = q \<or> unread u = enc1 x @ t \<and> enc2 y = t @ q"
    unfolding append_eq_append_conv2 by metis
  then consider (first) "enc1 x = unread u @ t" "t \<noteq> []"
    | (second) t where "unread u = enc1 x @ t" "enc2 y = t @ q"
    by (cases "t = []") auto
  then show ?case
  proof cases
    case first
    then obtain a u1 where a: "get1 u = Some (a, u1)" "u_wf u1" "\<not> u_ok u1"
      using codec.get_short [OF assms(1) 5(1,2) v(1) _ first] len by auto
    then show ?thesis using codec.get_bad [OF assms(2) a(2,3)] by (auto simp: u_pair_def)
  next
    case second
    then have s: "starts u (enc1 x)" by (simp add: starts_def)
    from second have "enc2 y = unread (advance (length (enc1 x)) u) @ q"
      by (simp add: unread_advance)
    then show ?thesis
      using codec.get_short [OF assms(2) starts_wf [OF 5(1) s], of y q] 5(2,6) v(2) len
        codec.get_starts [OF assms(1) 5(1,2) v(1) s] by (auto simp: u_pair_def)
  qed
next
  case (6 u)
  then obtain a u1 where "get1 u = Some (a, u1)" "u_wf u1" "\<not> u_ok u1"
    using codec.get_bad [OF assms(1)] by blast
  then show ?case using codec.get_bad [OF assms(2), of u1] by (auto simp: u_pair_def)
qed

text \<open>What a struct of the protocols unfolds to: writers and readers in a row.\<close>

lemmas struct_simps = m_pair_def u_pair_def enc_pair_def map_conv_bind_option comp_def case_prod_beta'

text \<open>A wire type that is another one seen through \<open>f\<close> and \<open>g\<close>: structs over tuples.\<close>

lemma codec_via:
  assumes "codec put get enc valid"
    and "\<And>m x. put' m x = put m (g x)"
    and "\<And>u. get' u = map_option (\<lambda>(y, u). (f y, u)) (get u)"
    and "\<And>x. enc' x = enc (g x)"
    and "\<And>x. valid' x \<Longrightarrow> valid (g x) \<and> f (g x) = x"
  shows "codec put' get' enc' valid'"
proof (unfold_locales, goal_cases)
  case (4 u x)
  then show ?case
    using codec.get_starts [OF assms(1), of u "g x"] assms(5) [of x] by (auto simp: assms(3,4))
next
  case (5 u x q)
  then show ?case
    using codec.get_short [OF assms(1), of u "g x" q] assms(5) [of x] by (auto simp: assms(3,4))
next
  case (6 u)
  then show ?case using codec.get_bad [OF assms(1), of u] by (auto simp: assms(3))
qed (use codec.put_wf [OF assms(1)] codec.put_written [OF assms(1)]
      codec.enc_nonempty [OF assms(1)] in \<open>simp_all add: assms(2-4)\<close>)

subsection \<open>The base types\<close>

lemma short_end:
  assumes "u_wf u" "bs = unread u @ q" "q \<noteq> []"
  shows "u_sz u < u_ind u + length bs"
proof -
  have "0 < length q" using assms(3) by simp
  moreover have "length bs = length (unread u) + length q" by (simp add: assms(2))
  ultimately show ?thesis using length_unread [OF assms(1)] assms(1) by (simp add: u_wf_def)
qed

lemma codec_byte:
  assumes "\<And>m x. put m x = m_rawbyte m (f x)"
    and "\<And>u. get u = (let (c, u) = u_rawbyte u in Some (g c, u))"
    and "\<And>x. g (scast (f x)) = x"
  shows "codec put get (\<lambda>x. [f x]) (\<lambda>_. True)"
proof (unfold_locales, goal_cases)
  case (4 u x)
  then show ?case using rawbyte_starts [of u "f x"] by (simp add: assms(2,3))
next
  case (5 u x q)
  have "u_sz u < u_ind u + 1" using short_end [OF 5(1,5,6)] by simp
  then show ?case using rawbyte_keeps [OF 5(1)] by (auto simp: assms(2) split: prod.splits)
next
  case (6 u)
  then show ?case using rawbyte_keeps [OF 6(1)] by (auto simp: assms(2) split: prod.splits)
qed (simp_all add: assms(1) wire)

lemma scast_byte_01: "(scast (0 :: byte) :: u32) = 0" "(scast (1 :: byte) :: u32) = 1"
  by (transfer, simp)+

lemma ucast_scast_byte: "ucast (scast (c :: byte) :: u32) = c"
proof (rule bit_eqI, goal_cases)
  case (1 n)
  then show ?case by (cases "n = 7") (auto simp: bit_simps min_def)
qed

interpretation bool: codec m_bool u_bool enc_bool "\<lambda>_. True"
proof -
  have e: "enc_bool = (\<lambda>x. [if x then 1 else 0])" by (simp add: enc_bool_def fun_eq_iff)
  show "codec m_bool u_bool enc_bool (\<lambda>_. True)"
    unfolding e by (rule codec_byte [where g = "\<lambda>c. c \<noteq> 0"]) (simp_all add: m_bool_def u_bool_def scast_byte_01)
qed

interpretation uchar: codec m_uchar u_uchar "\<lambda>x. [x]" "\<lambda>_. True"
  by (rule codec_byte [where g = ucast]) (simp_all add: m_uchar_def u_uchar_def ucast_scast_byte)

interpretation uint: codec m_uint u_uint enc_uint "\<lambda>_. True"
proof (unfold_locales, goal_cases)
  case (4 u x)
  then show ?case using unpack_starts [of u x] by (simp add: u_uint_unpack)
next
  case (5 u x q)
  have "u_sz u < u_ind u + 4" using short_end [OF 5(1,5,6)] by simp
  then show ?case using unpack_keeps [OF 5(1)] by (cases "u_unpack u") (auto simp: u_uint_unpack)
next
  case (6 u)
  then show ?case using unpack_keeps [OF 6(1)] by (cases "u_unpack u") (auto simp: u_uint_unpack)
qed (simp_all add: wire, simp add: enc_uint_def)

interpretation ushort: codec m_ushort u_ushort enc_ushort "\<lambda>_. True"
proof (unfold_locales, goal_cases)
  case (4 u x)
  let ?b1 = "ucast (drop_bit 8 x AND 255) :: byte" and ?b0 = "ucast (x AND 255) :: byte"
  have e: "enc_ushort x = [?b1] @ [?b0]" by (simp add: enc_ushort_def)
  from 4(4) have s: "starts u [?b1]" "starts (advance 1 u) [?b0]"
    unfolding e starts_append by simp_all
  have w: "u_wf (advance 1 u)" using starts_wf [OF 4(1) s(1)] by simp
  have j: "(ucast (push_bit 8 (ucast ?b1 :: u32)) :: u16) OR ucast (ucast ?b0 :: u32) = x"
  proof (rule bit_eqI, goal_cases)
    case (1 n)
    then show ?case unfolding and_ff by (cases "n < 8") (auto simp: bit_simps)
  qed
  have a: "advance 1 (advance 1 u) = advance (length (enc_ushort x)) u" by (simp add: e)
  show ?case
    unfolding u_ushort_def rawbyte_starts [OF 4(1) s(1)] rawbyte_starts [OF w s(2)] Let_def
      prod.case scast_byte_and_ff a j ..
next
  case (5 u x q)
  obtain c1 u1 where 1: "u_rawbyte u = (c1, u1)" by fastforce
  obtain c0 u0 where 0: "u_rawbyte u1 = (c0, u0)" by fastforce
  have "u_wf u1" using rawbyte_keeps(1) [OF 5(1)] 1 by simp
  then show ?case using short_end [OF 5(1,5,6)] rawbyte_keeps [OF 5(1)] rawbyte_keeps [of u1]
    by (auto simp: u_ushort_def 1 0 enc_ushort_def)
next
  case (6 u)
  obtain c1 u1 where 1: "u_rawbyte u = (c1, u1)" by fastforce
  obtain c0 u0 where 0: "u_rawbyte u1 = (c0, u0)" by fastforce
  have "u_wf u1" using rawbyte_keeps(1) [OF 6(1)] 1 by simp
  then show ?case using 6 rawbyte_keeps [OF 6(1)] rawbyte_keeps [of u1]
    by (auto simp: u_ushort_def 1 0)
qed (simp_all add: m_ushort_def enc_ushort_def wire)

interpretation ulonglong: codec m_ulonglong u_ulonglong enc_ulonglong "\<lambda>_. True"
proof (rule codec_via [OF codec_pair [OF uint.codec_axioms uint.codec_axioms],
      of _ "\<lambda>x. (ucast (drop_bit 32 x), ucast x)" _ "\<lambda>(h, l). ucast l OR push_bit 32 (ucast h)"])
  show "u_ulonglong u = map_option (\<lambda>(y, u). ((\<lambda>(h, l). ucast l OR push_bit 32 (ucast h)) y, u))
          (u_pair u_uint u_uint u)" for u
    by (simp add: u_ulonglong_def u_pair_def u_uint_unpack split: prod.splits)
qed (simp_all add: m_ulonglong_def m_pair_def enc_ulonglong_def enc_pair_def u64_from_halves)

text \<open>The signed types have the same bytes.\<close>

lemma signed_as_unsigned:
  "m_char = m_uchar" "m_short = m_ushort" "m_int = m_uint"
  "u_char = u_uchar" "u_short = u_ushort" "u_int = u_uint"
  by (simp_all add: fun_eq_iff m_char_def m_short_def m_int_def u_char_def u_uchar_def
      u_short_def u_ushort_def u_int_def u_uint_def)

interpretation char: codec m_char u_char "\<lambda>x. [x]" "\<lambda>_. True"
  unfolding signed_as_unsigned by (rule uchar.codec_axioms)

interpretation short: codec m_short u_short enc_ushort "\<lambda>_. True"
  unfolding signed_as_unsigned by (rule ushort.codec_axioms)

interpretation cint: codec m_int u_int enc_uint "\<lambda>_. True"
  unfolding signed_as_unsigned by (rule uint.codec_axioms)

text \<open>The bounds check of \<open>rawbytes\<close> is exact while the two sizes stay below \<open>2 ^ 31\<close>.\<close>

lemma rawbytes_check:
  assumes "i < 2 ^ 31" "n < 2 ^ 31" "z < 2 ^ 31"
  shows "((of_nat i :: u32) + of_nat n > of_nat z) = (i + n > z)"
proof -
  have "(of_nat i :: u32) + of_nat n = of_nat (i + n)" by simp
  then show ?thesis using assms by (simp add: word_less_nat_alt unat_of_nat del: of_nat_add)
qed

interpretation str: codec m_string u_string enc_string "\<lambda>_. True"
proof (unfold_locales, goal_cases)
  case (3 s)
  then show ?case using uint.enc_nonempty by (simp add: enc_string_def)
next
  case (4 u s)
  let ?n = "of_nat (length s) :: u32" and ?u = "advance 4 u"
  have s1: "starts u (enc_uint ?n)" and s2: "starts ?u (bytes_of_string s)"
    using 4(4) by (simp_all add: enc_string_def starts_append)
  have w: "u_wf ?u" using starts_wf [OF 4(1) s1] by simp
  have len: "u_ind u + 4 + length s \<le> u_sz u" using starts_length [OF w s2] by simp
  with w have n: "unat ?n = length s" "length s < 2 ^ 31" "u_ind ?u < 2 ^ 31" "u_sz u < 2 ^ 31"
    by (auto simp: u_wf_def unat_of_nat)
  have "take (length s) (drop (u_ind ?u) (u_buf u)) = bytes_of_string s"
    using s2 len w by (simp add: starts_def unread_def take_drop u_wf_def min_def)
  then show ?case
    using 4 len w n rawbytes_check [OF n(3,2,4)] unpack_starts [OF 4(1) s1]
    by (auto simp: u_string_def u_rawbytes_def u_uint_unpack u_wf_def enc_string_def advance_def)
next
  case (5 u s q)
  let ?n = "of_nat (length s) :: u32" and ?u = "advance 4 u"
  show ?case
  proof (cases "u_ok (snd (u_unpack u))")
    case False
    then show ?thesis using unpack_keeps(1) [OF 5(1)]
      by (cases "u_unpack u") (auto simp: u_string_def u_uint_unpack)
  next
    case True
    from unpack_keeps [OF 5(1)] True have w: "u_wf ?u" and l4: "u_ind u + 4 \<le> u_sz u" by auto
    have "4 \<le> length (unread u)" using l4 length_unread [OF 5(1)] by simp
    then have "take 4 (unread u) = take 4 (enc_string s)" by (simp add: 5(5))
    then have s1: "starts u (enc_uint ?n)" by (simp add: starts_def enc_string_def)
    have n: "length s < 2 ^ 31" "u_ind ?u < 2 ^ 31" "u_sz u < 2 ^ 31"
      using 5(4) w by (auto simp: enc_string_def u_wf_def)
    have "u_sz u < u_ind ?u + length s" using short_end [OF 5(1,5,6)] by (simp add: enc_string_def)
    then show ?thesis using rawbytes_check [OF n(2,1,3)] unpack_starts [OF 5(1) s1] 5(2) w
      by (auto simp: u_string_def u_uint_unpack u_rawbytes_def u_wf_def)
  qed
next
  case (6 u)
  then show ?case using unpack_keeps [OF 6(1)]
    by (cases "u_unpack u") (auto simp: u_string_def u_uint_unpack)
qed (simp_all add: m_string_def enc_string_def wire)

subsection \<open>Vectors and maps\<close>

context codec
begin

lemma foldl_put:
  "m_wf m \<Longrightarrow> m_ind m + length (concat (map enc xs)) \<le> MSG_LIMIT \<Longrightarrow>
   m_wf (foldl put m xs) \<and> written (foldl put m xs) = written m @ concat (map enc xs)"
  by (induction xs arbitrary: m) (simp_all add: put_wf put_written put_ind)

lemma length_le_enc: "length xs \<le> length (concat (map enc xs))"
proof (induction xs)
  case (Cons x xs)
  then show ?case using enc_nonempty [of x] by (cases "enc x") simp_all
qed simp

lemma repeat_starts:
  "u_wf u \<Longrightarrow> u_ok u \<Longrightarrow> list_all valid xs \<Longrightarrow> starts u (concat (map enc xs)) \<Longrightarrow>
   u_repeat get (length xs) u = Some (xs, advance (length (concat (map enc xs))) u)"
proof (induction xs arbitrary: u)
  case (Cons x xs)
  have s: "starts u (enc x)" "starts (advance (length (enc x)) u) (concat (map enc xs))"
    using Cons.prems(4) by (simp_all add: starts_append)
  show ?case
    using Cons.IH [OF starts_wf [OF Cons.prems(1) s(1)] _ _ s(2)] Cons.prems(2,3)
      get_starts [OF Cons.prems(1,2) _ s(1)] by simp
qed simp

lemma repeat_bad:
  "u_wf u \<Longrightarrow> \<not> u_ok u \<Longrightarrow> \<exists>y u'. u_repeat get n u = Some (y, u') \<and> u_wf u' \<and> \<not> u_ok u'"
proof (induction n arbitrary: u)
  case (Suc n)
  from get_bad [OF Suc.prems] obtain y u1 where "get u = Some (y, u1)" "u_wf u1" "\<not> u_ok u1" by auto
  with Suc.IH [of u1] show ?case by auto
qed simp

lemma repeat_short:
  "u_wf u \<Longrightarrow> u_ok u \<Longrightarrow> list_all valid xs \<Longrightarrow> length (concat (map enc xs)) < 2 ^ 31 \<Longrightarrow>
   concat (map enc xs) = unread u @ q \<Longrightarrow> q \<noteq> [] \<Longrightarrow>
   \<exists>y u'. u_repeat get (length xs) u = Some (y, u') \<and> u_wf u' \<and> \<not> u_ok u'"
proof (induction xs arbitrary: u)
  case (Cons x xs)
  let ?es = "concat (map enc xs)"
  have v: "valid x" "list_all valid xs" and len: "length (enc x) < 2 ^ 31" "length ?es < 2 ^ 31"
    and e: "enc x @ ?es = unread u @ q"
    using Cons.prems(3-5) by auto
  from e obtain t where "enc x = unread u @ t \<and> t @ ?es = q \<or> unread u = enc x @ t \<and> ?es = t @ q"
    unfolding append_eq_append_conv2 by metis
  then consider (first) "enc x = unread u @ t" "t \<noteq> []" | (later) t where "unread u = enc x @ t" "?es = t @ q"
    by (cases "t = []") auto
  then show ?case
  proof cases
    case first
    then obtain y u1 where "get u = Some (y, u1)" "u_wf u1" "\<not> u_ok u1"
      using get_short [OF Cons.prems(1,2) v(1) len(1) first] by auto
    then show ?thesis using repeat_bad [of u1 "length xs"] by auto
  next
    case later
    have s: "starts u (enc x)" using later(1) by (simp add: starts_def)
    have "?es = unread (advance (length (enc x)) u) @ q" using later by (simp add: unread_advance)
    then show ?thesis
      using Cons.IH [OF starts_wf [OF Cons.prems(1) s] _ v(2) len(2)] Cons.prems(2,6)
        get_starts [OF Cons.prems(1,2) v(1) s] by auto
  qed
qed simp

text \<open>A list after its length, whatever integer type the reader's loop counts with.\<close>

definition u_counted :: "(u32 \<Rightarrow> nat) \<Rightarrow> unmarshall \<Rightarrow> ('a list \<times> unmarshall) option" where
  "u_counted cnt u = do { (n, u) \<leftarrow> u_uint u; u_repeat get (cnt n) u }"

lemma codec_counted:
  assumes cnt: "\<And>k. k < 2 ^ 31 \<Longrightarrow> cnt (of_nat k) = k"
  shows "codec (m_vector put) (u_counted cnt) (enc_vector enc) (list_all valid)"
proof (unfold_locales, goal_cases)
  case (1 m v)
  then show ?case using foldl_put [of "m_uint m (of_nat (length v))" v]
    by (simp add: m_vector_def enc_vector_def wire del: length_concat)
next
  case (2 m v)
  then show ?case using foldl_put [of "m_uint m (of_nat (length v))" v]
    by (simp add: m_vector_def enc_vector_def wire del: length_concat)
next
  case (3 v)
  then show ?case using uint.enc_nonempty by (simp add: enc_vector_def)
next
  case (4 u v)
  let ?n = "of_nat (length v) :: u32"
  have s1: "starts u (enc_uint ?n)" and s2: "starts (advance 4 u) (concat (map enc v))"
    using 4(4) by (simp_all add: enc_vector_def starts_append)
  have w: "u_wf (advance 4 u)" using starts_wf [OF 4(1) s1] by simp
  have "length v < 2 ^ 31"
    using starts_length [OF w s2] length_le_enc [of v] w by (simp add: u_wf_def)
  then have "cnt ?n = length v" by (rule cnt)
  then show ?case
    using repeat_starts [OF w _ 4(3) s2] 4(2) unpack_starts [OF 4(1) s1]
    by (simp add: u_counted_def u_uint_unpack enc_vector_def)
next
  case (5 u v q)
  let ?n = "of_nat (length v) :: u32" and ?es = "concat (map enc v)"
  show ?case
  proof (cases "u_ok (snd (u_unpack u))")
    case False
    then show ?thesis using unpack_keeps(1) [OF 5(1)] repeat_bad
      by (cases "u_unpack u") (auto simp: u_counted_def u_uint_unpack)
  next
    case True
    from unpack_keeps [OF 5(1)] True have w: "u_wf (advance 4 u)" and l4: "u_ind u + 4 \<le> u_sz u" by auto
    have "4 \<le> length (unread u)" using l4 length_unread [OF 5(1)] by simp
    then have "take 4 (unread u) = take 4 (enc_vector enc v)" by (simp add: 5(5))
    then have s1: "starts u (enc_uint ?n)" by (simp add: starts_def enc_vector_def)
    have len: "length ?es < 2 ^ 31" using 5(4) by (simp add: enc_vector_def)
    then have "cnt ?n = length v" using length_le_enc [of v] by (intro cnt) simp
    moreover have "?es = unread (advance 4 u) @ q"
      using 5(5) \<open>4 \<le> length (unread u)\<close> unfolding enc_vector_def unread_advance
      by (metis append_eq_conv_conj drop_append diff_is_0_eq drop_0 length_enc_uint)
    ultimately show ?thesis
      using repeat_short [OF w _ 5(3) len _ 5(6)] 5(2) unpack_starts [OF 5(1) s1]
      by (simp add: u_counted_def u_uint_unpack)
  qed
next
  case (6 u)
  then have "u_wf (snd (u_unpack u))" "\<not> u_ok (snd (u_unpack u))" using unpack_keeps by auto
  then show ?case using repeat_bad by (cases "u_unpack u") (auto simp: u_counted_def u_uint_unpack)
qed

lemma codec_vector: "codec (m_vector put) (u_vector get) (enc_vector enc) (list_all valid)"
proof -
  have "u_vector get = u_counted unat" by (simp add: fun_eq_iff u_vector_def u_counted_def)
  then show ?thesis using codec_counted [of unat] by (simp add: unat_of_nat)
qed

end

lemma u_map_loop_eq:
  "u_map_loop getk getv n d u =
     map_option (\<lambda>(xs, u). (fold (\<lambda>(k, v) d. omap_set k v d) xs d, u)) (u_repeat (u_pair getk getv) n u)"
proof (induction n arbitrary: d u)
  case (Suc n)
  then show ?case by (auto simp: u_pair_def split: bind_split)
qed simp

lemma u_map_eq:
  "u_map getk getv u =
     map_option (\<lambda>(xs, u). (fold (\<lambda>(k, v) d. omap_set k v d) xs [], u)) (u_vector (u_pair getk getv) u)"
  by (auto simp: u_map_def u_vector_def u_map_loop_eq split: bind_split)

lemma codec_map:
  assumes "codec putk getk enck validk" "codec putv getv encv validv"
  shows "codec (m_map putk putv) (u_map getk getv) (enc_vector (enc_pair enck encv))
           (\<lambda>d. omap_ok d \<and> list_all (\<lambda>(k, v). validk k \<and> validv v) d)"
proof (rule codec_via [OF codec.codec_vector [OF codec_pair [OF assms]], where g = "\<lambda>d. d"])
  show "m_map putk putv m d = m_vector (m_pair putk putv) m d" for m d
    by (simp add: m_map_def m_vector_def m_pair_def case_prod_unfold)
  show "list_all (\<lambda>(x, y). validk x \<and> validv y) d \<and> fold (\<lambda>(k, v) d. omap_set k v d) d [] = d"
    if "omap_ok d \<and> list_all (\<lambda>(k, v). validk k \<and> validv v) d" for d
    using that omap.rebuild_entries [of d] by simp
qed (simp_all add: u_map_eq)

interpretation strings: codec "m_vector m_string" "u_vector u_string" "enc_vector enc_string" "list_all (\<lambda>_. True)"
  by (rule str.codec_vector)

section \<open>Headers\<close>

definition enc_req_header :: "req_header \<Rightarrow> byte list" where
  "enc_req_header h = enc_uint (rq_xid h) @ enc_uint (rq_proc h) @ enc_uint (rq_clt_nonce h) @
     enc_uint (rq_srv_nonce h) @ enc_uint (rq_xid_rep h)"

definition enc_reply_header :: "reply_header \<Rightarrow> byte list" where
  "enc_reply_header h = enc_uint (rp_xid h) @ enc_uint (rp_ret h)"

lemma memcpy_at_step:
  "j = i + length p \<Longrightarrow> i + length p + length q \<le> length buf \<Longrightarrow>
   memcpy_at (memcpy_at buf i p) j q = memcpy_at buf i (p @ q)"
  using memcpy_at_append by simp

lemma pack_req_header_eq:
  assumes "m_wf m" "RPC_HEADER_SZ \<le> m_ind m"
  shows "pack_req_header m h = m\<lparr> m_buf := memcpy_at (m_buf m) 4 (enc_req_header h) \<rparr>"
  using assms
  by (simp add: pack_req_header_def m_pack_inside m_wf_def RPC_HEADER_SZ_24 length_memcpy_at
      memcpy_at_step enc_req_header_def)

lemma pack_reply_header_eq:
  assumes "m_wf m" "RPC_HEADER_SZ \<le> m_ind m"
  shows "pack_reply_header m h = m\<lparr> m_buf := memcpy_at (m_buf m) 4 (enc_reply_header h) \<rparr>"
  using assms
  by (simp add: pack_reply_header_def m_pack_inside m_wf_def RPC_HEADER_SZ_24 length_memcpy_at
      memcpy_at_step enc_reply_header_def)

lemma pack_header_wf [wire]:
  assumes "m_wf m" "RPC_HEADER_SZ \<le> m_ind m"
  shows "m_wf (pack_req_header m h)" "m_wf (pack_reply_header m r)"
    and "m_ind (pack_req_header m h) = m_ind m" "m_ind (pack_reply_header m r) = m_ind m"
  using assms by (simp_all add: pack_req_header_eq pack_reply_header_eq m_wf_def length_memcpy_at
      enc_req_header_def enc_reply_header_def RPC_HEADER_SZ_24)

lemma drop_memcpy_at: "i + length p \<le> k \<Longrightarrow> k \<le> length b \<Longrightarrow> drop k (memcpy_at b i p) = drop k b"
  by (simp add: memcpy_at_def)

lemma content_pack_header [wire]:
  assumes "m_wf m" "RPC_HEADER_SZ \<le> m_ind m"
  shows "content (pack_req_header m h) = content m" "content (pack_reply_header m r) = content m"
  using assms by (simp_all add: pack_req_header_eq pack_reply_header_eq content_def written_def m_wf_def
      drop_take drop_memcpy_at enc_req_header_def enc_reply_header_def RPC_HEADER_SZ_24)

lemma unpack_starts_ind:
  assumes "u_wf u" "starts u (enc_uint x @ bs)"
  shows "u_unpack u = (x, advance 4 u)" "u_wf (advance 4 u)" "starts (advance 4 u) bs"
  using assms starts_wf [OF assms(1), of "enc_uint x"] unpack_starts [OF assms(1), of x]
  by (simp_all add: starts_append)

lemma unpack_req_header_starts:
  assumes "u_wf u" "RPC_HEADER_SZ \<le> u_sz u" "starts (u\<lparr> u_ind := 4 \<rparr>) (enc_req_header h)"
  shows "unpack_req_header u = (h, u\<lparr> u_ind := RPC_HEADER_SZ \<rparr>)"
proof -
  have w: "u_wf (u\<lparr> u_ind := 4 \<rparr>)" using assms(1,2) by (simp add: u_wf_def RPC_HEADER_SZ_24)
  note 1 = unpack_starts_ind [OF w assms(3) [unfolded enc_req_header_def]]
  note 2 = unpack_starts_ind [OF 1(2,3)]
  note 3 = unpack_starts_ind [OF 2(2,3)]
  note 4 = unpack_starts_ind [OF 3(2,3)]
  have 5: "u_unpack (advance 4 (advance 4 (advance 4 (advance 4 (u\<lparr> u_ind := 4 \<rparr>))))) =
      (rq_xid_rep h, advance 4 (advance 4 (advance 4 (advance 4 (advance 4 (u\<lparr> u_ind := 4 \<rparr>))))))"
    by (rule unpack_starts [OF 4(2,3)])
  show ?thesis
    unfolding unpack_req_header_def Let_def 1(1) prod.case 2(1) 3(1) 4(1) 5 by (simp add: advance_def)
qed

lemma unpack_reply_header_starts:
  assumes "u_wf u" "RPC_HEADER_SZ \<le> u_sz u" "starts (u\<lparr> u_ind := 4 \<rparr>) (enc_reply_header h)"
  shows "unpack_reply_header u = (h, u\<lparr> u_ind := RPC_HEADER_SZ \<rparr>)"
proof -
  have w: "u_wf (u\<lparr> u_ind := 4 \<rparr>)" using assms(1,2) by (simp add: u_wf_def RPC_HEADER_SZ_24)
  note 1 = unpack_starts_ind [OF w assms(3) [unfolded enc_reply_header_def]]
  have 2: "u_unpack (advance 4 (u\<lparr> u_ind := 4 \<rparr>)) = (rp_ret h, advance 4 (advance 4 (u\<lparr> u_ind := 4 \<rparr>)))"
    by (rule unpack_starts [OF 1(2,3)])
  show ?thesis
    unfolding unpack_reply_header_def Let_def 1(1) prod.case 2 by (simp add: advance_def)
qed

lemma starts_memcpy_at:
  assumes "i + length p \<le> n" "n \<le> length b"
  shows "starts \<lparr> u_buf = memcpy_at b i p, u_sz = n, u_ind = i, u_ok = ok \<rparr> p"
  using assms by (simp add: starts_def unread_def memcpy_at_def)

text \<open>The receiver's view of the first \<open>n\<close> bytes of a packed buffer.\<close>

lemma received_req:
  assumes "m_wf m" "RPC_HEADER_SZ \<le> n" "n \<le> m_ind m" "n < 2 ^ 31"
  shows "\<exists>u. unpack_req_header (unmarshall_of_buf (m_buf (pack_req_header m h)) n) = (h, u) \<and>
             u_wf u \<and> u_ok u \<and> u_ind u = RPC_HEADER_SZ \<and> unread u = take (n - RPC_HEADER_SZ) (content m)"
proof -
  let ?u = "unmarshall_of_buf (m_buf (pack_req_header m h)) n"
  have i: "RPC_HEADER_SZ \<le> m_ind m" using assms(2,3) by simp
  have l: "length (enc_req_header h) = 20" by (simp add: enc_req_header_def)
  have "starts (?u\<lparr> u_ind := 4 \<rparr>) (enc_req_header h)"
    using assms l starts_memcpy_at [of 4 "enc_req_header h" n "m_buf m" True]
    by (simp add: unmarshall_of_buf_def pack_req_header_eq m_wf_def RPC_HEADER_SZ_24)
  moreover have w: "u_wf ?u" using assms pack_header_wf(1) [OF assms(1) i, of h]
    by (simp add: u_wf_def unmarshall_of_buf_def m_wf_def pack_req_header_eq length_memcpy_at l RPC_HEADER_SZ_24)
  moreover have "unread (?u\<lparr> u_ind := RPC_HEADER_SZ \<rparr>) = take (n - RPC_HEADER_SZ) (content (pack_req_header m h))"
    using assms(2,3) pack_header_wf(3) [OF assms(1) i, of h]
    by (simp add: unread_def content_def written_def unmarshall_of_buf_def drop_take min_def)
  then have "unread (?u\<lparr> u_ind := RPC_HEADER_SZ \<rparr>) = take (n - RPC_HEADER_SZ) (content m)"
    by (simp only: content_pack_header(1) [OF assms(1) i])
  ultimately show ?thesis
    using unpack_req_header_starts [of ?u h] assms(2)
    by (auto simp: u_wf_def unmarshall_of_buf_def)
qed

lemma received_reply:
  assumes "m_wf m" "RPC_HEADER_SZ \<le> m_ind m" "m_ind m < 2 ^ 31"
  shows "\<exists>u. unpack_reply_header (unmarshall_of_buf (m_buf (pack_reply_header m h)) (m_ind m)) = (h, u) \<and>
             u_wf u \<and> u_ok u \<and> u_ind u = RPC_HEADER_SZ \<and> unread u = content m"
proof -
  let ?u = "unmarshall_of_buf (m_buf (pack_reply_header m h)) (m_ind m)"
  have l: "length (enc_reply_header h) = 8" by (simp add: enc_reply_header_def)
  have "starts (?u\<lparr> u_ind := 4 \<rparr>) (enc_reply_header h)"
    using assms l starts_memcpy_at [of 4 "enc_reply_header h" "m_ind m" "m_buf m" True]
    by (simp add: unmarshall_of_buf_def pack_reply_header_eq m_wf_def RPC_HEADER_SZ_24)
  moreover have w: "u_wf ?u" using assms pack_header_wf(2) [OF assms(1,2), of h]
    by (simp add: u_wf_def unmarshall_of_buf_def m_wf_def pack_reply_header_eq length_memcpy_at l RPC_HEADER_SZ_24)
  moreover have "unread (?u\<lparr> u_ind := RPC_HEADER_SZ \<rparr>) = content m"
    using content_pack_header(2) [OF assms(1,2), of h] pack_header_wf(4) [OF assms(1,2), of h]
    by (simp add: unread_def content_def written_def unmarshall_of_buf_def)
  ultimately show ?thesis
    using unpack_reply_header_starts [of ?u h] assms(2)
    by (auto simp: u_wf_def unmarshall_of_buf_def)
qed

section \<open>Properties of the wire format\<close>

lemma new_message:
  assumes "codec put get enc valid" "RPC_HEADER_SZ + length (enc x) \<le> MSG_LIMIT"
  shows "m_wf (put (marshall_new junk) x)" "content (put (marshall_new junk) x) = enc x"
    and "m_ind (put (marshall_new junk) x) = RPC_HEADER_SZ + length (enc x)"
proof -
  note w = marshall_new_wf [of junk] and l = assms(2) [folded ind_new [of junk]]
  show "m_wf (put (marshall_new junk) x)" by (rule codec.put_wf [OF assms(1) w l])
  show "content (put (marshall_new junk) x) = enc x"
    using codec.put_content [OF assms(1) w _ l] by (simp add: content_new ind_new)
  show "m_ind (put (marshall_new junk) x) = RPC_HEADER_SZ + length (enc x)"
    using codec.put_ind [OF assms(1) w l] by (simp add: ind_new)
qed

subsection \<open>Requests with any arguments\<close>

text \<open>The argument types of a remote call, nested vectors included, and their values.  \<open>m_arg\<close> and \<open>u_arg\<close> are the
  operators that overload resolution selects.\<close>

datatype arg_ty = TBool | TUchar | TChar | TUshort | TShort | TUint | TInt | TUlonglong | TString | TVector arg_ty

datatype arg = ABool bool | AUchar byte | AChar byte | AUshort u16 | AShort u16 | AUint u32 | AInt u32
  | AUlonglong u64 | AString string | AVector "arg list"

fun m_arg :: "marshall \<Rightarrow> arg \<Rightarrow> marshall" where
  "m_arg m (ABool x) = m_bool m x"
| "m_arg m (AUchar x) = m_uchar m x"
| "m_arg m (AChar x) = m_char m x"
| "m_arg m (AUshort x) = m_ushort m x"
| "m_arg m (AShort x) = m_short m x"
| "m_arg m (AUint x) = m_uint m x"
| "m_arg m (AInt x) = m_int m x"
| "m_arg m (AUlonglong x) = m_ulonglong m x"
| "m_arg m (AString x) = m_string m x"
| "m_arg m (AVector v) = foldl m_arg (m_uint m (of_nat (length v))) v"

primrec u_arg :: "arg_ty \<Rightarrow> unmarshall \<Rightarrow> (arg \<times> unmarshall) option" where
  "u_arg TBool = (\<lambda>u. map_option (apfst ABool) (u_bool u))"
| "u_arg TUchar = (\<lambda>u. map_option (apfst AUchar) (u_uchar u))"
| "u_arg TChar = (\<lambda>u. map_option (apfst AChar) (u_char u))"
| "u_arg TUshort = (\<lambda>u. map_option (apfst AUshort) (u_ushort u))"
| "u_arg TShort = (\<lambda>u. map_option (apfst AShort) (u_short u))"
| "u_arg TUint = (\<lambda>u. map_option (apfst AUint) (u_uint u))"
| "u_arg TInt = (\<lambda>u. map_option (apfst AInt) (u_int u))"
| "u_arg TUlonglong = (\<lambda>u. map_option (apfst AUlonglong) (u_ulonglong u))"
| "u_arg TString = (\<lambda>u. map_option (apfst AString) (u_string u))"
| "u_arg (TVector t) = (\<lambda>u. map_option (apfst AVector) (u_vector (u_arg t) u))"

fun has_ty :: "arg \<Rightarrow> arg_ty \<Rightarrow> bool" where
  "has_ty (ABool x) t = (t = TBool)"
| "has_ty (AUchar x) t = (t = TUchar)"
| "has_ty (AChar x) t = (t = TChar)"
| "has_ty (AUshort x) t = (t = TUshort)"
| "has_ty (AShort x) t = (t = TShort)"
| "has_ty (AUint x) t = (t = TUint)"
| "has_ty (AInt x) t = (t = TInt)"
| "has_ty (AUlonglong x) t = (t = TUlonglong)"
| "has_ty (AString x) t = (t = TString)"
| "has_ty (AVector v) t = (\<exists>t'. t = TVector t' \<and> (\<forall>a \<in> set v. has_ty a t'))"

fun enc_arg :: "arg \<Rightarrow> byte list" where
  "enc_arg (ABool x) = enc_bool x"
| "enc_arg (AUchar x) = [x]"
| "enc_arg (AChar x) = [x]"
| "enc_arg (AUshort x) = enc_ushort x"
| "enc_arg (AShort x) = enc_ushort x"
| "enc_arg (AUint x) = enc_uint x"
| "enc_arg (AInt x) = enc_uint x"
| "enc_arg (AUlonglong x) = enc_ulonglong x"
| "enc_arg (AString x) = enc_string x"
| "enc_arg (AVector v) = enc_uint (of_nat (length v)) @ concat (map enc_arg v)"

primrec u_args :: "arg_ty list \<Rightarrow> unmarshall \<Rightarrow> (arg list \<times> unmarshall) option" where
  "u_args [] u = Some ([], u)"
| "u_args (t # ts) u = do { (a, u) \<leftarrow> u_arg t u; (as, u) \<leftarrow> u_args ts u; Some (a # as, u) }"

lemma enc_arg_nonempty: "enc_arg a \<noteq> []"
  by (cases a) (simp_all add: enc_bool_def enc_ushort_def uint.enc_nonempty ulonglong.enc_nonempty str.enc_nonempty)

lemma m_arg_written:
  "m_wf m \<Longrightarrow> m_ind m + length (enc_arg a) \<le> MSG_LIMIT \<Longrightarrow>
   m_wf (m_arg m a) \<and> written (m_arg m a) = written m @ enc_arg a"
proof (induction a arbitrary: m)
  case (AVector v)
  have fold: "m_wf n \<Longrightarrow> m_ind n + length (concat (map enc_arg w)) \<le> MSG_LIMIT \<Longrightarrow> set w \<subseteq> set v \<Longrightarrow>
      m_wf (foldl m_arg n w) \<and> written (foldl m_arg n w) = written n @ concat (map enc_arg w)" for w n
  proof (induction w arbitrary: n)
    case (Cons a w)
    have a: "m_wf (m_arg n a)" "written (m_arg n a) = written n @ enc_arg a"
      using AVector.IH [of a n] Cons.prems by auto
    then have "m_ind (m_arg n a) = m_ind n + length (enc_arg a)"
      using m_ind_written [of n] m_ind_written [of "m_arg n a"] Cons.prems(1) by simp
    then show ?case using Cons.IH [of "m_arg n a"] Cons.prems a by simp
  qed simp
  show ?case
    using fold [of "m_uint m (of_nat (length v))" v] AVector.prems by (simp add: wire del: length_concat)
qed (simp_all add: bool.put_wf bool.put_written uchar.put_wf uchar.put_written char.put_wf char.put_written
    ushort.put_wf ushort.put_written short.put_wf short.put_written uint.put_wf uint.put_written cint.put_wf cint.put_written
    ulonglong.put_wf ulonglong.put_written str.put_wf str.put_written)

text \<open>A type whose values are those of a codec behind a constructor.\<close>

lemma codec_ty:
  assumes "codec put get enc valid" "\<And>u. u_arg t u = map_option (apfst K) (get u)"
    and "\<And>x. enc_arg (K x) = enc x" "\<And>a. has_ty a t \<Longrightarrow> \<exists>x. a = K x \<and> valid x"
  shows "codec m_arg (u_arg t) enc_arg (\<lambda>a. has_ty a t)"
proof (unfold_locales, goal_cases)
  case (4 u a)
  then show ?case using assms(4) [OF 4(3)] codec.get_starts [OF assms(1), of u] by (auto simp: assms(2,3))
next
  case (5 u a q)
  then show ?case using assms(4) [OF 5(3)] codec.get_short [OF assms(1), of u _ q] by (fastforce simp: assms(2,3))
next
  case (6 u)
  then show ?case using codec.get_bad [OF assms(1), of u] by (auto simp: assms(2))
qed (simp_all add: m_arg_written enc_arg_nonempty)

lemma codec_arg: "codec m_arg (u_arg t) enc_arg (\<lambda>a. has_ty a t)"
proof (induction t)
  case TBool show ?case by (rule codec_ty [OF bool.codec_axioms, where K = ABool]) (auto elim: has_ty.elims)
next
  case TUchar show ?case by (rule codec_ty [OF uchar.codec_axioms, where K = AUchar]) (auto elim: has_ty.elims)
next
  case TChar show ?case by (rule codec_ty [OF char.codec_axioms, where K = AChar]) (auto elim: has_ty.elims)
next
  case TUshort show ?case by (rule codec_ty [OF ushort.codec_axioms, where K = AUshort]) (auto elim: has_ty.elims)
next
  case TShort show ?case by (rule codec_ty [OF short.codec_axioms, where K = AShort]) (auto elim: has_ty.elims)
next
  case TUint show ?case by (rule codec_ty [OF uint.codec_axioms, where K = AUint]) (auto elim: has_ty.elims)
next
  case TInt show ?case by (rule codec_ty [OF cint.codec_axioms, where K = AInt]) (auto elim: has_ty.elims)
next
  case TUlonglong show ?case by (rule codec_ty [OF ulonglong.codec_axioms, where K = AUlonglong]) (auto elim: has_ty.elims)
next
  case TString show ?case by (rule codec_ty [OF str.codec_axioms, where K = AString]) (auto elim: has_ty.elims)
next
  case (TVector t)
  show ?case
    by (rule codec_ty [OF codec.codec_vector [OF TVector], where K = AVector])
      (auto elim!: has_ty.elims simp: enc_vector_def list_all_iff)
qed

lemma foldl_m_arg:
  "m_wf m \<Longrightarrow> m_ind m + length (concat (map enc_arg as)) \<le> MSG_LIMIT \<Longrightarrow>
   m_wf (foldl m_arg m as) \<and> written (foldl m_arg m as) = written m @ concat (map enc_arg as)"
  by (rule codec.foldl_put [OF codec_arg])

lemma u_args_read:
  "list_all2 has_ty as ts \<Longrightarrow> u_wf u \<Longrightarrow> u_ok u \<Longrightarrow> unread u = concat (map enc_arg as) \<Longrightarrow>
   \<exists>u'. u_args ts u = Some (as, u') \<and> u_okdone u'"
proof (induction arbitrary: u rule: list_all2_induct)
  case Nil
  then show ?case using length_unread [of u] by (simp add: u_okdone_def u_wf_def)
next
  case (Cons a as t ts)
  have "unread u = enc_arg a @ concat (map enc_arg as)" using Cons.prems(3) by simp
  from codec.read_back [OF codec_arg Cons.prems(1,2) Cons.hyps(1) this] obtain u1 where
    "u_arg t u = Some (a, u1)" "u_wf u1" "u_ok u1" "unread u1 = concat (map enc_arg as)" by blast
  with Cons.IH [of u1] show ?case by auto
qed

text \<open>
  C7: A request built the way the RPC client builds it (marshal the arguments, any number of them and of any
  of the base types, strings and nested vectors, into a fresh buffer, which grows as needed, then pack the
  request header into the reserved space) is read back by the server exactly: the header fields, then
  the arguments, and the argument check \<open>okdone\<close> succeeds.  The message, its header included, has at most \<open>2 ^ 30\<close>
  bytes, so that the capacity, an \<open>int\<close> that is doubled, does not overflow.
\<close>

theorem request_roundtrip:
  assumes "list_all2 has_ty as ts" "RPC_HEADER_SZ + length (concat (map enc_arg as)) \<le> 2 ^ 30"
    and "m = foldl m_arg (marshall_new junk) as"
  shows "\<exists>u u'. unpack_req_header (unmarshall_of_buf (m_buf (pack_req_header m h)) (m_ind m)) = (h, u) \<and>
    u_args ts u = Some (as, u') \<and> u_okdone u'"
proof -
  have l: "m_ind (marshall_new junk) + length (concat (map enc_arg as)) \<le> MSG_LIMIT"
    using assms(2) by (simp add: ind_new limits del: length_concat)
  note w = foldl_m_arg [OF marshall_new_wf l, folded assms(3)]
  have i: "m_ind m = RPC_HEADER_SZ + length (concat (map enc_arg as))"
    using w m_ind_written [of m] m_ind_written [OF marshall_new_wf, of junk] by (simp add: ind_new del: length_concat)
  have c: "content m = concat (map enc_arg as)"
    using w m_ind_written [OF marshall_new_wf, of junk] by (simp add: content_def ind_new)
  have "RPC_HEADER_SZ \<le> m_ind m" "m_ind m < 2 ^ 31" using i assms(2) by (simp_all del: length_concat)
  from received_req [OF _ this(1) order.refl this(2), of h] w obtain u where
    u: "unpack_req_header (unmarshall_of_buf (m_buf (pack_req_header m h)) (m_ind m)) = (h, u)"
      "u_wf u" "u_ok u" "unread u = concat (map enc_arg as)" by (auto simp: c i)
  from u_args_read [OF assms(1) u(2-4)] u(1) show ?thesis by blast
qed

theorem request_roundtrip_witness:
  "\<exists>u u'. unpack_req_header (unmarshall_of_buf (m_buf (pack_req_header
        (foldl m_arg (marshall_new (\<lambda>_. 7)) [AUlonglong 5, AVector [AString ''ab'', AString ''''], ABool True]) \<lparr> rq_xid = 5,
        rq_proc = 3, rq_clt_nonce = 17, rq_srv_nonce = 23, rq_xid_rep = 4 \<rparr>)) 47) =
      (\<lparr> rq_xid = 5, rq_proc = 3, rq_clt_nonce = 17, rq_srv_nonce = 23, rq_xid_rep = 4 \<rparr>, u) \<and>
      u_args [TUlonglong, TVector TString, TBool] u = Some ([AUlonglong 5, AVector [AString ''ab'', AString ''''], ABool True], u') \<and>
      u_okdone u'"
proof -
  let ?as = "[AUlonglong 5, AVector [AString ''ab'', AString ''''], ABool True]"
  let ?m = "foldl m_arg (marshall_new (\<lambda>_. 7)) ?as"
  have l: "length (concat (map enc_arg ?as)) = 23"
    by (simp add: enc_ulonglong_def enc_string_def enc_bool_def)
  have "m_ind ?m = 47"
    using foldl_m_arg [OF marshall_new_wf, of "\<lambda>_. 7" ?as] m_ind_written [of ?m] m_ind_written [OF marshall_new_wf, of "\<lambda>_. 7"] l
    by (simp add: ind_new RPC_HEADER_SZ_24 limits del: length_concat foldl_Cons map_map list.map)
  then show ?thesis
    using request_roundtrip [of ?as "[TUlonglong, TVector TString, TBool]" ?m "\<lambda>_. 7"] l
    by (simp add: RPC_HEADER_SZ_24 del: length_concat foldl_Cons)
qed

text \<open>
  A request that is cut off anywhere inside its argument is never accepted: the reader stays
  inside the buffer, the \<open>ok\<close> flag is cleared and \<open>okdone\<close> fails, so the server answers with an
  unmarshalling error and never calls the handler.
\<close>

theorem truncated_request_rejected:
  assumes "m = m_vector m_string (marshall_new junk) v" "RPC_HEADER_SZ + length (enc_vector enc_string v) \<le> MSG_LIMIT"
    and "RPC_HEADER_SZ \<le> n" "n < m_ind m"
    and "unpack_req_header (unmarshall_of_buf (m_buf (pack_req_header m h)) n) = (h', u)"
  shows "h' = h \<and> (\<exists>w u'. u_vector u_string u = Some (w, u') \<and> \<not> u_ok u' \<and> \<not> u_okdone u')"
proof -
  note nm = new_message [OF strings.codec_axioms assms(2), of junk, folded assms(1)]
  have i: "n \<le> m_ind m" "n < 2 ^ 31" and len: "length (enc_vector enc_string v) < 2 ^ 31"
    "n - RPC_HEADER_SZ < length (enc_vector enc_string v)"
    using assms(2-4) by (auto simp: nm(3) limits)
  have "h' = h" "u_wf u" "u_ok u" "unread u = take (n - RPC_HEADER_SZ) (enc_vector enc_string v)"
    using received_req [OF nm(1) assms(3) i, of h] assms(5) by (auto simp: nm(2))
  then show ?thesis using strings.short_detected [OF _ _ _ len] by (auto simp: list_all_iff)
qed

theorem truncated_request_rejected_witness:
  "\<exists>u. unpack_req_header (unmarshall_of_buf (m_buf (pack_req_header
        (m_vector m_string (marshall_new (\<lambda>_. 7)) [''ab'']) \<lparr> rq_xid = 5, rq_proc = 3,
        rq_clt_nonce = 17, rq_srv_nonce = 23, rq_xid_rep = 4 \<rparr>)) 33) =
      (\<lparr> rq_xid = 5, rq_proc = 3, rq_clt_nonce = 17, rq_srv_nonce = 23, rq_xid_rep = 4 \<rparr>, u) \<and>
      (\<exists>w u'. u_vector u_string u = Some (w, u') \<and> \<not> u_ok u' \<and> \<not> u_okdone u')"
proof -
  let ?m = "m_vector m_string (marshall_new (\<lambda>_. 7)) [''ab'']"
  let ?h = "\<lparr> rq_xid = 5, rq_proc = 3, rq_clt_nonce = 17, rq_srv_nonce = 23, rq_xid_rep = 4 \<rparr>"
  have l: "RPC_HEADER_SZ + length (enc_vector enc_string [''ab'']) \<le> MSG_LIMIT"
    by (simp add: enc_vector_def enc_string_def RPC_HEADER_SZ_24 limits)
  have i: "m_ind ?m = 34" using new_message(3) [OF strings.codec_axioms l]
    by (simp add: enc_vector_def enc_string_def RPC_HEADER_SZ_24)
  obtain h' u where "unpack_req_header (unmarshall_of_buf (m_buf (pack_req_header ?m ?h)) 33) = (h', u)"
    by fastforce
  with truncated_request_rejected [OF refl l _ _ this] show ?thesis
    by (auto simp: i RPC_HEADER_SZ_24)
qed

text \<open>
  The bounds check of \<open>unmarshall::rawbytes\<close> adds the read position and the announced length at
  32 bits.  Every announced string length for which that sum wraps around passes the check, and the
  string is then built from memory outside the buffer.
\<close>

theorem string_length_wraps:
  assumes "u_wf u" "u_ok u" "starts u (enc_uint n)" "2 ^ 32 \<le> u_ind u + 4 + unat n"
    and "length (u_buf u) < 2 ^ 32"
  shows "u_string u = None"
proof -
  have l: "u_ind u + 4 \<le> u_sz u" "u_sz u < 2 ^ 31"
    using starts_length [OF assms(1,3)] assms(1) by (simp_all add: u_wf_def)
  have "unat n < 2 ^ 32" using unsigned_less [of n, where ?'a = nat] by simp
  then have "unat ((of_nat (u_ind u + 4) :: u32) + n) = u_ind u + 4 + unat n - 2 ^ 32"
    using l assms(4) by (simp add: unat_word_ariths unat_of_nat mod_if del: of_nat_add)
  then have "\<not> (of_nat (u_ind u + 4) :: u32) + n > of_nat (u_sz u)"
    using l \<open>unat n < 2 ^ 32\<close> by (simp add: word_less_nat_alt unat_of_nat del: of_nat_add)
  then show ?thesis
    using unpack_starts [OF assms(1,3)] assms(2,4,5)
    by (simp add: u_string_def u_uint_unpack u_rawbytes_def)
qed

theorem string_length_wraps_witness:
  "u_string \<lparr> u_buf = replicate 24 0 @ [255, 255, 255, 255], u_sz = 28, u_ind = 24, u_ok = True \<rparr> = None"
  by (rule string_length_wraps [where n = "4294967295"])
    (simp_all add: u_wf_def starts_def unread_def enc_uint_def)

end
