(* ===== verification/Rpc_Call.thy ===== *)
theory Rpc_Call
  imports Marshal
begin

text \<open>
  The typed layer of the RPC library (templates of \<open>rpc/rpc.h\<close>): \<open>rpcc::call\<close> with zero to seven
  arguments marshals them into a fresh buffer, \<open>rpcc::call_m\<close> unmarshals the reply, and the handler
  objects that \<open>rpcs::reg\<close> creates unmarshal one to seven arguments, check that the whole request was
  consumed, call the method and marshal its result.

  A template parameter is a pair of a writer and a reader.  A method is a function from the server
  object's state \<open>'s\<close> and the arguments to the \<open>int\<close> result, the reference parameter \<open>r\<close> and the new
  state.
\<close>

section \<open>Constants\<close>

definition rpc_bind :: u32 where "rpc_bind = 1"
definition timeout_failure :: u32 where "timeout_failure = - 1"
definition unmarshal_args_failure :: u32 where "unmarshal_args_failure = - 2"
definition unmarshal_reply_failure :: u32 where "unmarshal_reply_failure = - 3"
definition atmostonce_failure :: u32 where "atmostonce_failure = - 4"
definition oldsrv_failure :: u32 where "oldsrv_failure = - 5"
definition bind_failure :: u32 where "bind_failure = - 6"
definition cancel_failure :: u32 where "cancel_failure = - 7"

lemmas rpc_const_defs = rpc_bind_def timeout_failure_def unmarshal_args_failure_def
  unmarshal_reply_failure_def atmostonce_failure_def oldsrv_failure_def bind_failure_def
  cancel_failure_def

section \<open>The arguments of a call\<close>

type_synonym 'a writer = "marshall \<Rightarrow> 'a \<Rightarrow> marshall"
type_synonym 'a reader = "unmarshall \<Rightarrow> ('a \<times> unmarshall) option"

definition call_req0 :: "(nat \<Rightarrow> byte) \<Rightarrow> marshall" where
  "call_req0 junk = marshall_new junk"

definition call_req1 :: "'a writer \<Rightarrow> (nat \<Rightarrow> byte) \<Rightarrow> 'a \<Rightarrow> marshall" where
  "call_req1 p1 junk a1 = p1 (marshall_new junk) a1"

definition call_req2 :: "'a writer \<Rightarrow> 'b writer \<Rightarrow> (nat \<Rightarrow> byte) \<Rightarrow> 'a \<Rightarrow> 'b \<Rightarrow> marshall" where
  "call_req2 p1 p2 junk a1 a2 = (let m = marshall_new junk; m = p1 m a1 in p2 m a2)"

definition call_req3 ::
  "'a writer \<Rightarrow> 'b writer \<Rightarrow> 'c writer \<Rightarrow> (nat \<Rightarrow> byte) \<Rightarrow> 'a \<Rightarrow> 'b \<Rightarrow> 'c \<Rightarrow> marshall" where
  "call_req3 p1 p2 p3 junk a1 a2 a3 =
     (let m = marshall_new junk; m = p1 m a1; m = p2 m a2 in p3 m a3)"

definition call_req4 ::
  "'a writer \<Rightarrow> 'b writer \<Rightarrow> 'c writer \<Rightarrow> 'd writer \<Rightarrow> (nat \<Rightarrow> byte) \<Rightarrow> 'a \<Rightarrow> 'b \<Rightarrow> 'c \<Rightarrow> 'd \<Rightarrow> marshall" where
  "call_req4 p1 p2 p3 p4 junk a1 a2 a3 a4 =
     (let m = marshall_new junk; m = p1 m a1; m = p2 m a2; m = p3 m a3 in p4 m a4)"

definition call_req5 ::
  "'a writer \<Rightarrow> 'b writer \<Rightarrow> 'c writer \<Rightarrow> 'd writer \<Rightarrow> 'e writer \<Rightarrow> (nat \<Rightarrow> byte) \<Rightarrow>
   'a \<Rightarrow> 'b \<Rightarrow> 'c \<Rightarrow> 'd \<Rightarrow> 'e \<Rightarrow> marshall" where
  "call_req5 p1 p2 p3 p4 p5 junk a1 a2 a3 a4 a5 =
     (let m = marshall_new junk; m = p1 m a1; m = p2 m a2; m = p3 m a3; m = p4 m a4 in p5 m a5)"

definition call_req6 ::
  "'a writer \<Rightarrow> 'b writer \<Rightarrow> 'c writer \<Rightarrow> 'd writer \<Rightarrow> 'e writer \<Rightarrow> 'f writer \<Rightarrow> (nat \<Rightarrow> byte) \<Rightarrow>
   'a \<Rightarrow> 'b \<Rightarrow> 'c \<Rightarrow> 'd \<Rightarrow> 'e \<Rightarrow> 'f \<Rightarrow> marshall" where
  "call_req6 p1 p2 p3 p4 p5 p6 junk a1 a2 a3 a4 a5 a6 =
     (let m = marshall_new junk; m = p1 m a1; m = p2 m a2; m = p3 m a3; m = p4 m a4; m = p5 m a5
      in p6 m a6)"

definition call_req7 ::
  "'a writer \<Rightarrow> 'b writer \<Rightarrow> 'c writer \<Rightarrow> 'd writer \<Rightarrow> 'e writer \<Rightarrow> 'f writer \<Rightarrow> 'g writer \<Rightarrow>
   (nat \<Rightarrow> byte) \<Rightarrow> 'a \<Rightarrow> 'b \<Rightarrow> 'c \<Rightarrow> 'd \<Rightarrow> 'e \<Rightarrow> 'f \<Rightarrow> 'g \<Rightarrow> marshall" where
  "call_req7 p1 p2 p3 p4 p5 p6 p7 junk a1 a2 a3 a4 a5 a6 a7 =
     (let m = marshall_new junk; m = p1 m a1; m = p2 m a2; m = p3 m a3; m = p4 m a4; m = p5 m a5;
          m = p6 m a6
      in p7 m a7)"

section \<open>The reply of a call\<close>

text \<open>\<open>call_m\<close> after \<open>call1\<close> returned \<open>intret\<close> with the reply \<open>u\<close>: a negative result is passed on, a
  reply that does not unmarshal completely fails a \<open>VERIFY\<close> (\<open>None\<close>).\<close>

definition call_m :: "'r reader \<Rightarrow> u32 \<Rightarrow> unmarshall \<Rightarrow> (u32 \<times> 'r option) option" where
  "call_m getr intret u =
     (if sint intret < 0 then Some (intret, None)
      else do {
        (r, u) \<leftarrow> getr u;
        if u_okdone u \<noteq> True then None
        else Some (intret, Some r) })"

section \<open>The handler objects\<close>

type_synonym 's handler = "'s \<Rightarrow> unmarshall \<Rightarrow> marshall \<Rightarrow> ((u32 \<times> marshall) \<times> 's) option"

definition h_fn1 :: "'a reader \<Rightarrow> 'r writer \<Rightarrow> ('s \<Rightarrow> 'a \<Rightarrow> u32 \<times> 'r \<times> 's) \<Rightarrow> 's handler" where
  "h_fn1 g1 pr meth sob args ret = do {
     (a1, args) \<leftarrow> g1 args;
     if \<not> u_okdone args then Some ((unmarshal_args_failure, ret), sob)
     else let (b, r, sob) = meth sob a1 in Some ((b, pr ret r), sob) }"

definition h_fn2 ::
  "'a reader \<Rightarrow> 'b reader \<Rightarrow> 'r writer \<Rightarrow> ('s \<Rightarrow> 'a \<Rightarrow> 'b \<Rightarrow> u32 \<times> 'r \<times> 's) \<Rightarrow> 's handler" where
  "h_fn2 g1 g2 pr meth sob args ret = do {
     (a1, args) \<leftarrow> g1 args;
     (a2, args) \<leftarrow> g2 args;
     if \<not> u_okdone args then Some ((unmarshal_args_failure, ret), sob)
     else let (b, r, sob) = meth sob a1 a2 in Some ((b, pr ret r), sob) }"

definition h_fn3 ::
  "'a reader \<Rightarrow> 'b reader \<Rightarrow> 'c reader \<Rightarrow> 'r writer \<Rightarrow>
   ('s \<Rightarrow> 'a \<Rightarrow> 'b \<Rightarrow> 'c \<Rightarrow> u32 \<times> 'r \<times> 's) \<Rightarrow> 's handler" where
  "h_fn3 g1 g2 g3 pr meth sob args ret = do {
     (a1, args) \<leftarrow> g1 args;
     (a2, args) \<leftarrow> g2 args;
     (a3, args) \<leftarrow> g3 args;
     if \<not> u_okdone args then Some ((unmarshal_args_failure, ret), sob)
     else let (b, r, sob) = meth sob a1 a2 a3 in Some ((b, pr ret r), sob) }"

definition h_fn4 ::
  "'a reader \<Rightarrow> 'b reader \<Rightarrow> 'c reader \<Rightarrow> 'd reader \<Rightarrow> 'r writer \<Rightarrow>
   ('s \<Rightarrow> 'a \<Rightarrow> 'b \<Rightarrow> 'c \<Rightarrow> 'd \<Rightarrow> u32 \<times> 'r \<times> 's) \<Rightarrow> 's handler" where
  "h_fn4 g1 g2 g3 g4 pr meth sob args ret = do {
     (a1, args) \<leftarrow> g1 args;
     (a2, args) \<leftarrow> g2 args;
     (a3, args) \<leftarrow> g3 args;
     (a4, args) \<leftarrow> g4 args;
     if \<not> u_okdone args then Some ((unmarshal_args_failure, ret), sob)
     else let (b, r, sob) = meth sob a1 a2 a3 a4 in Some ((b, pr ret r), sob) }"

definition h_fn5 ::
  "'a reader \<Rightarrow> 'b reader \<Rightarrow> 'c reader \<Rightarrow> 'd reader \<Rightarrow> 'e reader \<Rightarrow> 'r writer \<Rightarrow>
   ('s \<Rightarrow> 'a \<Rightarrow> 'b \<Rightarrow> 'c \<Rightarrow> 'd \<Rightarrow> 'e \<Rightarrow> u32 \<times> 'r \<times> 's) \<Rightarrow> 's handler" where
  "h_fn5 g1 g2 g3 g4 g5 pr meth sob args ret = do {
     (a1, args) \<leftarrow> g1 args;
     (a2, args) \<leftarrow> g2 args;
     (a3, args) \<leftarrow> g3 args;
     (a4, args) \<leftarrow> g4 args;
     (a5, args) \<leftarrow> g5 args;
     if \<not> u_okdone args then Some ((unmarshal_args_failure, ret), sob)
     else let (b, r, sob) = meth sob a1 a2 a3 a4 a5 in Some ((b, pr ret r), sob) }"

definition h_fn6 ::
  "'a reader \<Rightarrow> 'b reader \<Rightarrow> 'c reader \<Rightarrow> 'd reader \<Rightarrow> 'e reader \<Rightarrow> 'f reader \<Rightarrow> 'r writer \<Rightarrow>
   ('s \<Rightarrow> 'a \<Rightarrow> 'b \<Rightarrow> 'c \<Rightarrow> 'd \<Rightarrow> 'e \<Rightarrow> 'f \<Rightarrow> u32 \<times> 'r \<times> 's) \<Rightarrow> 's handler" where
  "h_fn6 g1 g2 g3 g4 g5 g6 pr meth sob args ret = do {
     (a1, args) \<leftarrow> g1 args;
     (a2, args) \<leftarrow> g2 args;
     (a3, args) \<leftarrow> g3 args;
     (a4, args) \<leftarrow> g4 args;
     (a5, args) \<leftarrow> g5 args;
     (a6, args) \<leftarrow> g6 args;
     if \<not> u_okdone args then Some ((unmarshal_args_failure, ret), sob)
     else let (b, r, sob) = meth sob a1 a2 a3 a4 a5 a6 in Some ((b, pr ret r), sob) }"

definition h_fn7 ::
  "'a reader \<Rightarrow> 'b reader \<Rightarrow> 'c reader \<Rightarrow> 'd reader \<Rightarrow> 'e reader \<Rightarrow> 'f reader \<Rightarrow> 'g reader \<Rightarrow>
   'r writer \<Rightarrow> ('s \<Rightarrow> 'a \<Rightarrow> 'b \<Rightarrow> 'c \<Rightarrow> 'd \<Rightarrow> 'e \<Rightarrow> 'f \<Rightarrow> 'g \<Rightarrow> u32 \<times> 'r \<times> 's) \<Rightarrow> 's handler" where
  "h_fn7 g1 g2 g3 g4 g5 g6 g7 pr meth sob args ret = do {
     (a1, args) \<leftarrow> g1 args;
     (a2, args) \<leftarrow> g2 args;
     (a3, args) \<leftarrow> g3 args;
     (a4, args) \<leftarrow> g4 args;
     (a5, args) \<leftarrow> g5 args;
     (a6, args) \<leftarrow> g6 args;
     (a7, args) \<leftarrow> g7 args;
     if \<not> u_okdone args then Some ((unmarshal_args_failure, ret), sob)
     else let (b, r, sob) = meth sob a1 a2 a3 a4 a5 a6 a7 in Some ((b, pr ret r), sob) }"

section \<open>Caller and handler agree\<close>

text \<open>The arguments of a call as one tuple: the wire type of the whole argument list.\<close>

lemma h_fn1_done:
  assumes "codec p1 g1 e1 v1" "v1 a1" "u_wf u" "u_ok u" "unread u = e1 a1"
    and "meth s a1 = (b, r, s')"
  shows "h_fn1 g1 pr meth s u ret = Some ((b, pr ret r), s')"
  using codec.read_back [OF assms(1,3,4,2), of "[]"] assms(5,6) by (auto simp: h_fn1_def)

lemma h_fn2_pair:
  "h_fn2 g1 g2 pr meth = h_fn1 (u_pair g1 g2) pr (\<lambda>s (a1, a2). meth s a1 a2)"
  by (auto simp: fun_eq_iff h_fn1_def h_fn2_def u_pair_def split: bind_splits)

lemma h_fn3_pair:
  "h_fn3 g1 g2 g3 pr meth = h_fn1 (u_pair g1 (u_pair g2 g3)) pr (\<lambda>s (a1, a2, a3). meth s a1 a2 a3)"
  by (auto simp: fun_eq_iff h_fn1_def h_fn3_def u_pair_def split: bind_splits)

lemma call_req2_pair: "call_req2 p1 p2 junk a1 a2 = m_pair p1 p2 (marshall_new junk) (a1, a2)"
  by (simp add: call_req2_def m_pair_def)

lemma call_req3_pair:
  "call_req3 p1 p2 p3 junk a1 a2 a3 = m_pair p1 (m_pair p2 p3) (marshall_new junk) (a1, a2, a3)"
  by (simp add: call_req3_def m_pair_def)

lemma received_call:
  assumes "codec p g e v" "v a" "m = p (marshall_new junk) a" "RPC_HEADER_SZ + length (e a) \<le> MSG_LIMIT"
    and "meth s a = (b, r, s')"
  obtains u where
    "unpack_req_header (unmarshall_of_buf (m_buf (pack_req_header m h)) (m_ind m)) = (h, u)"
    "\<And>pr ret. h_fn1 g pr meth s u ret = Some ((b, pr ret r), s')"
proof -
  note n = new_message [OF assms(1,4), of junk, folded assms(3)]
  have i: "RPC_HEADER_SZ \<le> m_ind m" "m_ind m < 2 ^ 31" using assms(4) by (simp_all add: n(3) limits)
  obtain u where u: "unpack_req_header (unmarshall_of_buf (m_buf (pack_req_header m h)) (m_ind m)) = (h, u)"
      "u_wf u" "u_ok u" "unread u = e a"
    using received_req [OF n(1) i(1) order.refl i(2), of h] by (auto simp: n(2,3))
  show ?thesis by (rule that [OF u(1)]) (rule h_fn1_done [where meth = meth and s = s, OF assms(1,2) u(2-4) assms(5)])
qed

text \<open>
  A three-argument remote call reaches the method with the caller's arguments.  The request
  that \<open>call<R, A1, A2, A3>\<close> marshals for a 64-bit, a string and a 64-bit argument (the lock
  server's \<open>acquire\<close> and \<open>release\<close>), with the header that \<open>call1\<close> packs, is decoded by the handler
  object that \<open>reg\<close> creates into exactly those arguments; the method is called on them and its
  result is marshalled as the reply.
\<close>

theorem call3_reaches_method:
  assumes "m = call_req3 m_ulonglong m_string m_ulonglong junk lid owner xid" "length owner + 44 \<le> MSG_LIMIT"
    and "meth s lid owner xid = (b, r, s')"
  shows "\<exists>u. unpack_req_header (unmarshall_of_buf (m_buf (pack_req_header m h)) (m_ind m)) = (h, u) \<and>
           h_fn3 u_ulonglong u_string u_ulonglong m_int meth s u ret = Some ((b, m_int ret r), s')"
proof -
  note c = codec_pair [OF ulonglong.codec_axioms codec_pair [OF str.codec_axioms ulonglong.codec_axioms]]
  let ?meth = "\<lambda>s (a1, a2, a3). meth s a1 a2 a3"
  obtain u where u: "unpack_req_header (unmarshall_of_buf (m_buf (pack_req_header m h)) (m_ind m)) = (h, u)"
    and d: "h_fn1 (u_pair u_ulonglong (u_pair u_string u_ulonglong)) m_int ?meth s u ret =
        Some ((b, m_int ret r), s')"
    by (rule received_call [OF c _ assms(1) [unfolded call_req3_pair], of ?meth s b r s' h])
      (use assms(2) in \<open>simp_all add: assms(3) enc_pair_def enc_string_def enc_ulonglong_def RPC_HEADER_SZ_24\<close>)
  show ?thesis unfolding h_fn3_pair using u d by blast
qed

theorem call3_reaches_method_witness:
  "\<exists>m u. m = call_req3 m_ulonglong m_string m_ulonglong (\<lambda>_. 0) 7 ''c1'' 3 \<and>
     unpack_req_header (unmarshall_of_buf (m_buf (pack_req_header m
       \<lparr> rq_xid = 2, rq_proc = 0x7001, rq_clt_nonce = 5, rq_srv_nonce = 9, rq_xid_rep = 1 \<rparr>)) (m_ind m)) =
       (\<lparr> rq_xid = 2, rq_proc = 0x7001, rq_clt_nonce = 5, rq_srv_nonce = 9, rq_xid_rep = 1 \<rparr>, u) \<and>
     h_fn3 u_ulonglong u_string u_ulonglong m_int
       (\<lambda>s lid (owner :: string) (xid :: u64). (0, 1, lid # s)) [] u (marshall_new (\<lambda>_. 0)) =
       Some ((0, m_int (marshall_new (\<lambda>_. 0)) 1), [7])"
proof -
  let ?m = "call_req3 m_ulonglong m_string m_ulonglong (\<lambda>_. 0) 7 ''c1'' 3"
  have "length ''c1'' + 44 \<le> MSG_LIMIT" by (simp add: limits)
  from call3_reaches_method [OF refl this, where meth = "\<lambda>s lid (owner :: string) (xid :: u64). (0, 1, lid # s)" and s = "[]"
      and lid = 7 and xid = 3 and junk = "\<lambda>_. 0" and ret = "marshall_new (\<lambda>_. 0)"]
  show ?thesis by auto
qed

end
