(* ===== verification/Rpc_Server.thy ===== *)
theory Rpc_Server
  imports Rpc_Call
begin

text \<open>
  The server endpoint \<open>rpcs\<close> of \<open>rpc/rpc.cc\<close>: the table of procedures, the window of replies per
  client that gives at-most-once execution, and \<open>dispatch\<close>, which a pool of threads runs
  concurrently.  \<open>dispatch\<close> is modelled in two parts, before and after the call of the handler,
  because requests interleave there; \<open>srv_step\<close> is the resulting transition relation, with packets
  arriving in any order and number.  An assertion or \<open>VERIFY\<close> that fails is \<open>None\<close> or \<open>D_abort\<close>.

  A connection is an identifier; \<open>older c d\<close> stands for \<open>c->compare(d) < 0\<close> and \<open>dead c\<close> for
  \<open>c->isdead()\<close>.
\<close>

section \<open>State\<close>

datatype rpcstate_t = NEW | INPROGRESS | DONE | FORGOTTEN

record reply_t =
  rt_xid :: u32
  rt_cb_present :: bool
  rt_buf :: "byte list"
  rt_sz :: nat

definition reply_t_new :: "u32 \<Rightarrow> reply_t" where
  "reply_t_new xid = \<lparr> rt_xid = xid, rt_cb_present = False, rt_buf = [], rt_sz = 0 \<rparr>"

record 'h rpcs =
  nonce :: u32
  reply_window :: "(u32, reply_t list) omap"
  max_xid_rep_sofar :: "(u32, u32) omap"
  conns :: "(u32, nat) omap"
  counting :: int
  curr_counts :: int
  counts :: "(u32, int) omap"
  reachable :: bool
  procs :: "(u32, 'h) omap"

section \<open>Operations\<close>

text \<open>The constructor registers \<open>rpcbind\<close>; \<open>nonce_\<close> is a random number.\<close>

definition reg1 :: "'h rpcs \<Rightarrow> u32 \<Rightarrow> 'h \<Rightarrow> 'h rpcs option" where
  "reg1 s proc h =
     (if omap_find (procs s) proc \<noteq> None then None
      else Some (s\<lparr> procs := omap_set proc h (procs s) \<rparr>))"

definition rpcs_new :: "u32 \<Rightarrow> int \<Rightarrow> 'h \<Rightarrow> 'h rpcs option" where
  "rpcs_new rnd count bindh =
     reg1 \<lparr> nonce = rnd, reply_window = [], max_xid_rep_sofar = [], conns = [], counting = count,
            curr_counts = count, counts = [], reachable = True, procs = [] \<rparr> rpc_bind bindh"

definition rpcbind :: "'h rpcs \<Rightarrow> u32 \<Rightarrow> u32 \<times> u32" where
  "rpcbind s a = (0, nonce s)"

text \<open>The statistics that are printed when the counter reaches zero are left out; the counters are
  not.\<close>

definition updatestat :: "'h rpcs \<Rightarrow> u32 \<Rightarrow> 'h rpcs" where
  "updatestat s proc =
     (let s = s\<lparr> counts := omap_set proc (omap_get 0 (counts s) proc + 1) (counts s),
                 curr_counts := curr_counts s - 1 \<rparr>
      in if curr_counts s = 0 then s\<lparr> curr_counts := counting s \<rparr> else s)"

definition checkduplicate_and_update ::
  "'h rpcs \<Rightarrow> u32 \<Rightarrow> u32 \<Rightarrow> u32 \<Rightarrow> (rpcstate_t \<times> (byte list \<times> nat) \<times> 'h rpcs) option" where
  "checkduplicate_and_update s clt_nonce xid xid_rep =
     (case omap_find (reply_window s) clt_nonce of
        None \<Rightarrow> None
      | Some win \<Rightarrow>
          if \<not> xid > xid_rep then None
          else
            let mx = omap_touch 0 clt_nonce (max_xid_rep_sofar s);
                mx = (if xid_rep > omap_get 0 mx clt_nonce then omap_set clt_nonce xid_rep mx else mx);
                s = s\<lparr> max_xid_rep_sofar := mx \<rparr>
            in if xid \<le> omap_get 0 mx clt_nonce then Some (FORGOTTEN, ([], 0), s)
               else
                 let win = filter (\<lambda>it. \<not> rt_xid it \<le> xid_rep) win;
                     s = s\<lparr> reply_window := omap_set clt_nonce win (reply_window s) \<rparr>
                 in case find (\<lambda>it. rt_xid it = xid) win of
                      Some it \<Rightarrow>
                        if rt_cb_present it then Some (DONE, (rt_buf it, rt_sz it), s)
                        else Some (INPROGRESS, ([], 0), s)
                    | None \<Rightarrow>
                        Some (NEW, ([], 0),
                          s\<lparr> reply_window := omap_set clt_nonce (win @ [reply_t_new xid]) (reply_window s) \<rparr>))"

text \<open>The final assertion reads \<open>it\<close>, which is the end iterator when no entry has the \<open>xid\<close>.\<close>

fun fill_reply :: "u32 \<Rightarrow> byte list \<Rightarrow> nat \<Rightarrow> reply_t list \<Rightarrow> reply_t list option" where
  "fill_reply xid b sz [] = None"
| "fill_reply xid b sz (it # win) =
     (if rt_xid it = xid then Some (it\<lparr> rt_buf := b, rt_sz := sz, rt_cb_present := True \<rparr> # win)
      else map_option ((#) it) (fill_reply xid b sz win))"

definition add_reply :: "'h rpcs \<Rightarrow> u32 \<Rightarrow> u32 \<Rightarrow> byte list \<Rightarrow> nat \<Rightarrow> 'h rpcs option" where
  "add_reply s clt_nonce xid b sz =
     map_option (\<lambda>win. s\<lparr> reply_window := omap_set clt_nonce win (reply_window s) \<rparr>)
       (fill_reply xid b sz (omap_get [] (reply_window s) clt_nonce))"

definition free_reply_window :: "'h rpcs \<Rightarrow> 'h rpcs" where
  "free_reply_window s = s\<lparr> reply_window := [] \<rparr>"

section \<open>Dispatch\<close>

datatype 'h dispatched =
    D_drop                                     \<comment> \<open>the header does not unmarshal\<close>
  | D_abort                                    \<comment> \<open>\<open>VERIFY\<close> or \<open>assert\<close> fails\<close>
  | D_send "byte list" nat "'h rpcs"           \<comment> \<open>answered without calling the handler\<close>
  | D_ignore "'h rpcs"                         \<comment> \<open>duplicate of a request in progress\<close>
  | D_call 'h req_header unmarshall "'h rpcs"  \<comment> \<open>the handler is to be called\<close>

definition reply_only :: "(nat \<Rightarrow> byte) \<Rightarrow> u32 \<Rightarrow> u32 \<Rightarrow> byte list \<times> nat" where
  "reply_only junk xid ret =
     (let rep = pack_reply_header (marshall_new junk) \<lparr> rp_xid = xid, rp_ret = ret \<rparr>
      in (m_buf rep, m_ind rep))"

definition save_conn :: "(nat \<Rightarrow> nat \<Rightarrow> bool) \<Rightarrow> nat \<Rightarrow> u32 \<Rightarrow> 'h rpcs \<Rightarrow> 'h rpcs" where
  "save_conn older c clt_nonce s =
     (case omap_find (conns s) clt_nonce of
        None \<Rightarrow> s\<lparr> conns := omap_set clt_nonce c (conns s) \<rparr>
      | Some d \<Rightarrow> if older d c then s\<lparr> conns := omap_set clt_nonce c (conns s) \<rparr> else s)"

definition dispatch_new :: "'h \<Rightarrow> req_header \<Rightarrow> unmarshall \<Rightarrow> 'h rpcs \<Rightarrow> 'h dispatched" where
  "dispatch_new f h req s =
     D_call f h req (if counting s \<noteq> 0 then updatestat s (rq_proc h) else s)"

text \<open>The at-most-once part: a client with a nonzero nonce, and the switch on the state of its request.\<close>

definition dispatch_once ::
  "(nat \<Rightarrow> byte) \<Rightarrow> (nat \<Rightarrow> nat \<Rightarrow> bool) \<Rightarrow> 'h rpcs \<Rightarrow> nat \<Rightarrow> 'h \<Rightarrow> req_header \<Rightarrow> unmarshall \<Rightarrow> 'h dispatched" where
  "dispatch_once junk older s c f h req =
     (let s = s\<lparr> reply_window := omap_touch [] (rq_clt_nonce h) (reply_window s) \<rparr>;
          s = save_conn older c (rq_clt_nonce h) s
      in case checkduplicate_and_update s (rq_clt_nonce h) (rq_xid h) (rq_xid_rep h) of
           None \<Rightarrow> D_abort
         | Some (stat, (b1, sz1), s) \<Rightarrow>
             (case stat of
                NEW \<Rightarrow> dispatch_new f h req s
              | INPROGRESS \<Rightarrow> D_ignore s
              | DONE \<Rightarrow> D_send b1 sz1 s
              | FORGOTTEN \<Rightarrow>
                  (let (b, n) = reply_only junk (rq_xid h) atmostonce_failure in D_send b n s)))"

definition dispatch_begin ::
  "(nat \<Rightarrow> byte) \<Rightarrow> (nat \<Rightarrow> nat \<Rightarrow> bool) \<Rightarrow> 'h rpcs \<Rightarrow> nat \<Rightarrow> byte list \<Rightarrow> nat \<Rightarrow> 'h dispatched" where
  "dispatch_begin junk older s c buf sz =
     (let (h, req) = unpack_req_header (unmarshall_of_buf buf sz)
      in if \<not> u_ok req then D_drop
         else if rq_srv_nonce h \<noteq> 0 \<and> rq_srv_nonce h \<noteq> nonce s
         then (let (b, n) = reply_only junk (rq_xid h) oldsrv_failure in D_send b n s)
         else case omap_find (procs s) (rq_proc h) of
           None \<Rightarrow> D_abort
         | Some f \<Rightarrow>
             if rq_clt_nonce h \<noteq> 0 then dispatch_once junk older s c f h req
             else dispatch_new f h req s)"

text \<open>After the handler returned \<open>ret\<close> with its result in \<open>rep\<close>: the reply goes to the connection
  of the request, or to the client's latest one when that is dead.\<close>

definition dispatch_end ::
  "(nat \<Rightarrow> bool) \<Rightarrow> 'h rpcs \<Rightarrow> nat \<Rightarrow> req_header \<Rightarrow> u32 \<Rightarrow> marshall \<Rightarrow> ((nat \<times> byte list \<times> nat) \<times> 'h rpcs) option" where
  "dispatch_end dead s c h ret rep =
     (if ret = unmarshal_args_failure then None
      else if \<not> sint ret \<ge> 0 then None
      else do {
        let rep = pack_reply_header rep \<lparr> rp_xid = rq_xid h, rp_ret = ret \<rparr>;
        let ((b1, sz1), rep) = m_take_buf rep;
        s \<leftarrow> (if rq_clt_nonce h > 0 then add_reply s (rq_clt_nonce h) (rq_xid h) b1 sz1 else Some s);
        c \<leftarrow> (if dead c \<and> omap_find (conns s) (rq_clt_nonce h) \<noteq> Some c
              then omap_find (conns s) (rq_clt_nonce h) else Some c);
        Some ((c, b1, sz1), s) })"

text \<open>One request handled without interleaving; \<open>fn\<close> runs a registered handler.\<close>

definition dispatch ::
  "('h \<Rightarrow> 'a handler) \<Rightarrow> (nat \<Rightarrow> byte) \<Rightarrow> (nat \<Rightarrow> nat \<Rightarrow> bool) \<Rightarrow> (nat \<Rightarrow> bool) \<Rightarrow> 'h rpcs \<Rightarrow> 'a \<Rightarrow>
   nat \<Rightarrow> byte list \<Rightarrow> nat \<Rightarrow> ((nat \<times> byte list \<times> nat) option \<times> 'h rpcs \<times> 'a) option" where
  "dispatch fn junk older dead s app c buf sz =
     (case dispatch_begin junk older s c buf sz of
        D_drop \<Rightarrow> Some (None, s, app)
      | D_abort \<Rightarrow> None
      | D_send b n s \<Rightarrow> Some (Some (c, b, n), s, app)
      | D_ignore s \<Rightarrow> Some (None, s, app)
      | D_call f h req s \<Rightarrow> do {
          ((ret, rep), app) \<leftarrow> fn f app req (marshall_new junk);
          (sent, s) \<leftarrow> dispatch_end dead s c h ret rep;
          Some (Some sent, s, app) })"

section \<open>Interleaved execution\<close>

text \<open>
  \<open>running\<close> holds the requests whose handler is executing.  The last two fields record history:
  \<open>started\<close> every call of a handler, \<open>answers\<close> every reply sent by a finished one.
\<close>

record 'h server =
  srv :: "'h rpcs"
  running :: "(nat \<times> req_header) list"
  started :: "(u32 \<times> u32) list"
  answers :: "((u32 \<times> u32) \<times> byte list \<times> nat) list"

definition rid :: "req_header \<Rightarrow> u32 \<times> u32" where
  "rid h = (rq_clt_nonce h, rq_xid h)"

inductive srv_step :: "'h server \<Rightarrow> 'h server \<Rightarrow> bool" where
  call: "dispatch_begin junk older (srv a) c buf sz = D_call f h req s' \<Longrightarrow>
    srv_step a (a\<lparr> srv := s', running := (c, h) # running a, started := rid h # started a \<rparr>)"
| send: "dispatch_begin junk older (srv a) c buf sz = D_send b n s' \<Longrightarrow> srv_step a (a\<lparr> srv := s' \<rparr>)"
| ignore: "dispatch_begin junk older (srv a) c buf sz = D_ignore s' \<Longrightarrow> srv_step a (a\<lparr> srv := s' \<rparr>)"
| finish: "(c, h) \<in> set (running a) \<Longrightarrow>
    dispatch_end dead (srv a) c h ret rep = Some ((c', b, n), s') \<Longrightarrow>
    srv_step a (a\<lparr> srv := s', running := remove1 (c, h) (running a),
                   answers := (rid h, b, n) # answers a \<rparr>)"

inductive srv_reach :: "'h rpcs \<Rightarrow> 'h server \<Rightarrow> bool" for s0 where
  init: "reply_window s0 = [] \<Longrightarrow>
    srv_reach s0 \<lparr> srv = s0, running = [], started = [], answers = [] \<rparr>"
| step: "srv_reach s0 a \<Longrightarrow> srv_step a a' \<Longrightarrow> srv_reach s0 a'"

subsection \<open>What an operation does to one client's window\<close>

abbreviation win :: "'h rpcs \<Rightarrow> u32 \<Rightarrow> reply_t list" where
  "win s clt \<equiv> omap_get [] (reply_window s) clt"

abbreviation acked :: "'h rpcs \<Rightarrow> u32 \<Rightarrow> u32" where
  "acked s clt \<equiv> omap_get 0 (max_xid_rep_sofar s) clt"

lemma find_filter_SomeD: "find P xs = Some x \<Longrightarrow> x \<in> set xs \<and> P x"
  by (auto simp: find_Some_iff)

lemma find_NoneD: "find P xs = None \<Longrightarrow> \<forall>x \<in> set xs. \<not> P x"
  by (simp add: find_None_iff)

lemma omap_find_get: "omap_find m k = Some v \<Longrightarrow> omap_get d m k = v"
  by (simp add: omap_get_def)

lemma check_windows:
  assumes "checkduplicate_and_update s clt xid rep = Some (st, r, s')"
  shows "acked s' = (acked s)(clt := max (acked s clt) rep)" "c \<noteq> clt \<Longrightarrow> win s' c = win s c"
    and "st = FORGOTTEN \<Longrightarrow> win s' clt = win s clt"
    and "st \<noteq> FORGOTTEN \<Longrightarrow> acked s' clt < xid"
    and "st = DONE \<or> st = INPROGRESS \<Longrightarrow> win s' clt = filter (\<lambda>it. \<not> rt_xid it \<le> rep) (win s clt)"
    and "st = NEW \<Longrightarrow> win s' clt = filter (\<lambda>it. \<not> rt_xid it \<le> rep) (win s clt) @ [reply_t_new xid] \<and>
           (\<forall>it \<in> set (win s clt). rep < rt_xid it \<longrightarrow> rt_xid it \<noteq> xid)"
    and "st = DONE \<Longrightarrow> \<exists>it \<in> set (win s clt). rt_xid it = xid \<and> rt_cb_present it \<and> r = (rt_buf it, rt_sz it)"
  using assms
  by (auto simp: checkduplicate_and_update_def Let_def omap_get_set max_def fun_eq_iff
      split: option.splits if_splits dest!: find_filter_SomeD find_NoneD omap_find_get [where d = "[]"])

lemma fill_reply_Some:
  assumes "fill_reply xid b sz w = Some w'" "distinct (map rt_xid w)"
  shows "w' = map (\<lambda>it. if rt_xid it = xid then it\<lparr> rt_buf := b, rt_sz := sz, rt_cb_present := True \<rparr> else it) w"
  using assms
proof (induction w arbitrary: w')
  case (Cons it w)
  then show ?case by (auto split: if_splits intro!: map_idI [symmetric] simp: rev_image_eqI)
qed simp

lemma add_reply_windows:
  assumes "add_reply s clt xid b sz = Some s'" "distinct (map rt_xid (win s clt))"
  shows "max_xid_rep_sofar s' = max_xid_rep_sofar s" "c \<noteq> clt \<Longrightarrow> win s' c = win s c"
    and "win s' clt = map (\<lambda>it. if rt_xid it = xid
           then it\<lparr> rt_buf := b, rt_sz := sz, rt_cb_present := True \<rparr> else it) (win s clt)"
  using assms by (auto simp: add_reply_def omap_get_set dest: fill_reply_Some)

lemma add_reply_None: "(add_reply s clt xid b sz = None) = (xid \<notin> rt_xid ` set (win s clt))"
proof -
  have "(fill_reply xid b sz w = None) = (xid \<notin> rt_xid ` set w)" for w by (induction w) auto
  then show ?thesis by (simp add: add_reply_def)
qed

subsection \<open>The invariant\<close>

abbreviation same_windows :: "'h rpcs \<Rightarrow> 'h rpcs \<Rightarrow> bool" where
  "same_windows s s' \<equiv> (\<forall>c. win s c = win s' c) \<and> (\<forall>c. acked s c = acked s' c)"

lemma same_windows_updatestat: "same_windows (updatestat s proc) s"
  by (simp add: updatestat_def Let_def)

lemma same_windows_save_conn: "same_windows (save_conn older c clt s) s"
  by (simp add: save_conn_def split: option.splits)

lemma dispatch_once_cases:
  fixes s :: "'h rpcs"
  defines "pre \<equiv> \<lambda>older c h. save_conn older c (rq_clt_nonce h)
    (s\<lparr> reply_window := omap_touch [] (rq_clt_nonce h) (reply_window s) \<rparr>)"
  shows "dispatch_once junk older s c f h req = D_call f' h' req' s' \<Longrightarrow>
      h' = h \<and> (\<exists>r s2. same_windows s' s2 \<and>
        checkduplicate_and_update (pre older c h) (rq_clt_nonce h) (rq_xid h) (rq_xid_rep h) = Some (NEW, r, s2))"
    and "dispatch_once junk older s c f h req = D_send b n s' \<or> dispatch_once junk older s c f h req = D_ignore s' \<Longrightarrow>
      \<exists>st r. st \<noteq> NEW \<and>
        checkduplicate_and_update (pre older c h) (rq_clt_nonce h) (rq_xid h) (rq_xid_rep h) = Some (st, r, s')"
  unfolding dispatch_once_def Let_def pre_def
  by (force simp: dispatch_new_def same_windows_updatestat
      split: option.splits prod.splits rpcstate_t.splits if_splits)+

lemma same_windows_pre:
  "same_windows (save_conn older c clt (s\<lparr> reply_window := omap_touch [] clt (reply_window s) \<rparr>)) s"
  by (simp add: same_windows_save_conn)

lemma dispatch_begin_call:
  assumes "dispatch_begin junk older s c buf sz = D_call f h req s'"
  shows "rq_clt_nonce h = 0 \<and> same_windows s' s \<or>
    rq_clt_nonce h \<noteq> 0 \<and> (\<exists>s1 r s2. same_windows s1 s \<and> same_windows s' s2 \<and>
      checkduplicate_and_update s1 (rq_clt_nonce h) (rq_xid h) (rq_xid_rep h) = Some (NEW, r, s2))"
proof -
  obtain h0 req0 where "unpack_req_header (unmarshall_of_buf buf sz) = (h0, req0)" by fastforce
  with assms consider f0 where "rq_clt_nonce h0 \<noteq> 0" "dispatch_once junk older s c f0 h0 req0 = D_call f h req s'"
    | f0 where "rq_clt_nonce h0 = 0" "dispatch_new f0 h0 req0 s = D_call f h req s'"
    by (auto simp: dispatch_begin_def reply_only_def Let_def split: if_splits option.splits)
  then show ?thesis
  proof cases
    case 1
    with dispatch_once_cases(1) [OF 1(2)] show ?thesis using same_windows_pre by blast
  next
    case 2
    then show ?thesis by (auto simp: dispatch_new_def same_windows_updatestat)
  qed
qed

lemma dispatch_begin_other:
  assumes "dispatch_begin junk older s c buf sz = D_send b n s' \<or> dispatch_begin junk older s c buf sz = D_ignore s'"
  shows "same_windows s' s \<or> (\<exists>s1 clt xid rep st r. same_windows s1 s \<and> st \<noteq> NEW \<and>
      checkduplicate_and_update s1 clt xid rep = Some (st, r, s'))"
proof -
  obtain h0 req0 where "unpack_req_header (unmarshall_of_buf buf sz) = (h0, req0)" by fastforce
  with assms consider "s' = s"
    | f0 where "dispatch_once junk older s c f0 h0 req0 = D_send b n s' \<or> dispatch_once junk older s c f0 h0 req0 = D_ignore s'"
    by (auto simp: dispatch_begin_def dispatch_new_def reply_only_def Let_def split: if_splits option.splits)
  then show ?thesis
  proof cases
    case 2
    show ?thesis using dispatch_once_cases(2) [OF 2] same_windows_pre by blast
  qed simp
qed

text \<open>The part of the invariant that a change of the windows can touch.\<close>

definition covers :: "'h rpcs \<Rightarrow> (u32 \<times> u32) list \<Rightarrow> ((u32 \<times> u32) \<times> byte list \<times> nat) list \<Rightarrow> bool" where
  "covers s sta ans =
     ((\<forall>clt xid. (clt, xid) \<in> set sta \<longrightarrow> clt \<noteq> 0 \<longrightarrow>
         xid \<le> acked s clt \<or> xid \<in> rt_xid ` set (win s clt)) \<and>
      (\<forall>clt. distinct (map rt_xid (win s clt))) \<and>
      (\<forall>clt it. it \<in> set (win s clt) \<longrightarrow> rt_cb_present it \<longrightarrow>
         ((clt, rt_xid it), rt_buf it, rt_sz it) \<in> set ans))"

definition once :: "(nat \<times> req_header) list \<Rightarrow> (u32 \<times> u32) list \<Rightarrow> ((u32 \<times> u32) \<times> byte list \<times> nat) list \<Rightarrow> bool" where
  "once run sta ans =
     (distinct (filter (\<lambda>p. fst p \<noteq> 0) sta) \<and>
      distinct (filter (\<lambda>p. fst p \<noteq> 0) (map (rid \<circ> snd) run)) \<and>
      distinct (filter (\<lambda>p. fst p \<noteq> 0) (map fst ans)) \<and>
      (rid \<circ> snd) ` set run \<subseteq> set sta \<and> fst ` set ans \<subseteq> set sta \<and>
      (\<forall>p \<in> (rid \<circ> snd) ` set run. fst p \<noteq> 0 \<longrightarrow> p \<notin> fst ` set ans))"

lemma covers_same: "same_windows s' s \<Longrightarrow> covers s sta ans \<Longrightarrow> covers s' sta ans"
  by (simp add: covers_def)

lemma covers_check:
  assumes "covers s sta ans" "checkduplicate_and_update s clt xid rep = Some (st, r, s')" "st \<noteq> NEW"
  shows "covers s' sta ans"
proof -
  note k = check_windows [OF assms(2)]
  have w: "win s' clt = win s clt \<or> win s' clt = filter (\<lambda>it. \<not> rt_xid it \<le> rep) (win s clt)"
    using k(3,5) assms(3) by (cases st) auto
  have a: "acked s' c = (if c = clt then max (acked s clt) rep else acked s c)" for c
    by (simp add: k(1))
  have sub: "set (win s' c) \<subseteq> set (win s c)" for c using w k(2) by (cases "c = clt") auto
  have d: "distinct (map rt_xid (win s' c))" for c
    using assms(1) w k(2) [of c] by (cases "c = clt") (auto simp: covers_def distinct_map_filter)
  have "xid' \<le> acked s' c \<or> xid' \<in> rt_xid ` set (win s' c)" if "(c, xid') \<in> set sta" "c \<noteq> 0" for c xid'
  proof (cases "c = clt")
    case True
    then have "xid' \<le> acked s clt \<or> (\<exists>it \<in> set (win s clt). rt_xid it = xid')"
      using assms(1) that by (force simp: covers_def)
    then show ?thesis using w True by (auto simp: a le_max_iff_disj)
  next
    case False
    then show ?thesis using assms(1) that by (simp add: covers_def k(1,2))
  qed
  then show ?thesis using d sub assms(1) by (fastforce simp: covers_def)
qed

lemma covers_new:
  assumes "covers s sta ans" "checkduplicate_and_update s clt xid rep = Some (NEW, r, s')" "clt \<noteq> 0"
  shows "covers s' ((clt, xid) # sta) ans" "(clt, xid) \<notin> set sta"
proof -
  note k = check_windows [OF assms(2)]
  let ?w = "filter (\<lambda>it. \<not> rt_xid it \<le> rep) (win s clt)"
  have a: "acked s' c = (if c = clt then max (acked s clt) rep else acked s c)" for c
    by (simp add: k(1))
  have w: "win s' clt = ?w @ [reply_t_new xid]" and x: "xid \<notin> rt_xid ` set ?w"
    using k(6) by auto
  have lt: "acked s' clt < xid" using k(4) by simp
  show "(clt, xid) \<notin> set sta"
  proof
    assume "(clt, xid) \<in> set sta"
    then have "xid \<le> acked s clt \<or> xid \<in> rt_xid ` set (win s clt)"
      using assms(1,3) by (simp add: covers_def)
    then show False using lt x by (auto simp: a)
  qed
  have "xid' \<le> acked s' c \<or> xid' \<in> rt_xid ` set (win s' c)"
    if "(c, xid') \<in> set ((clt, xid) # sta)" "c \<noteq> 0" for c xid'
  proof (cases "c = clt")
    case True
    then have "xid' = xid \<or> xid' \<le> acked s clt \<or> xid' \<in> rt_xid ` set (win s clt)"
      using assms(1) that by (auto simp: covers_def)
    then show ?thesis unfolding True by (auto simp: w a le_max_iff_disj reply_t_new_def)
  next
    case False
    then show ?thesis using assms(1) that by (simp add: covers_def k(1,2))
  qed
  moreover have "distinct (map rt_xid (win s' c))" for c
    using assms(1) w x k(2) [of c]
    by (cases "c = clt") (auto simp: covers_def distinct_map_filter reply_t_new_def)
  moreover have "((c, rt_xid it), rt_buf it, rt_sz it) \<in> set ans"
    if "it \<in> set (win s' c)" "rt_cb_present it" for c it
    using that assms(1) w k(2) [of c] by (cases "c = clt") (auto simp: covers_def reply_t_new_def)
  ultimately show "covers s' ((clt, xid) # sta) ans" by (simp add: covers_def)
qed

lemma covers_add_reply:
  assumes "covers s sta ans" "add_reply s clt xid b n = Some s'"
    and "\<And>v. ((clt, xid), v) \<in> set ans \<Longrightarrow> v = (b, n)"
  shows "covers s' sta (((clt, xid), b, n) # ans)"
proof -
  have "distinct (map rt_xid (win s clt))" using assms(1) by (simp add: covers_def)
  note k = add_reply_windows [OF assms(2) this]
  let ?f = "\<lambda>it. if rt_xid it = xid then it\<lparr> rt_buf := b, rt_sz := n, rt_cb_present := True \<rparr> else it"
  have f: "map rt_xid (map ?f w) = map rt_xid w" for w by simp
  have x: "map rt_xid (win s' c) = map rt_xid (win s c)" for c
    using k(2) [of c] f by (cases "c = clt") (simp_all only: k(3), simp_all)
  then have i: "rt_xid ` set (win s' c) = rt_xid ` set (win s c)" for c
    by (metis list.set_map)
  have "((c, rt_xid it), rt_buf it, rt_sz it) \<in> set (((clt, xid), b, n) # ans)"
    if "it \<in> set (win s' c)" "rt_cb_present it" for c it
    using that assms(1) k(2) [of c]
    by (cases "c = clt") (auto simp: covers_def k(3) split: if_splits)
  then show ?thesis using assms(1) x i by (simp add: covers_def k(1))
qed

lemma distinct_filter_map_remove1:
  "distinct (filter P (map f xs)) \<Longrightarrow> distinct (filter P (map f (remove1 x xs)))"
  by (induction xs) (auto dest: in_set_remove1 [THEN iffD1, rotated] notin_set_remove1 split: if_splits
      intro: rev_image_eqI)

lemma distinct_filter_map_remove1_notin:
  "distinct (filter P (map f xs)) \<Longrightarrow> x \<in> set xs \<Longrightarrow> P (f x) \<Longrightarrow> f x \<notin> f ` set (remove1 x xs)"
  by (induction xs) (auto split: if_splits, metis image_eqI)

lemma once_call:
  assumes "once run sta ans" "fst (rid h) \<noteq> 0 \<Longrightarrow> rid h \<notin> set sta"
  shows "once ((c, h) # run) (rid h # sta) ans"
  using assms by (cases "fst (rid h) = 0") (auto simp: once_def)

lemma once_finish:
  assumes "once run sta ans" "(c, h) \<in> set run"
  shows "once (remove1 (c, h) run) sta ((rid h, v) # ans)"
proof -
  let ?nz = "\<lambda>p :: u32 \<times> u32. fst p \<noteq> 0" and ?run = "remove1 (c, h) run"
  have d: "distinct (filter ?nz (map (rid \<circ> snd) run))" using assms(1) by (simp add: once_def)
  have sub: "set ?run \<subseteq> set run" by (rule set_remove1_subset)
  have n: "?nz (rid h) \<Longrightarrow> rid h \<notin> (rid \<circ> snd) ` set ?run"
    using distinct_filter_map_remove1_notin [OF d assms(2)] by simp
  have m: "?nz (rid h) \<Longrightarrow> rid h \<notin> fst ` set ans" using assms by (force simp: once_def)
  have "rid h \<in> set sta" using assms by (force simp: once_def)
  moreover have "(rid \<circ> snd) ` set ?run \<subseteq> set sta" using assms(1) sub by (auto simp: once_def)
  moreover have "p \<notin> fst ` set ans" if "p \<in> (rid \<circ> snd) ` set ?run" "?nz p" for p
    using that assms(1) sub unfolding once_def by blast
  then have "\<forall>p \<in> (rid \<circ> snd) ` set ?run. ?nz p \<longrightarrow> p \<notin> fst ` set ((rid h, v) # ans)"
    unfolding list.set(2) image_insert fst_conv insert_iff using n by blast
  moreover have "distinct (filter ?nz (map fst ((rid h, v) # ans)))"
    using assms(1) m by (auto simp: once_def)
  ultimately show ?thesis
    using assms(1) distinct_filter_map_remove1 [OF d, of "(c, h)"] by (simp add: once_def)
qed

definition srv_inv :: "'h server \<Rightarrow> bool" where
  "srv_inv a = (covers (srv a) (started a) (answers a) \<and> once (running a) (started a) (answers a))"

lemma covers_more: "covers s sta ans \<Longrightarrow> set ans \<subseteq> set ans' \<Longrightarrow> covers s sta ans'"
  by (auto simp: covers_def)

lemma dispatch_end_windows:
  assumes "dispatch_end dead s c h ret rep = Some ((c', b, n), s')"
  shows "if rq_clt_nonce h = 0 then s' = s else add_reply s (rq_clt_nonce h) (rq_xid h) b n = Some s'"
  using assms by (auto simp: dispatch_end_def m_take_buf_def Let_def word_gt_0 split: if_splits bind_splits)

lemma srv_inv_step: "srv_step a a' \<Longrightarrow> srv_inv a \<Longrightarrow> srv_inv a'"
proof (induction rule: srv_step.induct)
  case (call junk older a c buf sz f h req s')
  have inv: "covers (srv a) (started a) (answers a)" "once (running a) (started a) (answers a)"
    using call(2) by (simp_all add: srv_inv_def)
  from dispatch_begin_call [OF call(1)]
  have "covers s' (rid h # started a) (answers a) \<and> (fst (rid h) \<noteq> 0 \<longrightarrow> rid h \<notin> set (started a))"
  proof (elim disjE conjE exE)
    assume "rq_clt_nonce h = 0" "\<forall>c. win s' c = win (srv a) c" "\<forall>c. acked s' c = acked (srv a) c"
    then show ?thesis using inv(1) by (auto simp: covers_def rid_def)
  next
    fix s1 r s2
    assume *: "rq_clt_nonce h \<noteq> 0"
      "checkduplicate_and_update s1 (rq_clt_nonce h) (rq_xid h) (rq_xid_rep h) = Some (NEW, r, s2)"
      and w: "\<forall>c. win s1 c = win (srv a) c" "\<forall>c. acked s1 c = acked (srv a) c"
      "\<forall>c. win s' c = win s2 c" "\<forall>c. acked s' c = acked s2 c"
    have "covers s1 (started a) (answers a)" using inv(1) w(1,2) by (simp add: covers_def)
    from covers_new [OF this *(2,1)] show ?thesis using w(3,4) by (simp add: covers_def rid_def)
  qed
  then show ?case using once_call [OF inv(2), of h c] by (simp add: srv_inv_def)
next
  case (send junk older a c buf sz b n s')
  have "covers s' (started a) (answers a)"
    using dispatch_begin_other [OF disjI1, OF send(1)] covers_same [of s' "srv a"] covers_same [of _ "srv a"]
      covers_check send(2) unfolding srv_inv_def by metis
  then show ?case using send(2) by (simp add: srv_inv_def)
next
  case (ignore junk older a c buf sz s')
  have "covers s' (started a) (answers a)"
    using dispatch_begin_other [OF disjI2, OF ignore(1)] covers_same [of s' "srv a"] covers_same [of _ "srv a"]
      covers_check ignore(2) unfolding srv_inv_def by metis
  then show ?case using ignore(2) by (simp add: srv_inv_def)
next
  case (finish c h a dead ret rep c' b n s')
  have o: "once (remove1 (c, h) (running a)) (started a) ((rid h, b, n) # answers a)"
    using finish(1,3) by (simp add: srv_inv_def once_finish)
  have "covers s' (started a) ((rid h, b, n) # answers a)"
  proof (cases "rq_clt_nonce h = 0")
    case True
    then show ?thesis using dispatch_end_windows [OF finish(2)] finish(3)
      by (auto simp: srv_inv_def intro: covers_more)
  next
    case False
    have "rid h \<in> (rid \<circ> snd) ` set (running a)" using finish(1) by force
    then have "rid h \<notin> fst ` set (answers a)"
      using False finish(3) unfolding srv_inv_def once_def by (metis rid_def fst_conv)
    then have no: "((rq_clt_nonce h, rq_xid h), v) \<notin> set (answers a)" for v
      by (auto simp: rid_def image_iff)
    have ar: "add_reply (srv a) (rq_clt_nonce h) (rq_xid h) b n = Some s'"
      using dispatch_end_windows [OF finish(2)] False by simp
    have cv: "covers (srv a) (started a) (answers a)" using finish(3) by (simp add: srv_inv_def)
    from covers_add_reply [OF cv ar] no show ?thesis by (simp add: rid_def)
  qed
  with o show ?case by (simp add: srv_inv_def)
qed

lemma srv_inv_reach: "srv_reach s0 a \<Longrightarrow> srv_inv a"
proof (induction rule: srv_reach.induct)
  case init
  then show ?case by (simp add: srv_inv_def covers_def once_def omap_get_def omap_find_def)
next
  case (step a a')
  then show ?case by (blast intro: srv_inv_step)
qed

section \<open>Properties of the server\<close>

text \<open>
  C4: At most once.  Whatever packets arrive, duplicated, reordered, retransmitted over several
  connections, and however the handler threads interleave, the handler is started at most once for
  each request identifier (client nonce, xid) of a client that asked for at-most-once semantics.
\<close>

theorem at_most_once:
  assumes "srv_reach s0 a"
  shows "distinct (filter (\<lambda>(clt, xid). clt \<noteq> 0) (started a))"
  using srv_inv_reach [OF assms] by (simp add: srv_inv_def once_def case_prod_unfold)

text \<open>
  A duplicate is answered with the reply of its one execution.  When
  \<open>checkduplicate_and_update\<close> reports \<open>DONE\<close> in a reachable state, the buffer it returns is the reply
  that the handler's execution for that request produced, and there is no other such reply.
\<close>

theorem duplicate_gets_original_reply:
  assumes "srv_reach s0 a" "clt \<noteq> 0"
    and "checkduplicate_and_update (srv a) clt xid xid_rep = Some (DONE, (b, n), s')"
  shows "((clt, xid), b, n) \<in> set (answers a) \<and>
    (\<forall>b' n'. ((clt, xid), b', n') \<in> set (answers a) \<longrightarrow> b' = b \<and> n' = n)"
proof -
  note inv = srv_inv_reach [OF assms(1), unfolded srv_inv_def]
  obtain it where "it \<in> set (win (srv a) clt)" "rt_xid it = xid" "rt_cb_present it"
      "(b, n) = (rt_buf it, rt_sz it)"
    using check_windows(7) [OF assms(3)] by auto
  then have 1: "((clt, xid), b, n) \<in> set (answers a)" using inv by (auto simp: covers_def)
  have d: "distinct (map fst (filter (\<lambda>e. fst (fst e) \<noteq> 0) (answers a)))"
    using inv by (simp add: once_def filter_map comp_def)
  have "b' = b \<and> n' = n" if "((clt, xid), b', n') \<in> set (answers a)" for b' n'
    using d 1 that assms(2)
      eq_key_imp_eq_value [OF d, of "(clt, xid)" "(b', n')" "(b, n)"] by auto
  with 1 show ?thesis by blast
qed

text \<open>A concrete server: nonce 9, procedure 1 registered, and a request from client 5.\<close>

definition demo_srv :: "nat rpcs" where
  "demo_srv = \<lparr> nonce = 9, reply_window = [], max_xid_rep_sofar = [], conns = [], counting = 0,
     curr_counts = 0, counts = [], reachable = True, procs = [(1, 0)] \<rparr>"

definition demo_req :: "u32 \<Rightarrow> u32 \<Rightarrow> byte list" where
  "demo_req xid rep = replicate 4 0 @ enc_req_header \<lparr> rq_xid = xid, rq_proc = 1, rq_clt_nonce = 5,
     rq_srv_nonce = 9, rq_xid_rep = rep \<rparr>"

lemma demo_unpack:
  "unpack_req_header (unmarshall_of_buf (demo_req xid rep) 24) =
     (\<lparr> rq_xid = xid, rq_proc = 1, rq_clt_nonce = 5, rq_srv_nonce = 9, rq_xid_rep = rep \<rparr>,
      \<lparr> u_buf = demo_req xid rep, u_sz = 24, u_ind = 24, u_ok = True \<rparr>)"
proof -
  let ?u = "unmarshall_of_buf (demo_req xid rep) 24"
  let ?h = "\<lparr> rq_xid = xid, rq_proc = 1, rq_clt_nonce = 5, rq_srv_nonce = 9, rq_xid_rep = rep \<rparr>"
  have "u_wf ?u" "RPC_HEADER_SZ \<le> u_sz ?u" "starts (?u\<lparr> u_ind := 4 \<rparr>) (enc_req_header ?h)"
    by (simp_all add: u_wf_def starts_def unread_def unmarshall_of_buf_def demo_req_def
        enc_req_header_def RPC_HEADER_SZ_24)
  from unpack_req_header_starts [OF this] show ?thesis
    by (simp add: unmarshall_of_buf_def RPC_HEADER_SZ_24)
qed

definition demo_running :: "nat server" where
  "demo_running = \<lparr> srv = demo_srv\<lparr> reply_window := [(5, [reply_t_new 1])],
       max_xid_rep_sofar := [(5, 0)], conns := [(5, 3)] \<rparr>,
     running = [(3, \<lparr> rq_xid = 1, rq_proc = 1, rq_clt_nonce = 5, rq_srv_nonce = 9, rq_xid_rep = 0 \<rparr>)],
     started = [(5, 1)], answers = [] \<rparr>"

lemma demo_reach: "srv_reach demo_srv demo_running"
proof -
  let ?h = "\<lparr> rq_xid = 1, rq_proc = 1, rq_clt_nonce = 5, rq_srv_nonce = 9, rq_xid_rep = 0 \<rparr>"
  let ?a0 = "\<lparr> srv = demo_srv, running = [], started = [], answers = [] \<rparr>"
  have "dispatch_begin (\<lambda>_. 0) (\<lambda>_ _. False) (srv ?a0) 3 (demo_req 1 0) 24 =
      D_call 0 ?h \<lparr> u_buf = demo_req 1 0, u_sz = 24, u_ind = 24, u_ok = True \<rparr> (srv demo_running)"
    by (simp add: dispatch_begin_def demo_unpack dispatch_once_def dispatch_new_def demo_srv_def
        demo_running_def omap_find_def omap_touch_def save_conn_def checkduplicate_and_update_def
        omap_get_def)
  from srv_step.call [OF this] have "srv_step ?a0 demo_running"
    by (simp add: demo_running_def rid_def)
  moreover have "srv_reach demo_srv ?a0" by (rule srv_reach.init) (simp add: demo_srv_def)
  ultimately show ?thesis by (rule srv_reach.step [rotated])
qed

theorem at_most_once_witness:
  "srv_reach demo_srv demo_running \<and> started demo_running = [(5, 1)] \<and>
   distinct (filter (\<lambda>(clt, xid). clt \<noteq> 0) (started demo_running))"
  using at_most_once [OF demo_reach] demo_reach by (simp add: demo_running_def)

text \<open>The same server after the handler of that request has returned 0.\<close>

definition demo_reply :: "byte list" where
  "demo_reply = m_buf (pack_reply_header (marshall_new (\<lambda>_. 0)) \<lparr> rp_xid = 1, rp_ret = 0 \<rparr>)"

definition demo_done :: "nat server" where
  "demo_done = \<lparr> srv = demo_srv\<lparr> reply_window := [(5, [\<lparr> rt_xid = 1, rt_cb_present = True,
         rt_buf = demo_reply, rt_sz = 24 \<rparr>])], max_xid_rep_sofar := [(5, 0)], conns := [(5, 3)] \<rparr>,
     running = [], started = [(5, 1)], answers = [((5, 1), demo_reply, 24)] \<rparr>"

lemma demo_done_reach: "srv_reach demo_srv demo_done"
proof -
  let ?h = "\<lparr> rq_xid = 1, rq_proc = 1, rq_clt_nonce = 5, rq_srv_nonce = 9, rq_xid_rep = 0 \<rparr>"
  have i: "m_ind (pack_reply_header (marshall_new (\<lambda>_. 0)) r) = 24" for r
    using pack_header_wf(4) [OF marshall_new_wf] by (simp add: ind_new RPC_HEADER_SZ_24)
  have "dispatch_end (\<lambda>_. False) (srv demo_running) 3 ?h 0 (marshall_new (\<lambda>_. 0)) =
      Some ((3, demo_reply, 24), srv demo_done)"
    by (simp add: Let_def dispatch_end_def unmarshal_args_failure_def m_take_buf_def add_reply_def demo_running_def
        demo_srv_def omap_get_def omap_find_def reply_t_new_def demo_done_def demo_reply_def i)
  moreover have "(3, ?h) \<in> set (running demo_running)" by (simp add: demo_running_def)
  ultimately have "srv_step demo_running demo_done"
    using srv_step.finish [of 3 ?h demo_running "\<lambda>_. False" 0 "marshall_new (\<lambda>_. 0)" 3 demo_reply 24 "srv demo_done"]
    by (simp add: demo_running_def demo_done_def rid_def)
  then show ?thesis by (rule srv_reach.step [OF demo_reach])
qed

theorem duplicate_gets_original_reply_witness:
  "srv_reach demo_srv demo_done \<and>
   (\<exists>s'. checkduplicate_and_update (srv demo_done) 5 1 0 = Some (DONE, (demo_reply, 24), s')) \<and>
   {r. ((5, 1), r) \<in> set (answers demo_done)} = {(demo_reply, 24)}"
proof -
  obtain s' where c: "checkduplicate_and_update (srv demo_done) 5 1 0 = Some (DONE, (demo_reply, 24), s')"
    by (simp add: Let_def checkduplicate_and_update_def demo_done_def demo_srv_def omap_find_def
        omap_touch_def omap_get_def)
  from duplicate_gets_original_reply [OF demo_done_reach _ c]
  have "{r. ((5, 1), r) \<in> set (answers demo_done)} = {(demo_reply, 24)}" by auto
  with c demo_done_reach show ?thesis by simp
qed

text \<open>
  A client that gives up on a request (its call times out, so the next request acknowledges it)
  makes the server fail when that request's handler returns: processing an acknowledgement removes
  the entry of the request that is still in progress, and \<open>add_reply\<close> then reads past the end of the
  reply list.
\<close>

theorem abandoned_request_fails:
  assumes "checkduplicate_and_update s clt xid xid_rep = Some (stat, r, s')" "stat \<noteq> FORGOTTEN"
    and "rq_clt_nonce h = clt" "clt \<noteq> 0" "rq_xid h \<le> xid_rep"
  shows "dispatch_end dead s' c h ret rep = None"
proof -
  have "xid_rep < xid"
    using assms(1) by (auto simp: checkduplicate_and_update_def split: option.splits if_splits)
  moreover have "\<forall>it \<in> set (win s' clt). xid_rep < rt_xid it \<or> rt_xid it = xid"
    using check_windows(5,6) [OF assms(1)] assms(2) by (cases stat) (auto simp: reply_t_new_def)
  ultimately have "rq_xid h \<notin> rt_xid ` set (win s' clt)" using assms(5) by auto
  then have "add_reply s' clt (rq_xid h) b n = None" for b n by (simp add: add_reply_None)
  then show ?thesis using assms(3,4) by (simp add: dispatch_end_def m_take_buf_def word_gt_0)
qed

theorem abandoned_request_fails_witness:
  "\<exists>s'. checkduplicate_and_update (srv demo_running) 5 2 1 = Some (NEW, ([], 0), s') \<and>
     dispatch_end (\<lambda>_. False) s' 3 (snd (hd (running demo_running))) 0 (marshall_new (\<lambda>_. 0)) = None"
proof -
  obtain s' where c: "checkduplicate_and_update (srv demo_running) 5 2 1 = Some (NEW, ([], 0), s')"
    by (simp add: Let_def checkduplicate_and_update_def demo_running_def demo_srv_def omap_find_def omap_touch_def
        omap_get_def reply_t_new_def word_le_nat_alt word_less_nat_alt)
  have "dispatch_end (\<lambda>_. False) s' 3 (snd (hd (running demo_running))) 0 (marshall_new (\<lambda>_. 0)) = None"
    by (rule abandoned_request_fails [OF c]) (simp_all add: demo_running_def)
  with c show ?thesis by blast
qed

text \<open>
  A request for an earlier instance of the server, recognised by its server nonce, changes
  nothing and is answered with \<open>oldsrv_failure\<close>.
\<close>

theorem old_instance_rejected:
  assumes "unpack_req_header (unmarshall_of_buf buf sz) = (h, req)" "u_ok req"
    and "rq_srv_nonce h \<noteq> 0" "rq_srv_nonce h \<noteq> nonce s"
  shows "\<exists>b n. dispatch_begin junk older s c buf sz = D_send b n s \<and>
    fst (unpack_reply_header (unmarshall_of_buf b n)) = \<lparr> rp_xid = rq_xid h, rp_ret = oldsrv_failure \<rparr>"
proof -
  let ?rh = "\<lparr> rp_xid = rq_xid h, rp_ret = oldsrv_failure \<rparr>"
  let ?rep = "pack_reply_header (marshall_new junk) ?rh"
  have "RPC_HEADER_SZ \<le> m_ind (marshall_new junk)" "m_ind (marshall_new junk) < 2 ^ 31"
    by (simp_all add: ind_new RPC_HEADER_SZ_24)
  note r = received_reply [OF marshall_new_wf this, of ?rh] pack_header_wf(4) [OF marshall_new_wf this(1), of ?rh]
  have "dispatch_begin junk older s c buf sz = D_send (m_buf ?rep) (m_ind ?rep) s"
    using assms by (simp add: dispatch_begin_def reply_only_def Let_def)
  then show ?thesis using r by fastforce
qed

theorem old_instance_rejected_witness:
  "\<exists>b n. dispatch_begin (\<lambda>_. 0) (\<lambda>_ _. False) (demo_srv\<lparr> nonce := 8 \<rparr>) 3 (demo_req 1 0) 24 =
      D_send b n (demo_srv\<lparr> nonce := 8 \<rparr>) \<and>
    fst (unpack_reply_header (unmarshall_of_buf b n)) = \<lparr> rp_xid = 1, rp_ret = oldsrv_failure \<rparr>"
  using old_instance_rejected [OF demo_unpack, of 1 0 "demo_srv\<lparr> nonce := 8 \<rparr>" "\<lambda>_. 0" "\<lambda>_ _. False" 3]
  by simp

end
