(* ===== verification/Rpc_Client.thy ===== *)
theory Rpc_Client
  imports Rpc_Call "HOL-Library.Signed_Division"
begin

text \<open>
  The client endpoint \<open>rpcc\<close> of \<open>rpc/rpc.cc\<close>: the window of received replies
  (\<open>update_xid_rep\<close>), the three parts of \<open>call1\<close> (registering the call and packing its header, the
  timed retransmission loop, the clean-up that computes the result), \<open>got_pdu\<close>, \<open>cancel\<close>, and the
  time arithmetic the loop uses.

  Clock readings, connection attempts and the arrival of the reply are inputs of the loop: one
  \<open>iter_env\<close> per iteration.
\<close>

section \<open>Time\<close>

record timespec =
  tv_sec :: int
  tv_nsec :: int

definition cmp_timespec :: "timespec \<Rightarrow> timespec \<Rightarrow> int" where
  "cmp_timespec a b =
     (if tv_sec a > tv_sec b then 1
      else if tv_sec a < tv_sec b then - 1
      else if tv_nsec a > tv_nsec b then 1
      else if tv_nsec a < tv_nsec b then - 1
      else 0)"

function norm_nsec :: "timespec \<Rightarrow> timespec" where
  "norm_nsec t =
     (if tv_nsec t > 1000000000
      then norm_nsec (t\<lparr> tv_sec := tv_sec t + 1, tv_nsec := tv_nsec t - 1000000000 \<rparr>)
      else t)"
  by pat_completeness auto
termination by (relation "measure (\<lambda>t. nat (tv_nsec t))") auto

declare norm_nsec.simps [simp del]

definition add_timespec :: "timespec \<Rightarrow> int \<Rightarrow> timespec option" where
  "add_timespec a b =
     (let r = \<lparr> tv_sec = tv_sec a + b sdiv 1000, tv_nsec = tv_nsec a + (b smod 1000) * 1000000 \<rparr>
      in if tv_nsec r \<ge> 0 then Some (norm_nsec r) else None)"

definition diff_timespec :: "timespec \<Rightarrow> timespec \<Rightarrow> int option" where
  "diff_timespec e s =
     (let diff = (if tv_sec e > tv_sec s then (tv_sec e - tv_sec s) * 1000 else 0)
      in if \<not> (diff \<noteq> 0 \<or> tv_sec e = tv_sec s) then None
         else Some (if tv_nsec e > tv_nsec s then diff + (tv_nsec e - tv_nsec s) sdiv 1000000
                    else diff - (tv_nsec s - tv_nsec e) sdiv 1000000))"

definition ns :: "timespec \<Rightarrow> int" where
  "ns t = tv_sec t * 1000000000 + tv_nsec t"

section \<open>The client\<close>

record caller =
  ca_xid :: u32
  ca_un :: unmarshall
  ca_intret :: u32
  ca_done :: bool

record request =
  r_buf :: "byte list"
  r_xid :: u32

definition request_isvalid :: "request \<Rightarrow> bool" where
  "request_isvalid r = (r_xid r \<noteq> - 1)"

definition request_clear :: request where
  "request_clear = \<lparr> r_buf = [], r_xid = - 1 \<rparr>"

record rpcc =
  clt_nonce :: u32
  srv_nonce :: u32
  bind_done :: bool
  next_xid :: u32
  lossytest :: int
  retrans :: bool
  c_reachable :: bool
  chan :: "nat option"
  destroy_wait :: bool
  calls :: "(u32, caller) omap"
  xid_rep_window :: "u32 list"
  dup_req :: request
  xid_rep_done :: u32

definition rpcc_new :: "u32 \<Rightarrow> bool \<Rightarrow> int \<Rightarrow> rpcc" where
  "rpcc_new rnd retr lossy =
     \<lparr> clt_nonce = (if retr then rnd else 0), srv_nonce = 0, bind_done = False, next_xid = 1,
       lossytest = lossy, retrans = retr, c_reachable = True, chan = None, destroy_wait = False,
       calls = [], xid_rep_window = [0], dup_req = request_clear, xid_rep_done = - 1 \<rparr>"

subsection \<open>The window of received replies\<close>

fun insert_before :: "u32 \<Rightarrow> u32 list \<Rightarrow> u32 list" where
  "insert_before xid [] = [xid]"
| "insert_before xid (x # w) = (if x > xid then xid # x # w else x # insert_before xid w)"

text \<open>\<open>while (front() + 1 == *it) pop_front();\<close> where \<open>pre\<close> is the part of the list before \<open>it\<close>; when
  it is used up the front is \<open>*it\<close> itself and the condition is false.\<close>

fun pop_while :: "u32 list \<Rightarrow> u32 \<Rightarrow> u32 list" where
  "pop_while [] x = []"
| "pop_while (f # pre) x = (if f + 1 = x then pop_while pre x else f # pre)"

fun compress :: "u32 list \<Rightarrow> u32 list \<Rightarrow> u32 list" where
  "compress pre [] = pre"
| "compress pre (x # rest) = compress (pop_while pre x @ [x]) rest"

definition update_xid_rep :: "u32 list \<Rightarrow> u32 \<Rightarrow> u32 list" where
  "update_xid_rep w xid =
     (if xid \<le> hd w then w
      else let w = insert_before xid w in compress [hd w] (tl w))"

subsection \<open>Calls\<close>

definition call1_begin :: "rpcc \<Rightarrow> u32 \<Rightarrow> marshall \<Rightarrow> unmarshall \<Rightarrow> u32 + (caller \<times> req_header \<times> marshall \<times> rpcc)" where
  "call1_begin c proc req rep =
     (if proc \<noteq> rpc_bind \<and> \<not> bind_done c \<or> proc = rpc_bind \<and> bind_done c then Inl bind_failure
      else if destroy_wait c then Inl cancel_failure
      else let ca = \<lparr> ca_xid = next_xid c, ca_un = rep, ca_intret = 0, ca_done = False \<rparr>;
               c = c\<lparr> next_xid := next_xid c + 1, calls := omap_set (ca_xid ca) ca (calls c) \<rparr>;
               h = \<lparr> rq_xid = ca_xid ca, rq_proc = proc, rq_clt_nonce = clt_nonce c,
                     rq_srv_nonce = srv_nonce c, rq_xid_rep = hd (xid_rep_window c) \<rparr>
           in Inr (ca, h, pack_req_header req h, c))"

record iter_env =
  ie_chandead :: bool          \<comment> \<open>\<open>chan_->isdead()\<close> in \<open>get_refconn\<close>\<close>
  ie_newchan :: "nat option"   \<comment> \<open>the result of \<open>connect_to_dst\<close>\<close>
  ie_now :: timespec           \<comment> \<open>\<open>clock_gettime\<close>\<close>
  ie_done :: bool              \<comment> \<open>the reply arrived before the deadline\<close>
  ie_chdead :: bool            \<comment> \<open>\<open>ch->isdead()\<close> after the wait\<close>

record call1_st =
  l_transmit :: bool
  l_ch :: "nat option"
  l_curr_to :: int
  l_final :: timespec
  l_sent :: "(nat \<times> byte list) list"

definition get_refconn :: "rpcc \<Rightarrow> iter_env \<Rightarrow> nat option \<Rightarrow> nat option \<times> rpcc" where
  "get_refconn c e ch =
     (let c = (if chan c = None \<or> ie_chandead e then c\<lparr> chan := ie_newchan e \<rparr> else c)
      in (if chan c \<noteq> None then chan c else ch, c))"

text \<open>In lossy-network tests a remembered old request is sent again first.\<close>

definition take_forgot :: "rpcc \<Rightarrow> request \<times> rpcc" where
  "take_forgot c =
     (if request_isvalid (dup_req c) \<and> sint (xid_rep_done c) > sint (r_xid (dup_req c))
      then (dup_req c, c\<lparr> dup_req := request_clear \<rparr>)
      else (request_clear, c))"

definition call1_transmit :: "rpcc \<Rightarrow> byte list \<Rightarrow> iter_env \<Rightarrow> call1_st \<Rightarrow> call1_st \<times> rpcc" where
  "call1_transmit c req e l =
     (if l_transmit l then
        let (ch, c) = get_refconn c e (l_ch l);
            (sent, c) = (case ch of
               None \<Rightarrow> ([], c)
             | Some n \<Rightarrow>
                 if c_reachable c then
                   let (forgot, c) = take_forgot c
                   in ((if request_isvalid forgot then [(n, r_buf forgot)] else []) @ [(n, req)], c)
                 else ([], c))
        in (l\<lparr> l_ch := ch, l_sent := l_sent l @ sent, l_transmit := False \<rparr>, c)
      else (l, c))"

datatype call1_res = L_running | L_verify | L_exit bool call1_st rpcc

fun call1_loop :: "rpcc \<Rightarrow> byte list \<Rightarrow> iter_env list \<Rightarrow> call1_st \<Rightarrow> call1_res" where
  "call1_loop c req [] l = L_running"
| "call1_loop c req (e # es) l =
     (let (l, c) = call1_transmit c req e l
      in if tv_sec (l_final l) = 0 then L_exit False l c
         else case add_timespec (ie_now e) (l_curr_to l) of
           None \<Rightarrow> L_verify
         | Some nextdeadline \<Rightarrow>
             let l = (if cmp_timespec nextdeadline (l_final l) > 0
                      then l\<lparr> l_final := (l_final l)\<lparr> tv_sec := 0 \<rparr> \<rparr> else l)
             in if ie_done e then L_exit True l c
                else let l = (if retrans c \<and> (l_ch l = None \<or> ie_chdead e)
                              then l\<lparr> l_transmit := True \<rparr> else l)
                     in call1_loop c req es (l\<lparr> l_curr_to := 2 * l_curr_to l \<rparr>))"

definition to_max :: int where "to_max = 120000"
definition to_min :: int where "to_min = 1000"

definition call1_wait :: "rpcc \<Rightarrow> byte list \<Rightarrow> timespec \<Rightarrow> int \<Rightarrow> iter_env list \<Rightarrow> call1_res" where
  "call1_wait c req now to es =
     (case add_timespec now to of
        None \<Rightarrow> L_verify
      | Some fin \<Rightarrow> call1_loop c req es
          \<lparr> l_transmit = True, l_ch = None, l_curr_to = to_min, l_final = fin, l_sent = [] \<rparr>)"

text \<open>\<open>ca\<close> is the caller object as \<open>got_pdu\<close> or \<open>cancel\<close> left it.\<close>

definition call1_end :: "rpcc \<Rightarrow> caller \<Rightarrow> byte list \<Rightarrow> u32 \<Rightarrow> u32 \<times> rpcc" where
  "call1_end c ca req xid_rep =
     (let c = c\<lparr> calls := omap_erase (ca_xid ca) (calls c),
                 xid_rep_window := update_xid_rep (xid_rep_window c) (ca_xid ca) \<rparr>;
          c = (if ca_done ca \<and> lossytest c \<noteq> 0 then
                 let c = (if \<not> request_isvalid (dup_req c)
                          then c\<lparr> dup_req := \<lparr> r_buf = req, r_xid = ca_xid ca \<rparr> \<rparr> else c)
                 in if sint xid_rep > sint (xid_rep_done c) then c\<lparr> xid_rep_done := xid_rep \<rparr> else c
               else c)
      in (if ca_done ca then ca_intret ca else timeout_failure, c))"

definition c_got_pdu :: "rpcc \<Rightarrow> byte list \<Rightarrow> nat \<Rightarrow> rpcc" where
  "c_got_pdu c b sz =
     (let (h, rep) = unpack_reply_header (unmarshall_of_buf b sz)
      in if \<not> u_ok rep then c
         else
           let c = c\<lparr> xid_rep_window := update_xid_rep (xid_rep_window c) (rp_xid h) \<rparr>
           in case omap_find (calls c) (rp_xid h) of
                None \<Rightarrow> c
              | Some ca \<Rightarrow>
                  if \<not> ca_done ca then
                    c\<lparr> calls := omap_set (rp_xid h)
                         (ca\<lparr> ca_un := fst (u_take_in (ca_un ca) rep), ca_intret := rp_ret h,
                              ca_done := True \<rparr>) (calls c) \<rparr>
                  else c)"

text \<open>\<open>cancel\<close> before it waits for the callers to leave.\<close>

definition c_cancel :: "rpcc \<Rightarrow> rpcc" where
  "c_cancel c =
     (let c = c\<lparr> calls := map (\<lambda>(x, ca). (x, ca\<lparr> ca_done := True, ca_intret := cancel_failure \<rparr>)) (calls c) \<rparr>
      in if length (calls c) > 0 then c\<lparr> destroy_wait := True \<rparr> else c)"

definition c_bind_end :: "rpcc \<Rightarrow> u32 \<Rightarrow> u32 \<Rightarrow> rpcc" where
  "c_bind_end c ret r =
     (if ret = 0 then c\<lparr> bind_done := True, srv_nonce := r \<rparr> else c)"

section \<open>The window\<close>

text \<open>The replies a window stands for: every xid up to its front, and its other entries.\<close>

definition replied :: "u32 list \<Rightarrow> u32 set" where
  "replied w = {x. x \<le> hd w} \<union> set w"

definition window_ok :: "u32 list \<Rightarrow> bool" where
  "window_ok w = (w \<noteq> [] \<and> sorted w \<and> hd w + 1 \<notin> set w)"

lemma set_insert_before [simp]: "set (insert_before x w) = insert x (set w)"
  by (induction w) auto

lemma sorted_insert_before: "sorted w \<Longrightarrow> sorted (insert_before x w)"
  by (induction w) auto

lemma hd_insert_before: "w \<noteq> [] \<Longrightarrow> \<not> x \<le> hd w \<Longrightarrow> hd (insert_before x w) = hd w"
  by (cases w) auto

lemma pop_while_all: "(\<And>y. y \<in> set pre \<Longrightarrow> y + 1 = x) \<Longrightarrow> pop_while pre x = []"
  by (induction pre) auto

lemma le_plus_one_iff:
  fixes f y :: u32
  assumes "f \<le> f + 1"
  shows "y \<le> f + 1 \<longleftrightarrow> y \<le> f \<or> y = f + 1"
proof -
  have "f + 1 \<noteq> 0" using assms by (metis word_le_0_iff add.left_neutral one_neq_zero)
  then have "unat (f + 1) = unat f + 1" using unatSuc [of f] by (simp add: add.commute)
  then show ?thesis by (auto simp: word_le_nat_alt word_unat_eq_iff)
qed

lemma not_succ_le: "f \<noteq> - 1 \<Longrightarrow> \<not> f + 1 \<le> (f :: u32)"
proof -
  assume "f \<noteq> - 1"
  then have "f + 1 \<noteq> 0" by (metis add.commute add_eq_0_iff)
  then have "unat (f + 1) = unat f + 1" using unatSuc [of f] by (simp add: add.commute)
  then show ?thesis by (simp add: word_le_nat_alt)
qed

lemma compress_keeps:
  "sorted (pre @ rest) \<Longrightarrow> pre \<noteq> [] \<Longrightarrow> hd pre + 1 \<notin> set pre \<Longrightarrow>
   window_ok (compress pre rest) \<and> replied (compress pre rest) = replied (pre @ rest)"
proof (induction pre rest rule: compress.induct)
  case (1 pre)
  then show ?case by (simp add: window_ok_def)
next
  case (2 pre x rest)
  obtain f p where pre: "pre = f # p" using 2(3) by (cases pre) auto
  show ?case
  proof (cases "f + 1 = x")
    case False
    then have "pop_while pre x = pre" by (simp add: pre)
    then show ?thesis using 2 False by (simp add: pre)
  next
    case True
    have fx: "f \<le> f + 1" using 2(2) True by (auto simp: pre)
    have "y = f" if "y \<in> set pre" for y
    proof -
      have "f \<le> y" "y \<le> f + 1" "y \<noteq> f + 1" using 2(2,4) that True by (auto simp: pre sorted_append)
      then show ?thesis using le_plus_one_iff [OF fx, of y] by auto
    qed
    then have p: "pop_while pre x = []" and s: "set pre = {f}"
      using True by (auto intro!: pop_while_all simp: pre)
    have "window_ok (compress [x] rest) \<and> replied (compress [x] rest) = replied ([x] @ rest)"
      using 2 p by (simp add: pre sorted_append)
    moreover have "replied (x # rest) = replied (pre @ x # rest)"
      using s le_plus_one_iff [OF fx] True by (auto simp: replied_def pre)
    ultimately show ?thesis by (simp add: p)
  qed
qed

lemma update_xid_rep_keeps:
  assumes "window_ok w"
  shows "window_ok (update_xid_rep w x)" "replied (update_xid_rep w x) = insert x (replied w)"
proof -
  let ?w = "insert_before x w"
  have w: "w \<noteq> []" "sorted w" using assms by (simp_all add: window_ok_def)
  show "window_ok (update_xid_rep w x)" "replied (update_xid_rep w x) = insert x (replied w)"
  proof (atomize (full), cases "x \<le> hd w")
    case True
    then show "window_ok (update_xid_rep w x) \<and> replied (update_xid_rep w x) = insert x (replied w)"
      using assms by (auto simp: update_xid_rep_def replied_def)
  next
    case False
    have ne: "?w \<noteq> []" using set_insert_before [of x w] by (metis insert_not_empty list.set(1))
    have "window_ok (compress [hd ?w] (tl ?w)) \<and> replied (compress [hd ?w] (tl ?w)) = replied ([hd ?w] @ tl ?w)"
      using sorted_insert_before [OF w(2), of x] ne by (intro compress_keeps) auto
    then have "window_ok (update_xid_rep w x) \<and> replied (update_xid_rep w x) = replied ?w"
      using False ne by (simp add: update_xid_rep_def Let_def)
    moreover have "replied ?w = insert x (replied w)"
      using hd_insert_before [OF w(1) False] by (simp add: replied_def)
    ultimately show "window_ok (update_xid_rep w x) \<and> replied (update_xid_rep w x) = insert x (replied w)"
      by simp
  qed
qed



section \<open>The acknowledgement in a request\<close>

text \<open>
  The client as the other threads see it: calls begin, replies arrive, calls end (after a reply or
  a timeout).  The server only answers xids that were sent, so a reply carries an xid below
  \<open>next_xid\<close>; the wrap-around of the 32-bit counter is excluded.  \<open>headers\<close> records the request
  headers packed so far.
\<close>

inductive clt_reach :: "rpcc \<Rightarrow> req_header list \<Rightarrow> bool" where
  init: "clt_reach (rpcc_new rnd retr lossy) []"
| start: "clt_reach c hs \<Longrightarrow> next_xid c \<noteq> - 1 \<Longrightarrow>
    call1_begin c proc req rep = Inr (ca, h, req', c') \<Longrightarrow> clt_reach c' (h # hs)"
| reply: "clt_reach c hs \<Longrightarrow> rp_xid (fst (unpack_reply_header (unmarshall_of_buf b n))) < next_xid c \<Longrightarrow>
    clt_reach (c_got_pdu c b n) hs"
| finish: "clt_reach c hs \<Longrightarrow> ca_xid ca < next_xid c \<Longrightarrow> call1_end c ca req xr = (ret, c') \<Longrightarrow>
    clt_reach c' hs"
| bound: "clt_reach c hs \<Longrightarrow> clt_reach (c_bind_end c ret r) hs"
| cancelled: "clt_reach c hs \<Longrightarrow> clt_reach (c_cancel c) hs"

definition clt_inv :: "rpcc \<Rightarrow> bool" where
  "clt_inv c = (window_ok (xid_rep_window c) \<and> (\<forall>x \<in> replied (xid_rep_window c). x < next_xid c))"

lemma clt_inv_update:
  "clt_inv c \<Longrightarrow> x < next_xid c \<Longrightarrow> clt_inv (c\<lparr> xid_rep_window := update_xid_rep (xid_rep_window c) x \<rparr>)"
  by (auto simp: clt_inv_def update_xid_rep_keeps)

lemma clt_inv_cong:
  "xid_rep_window c = xid_rep_window c' \<Longrightarrow> next_xid c = next_xid c' \<Longrightarrow> clt_inv c = clt_inv c'"
  by (simp add: clt_inv_def)

lemma clt_inv_got_pdu:
  assumes "clt_inv c" "rp_xid (fst (unpack_reply_header (unmarshall_of_buf b n))) < next_xid c"
  shows "clt_inv (c_got_pdu c b n)"
proof -
  obtain h rep where u: "unpack_reply_header (unmarshall_of_buf b n) = (h, rep)" by fastforce
  let ?c = "c\<lparr> xid_rep_window := update_xid_rep (xid_rep_window c) (rp_xid h) \<rparr>"
  have i: "clt_inv ?c" using assms by (simp add: clt_inv_update u)
  have "c_got_pdu c b n = c \<or> (\<exists>cs. c_got_pdu c b n = ?c\<lparr> calls := cs \<rparr>) \<or> c_got_pdu c b n = ?c"
    by (auto simp: c_got_pdu_def u Let_def split: option.splits)
  then show ?thesis using assms(1) i clt_inv_cong [of "?c\<lparr> calls := _ \<rparr>" ?c] by auto
qed

lemma clt_inv_end:
  assumes "clt_inv c" "ca_xid ca < next_xid c" "call1_end c ca req xr = (ret, c')"
  shows "clt_inv c'"
proof -
  let ?c = "c\<lparr> xid_rep_window := update_xid_rep (xid_rep_window c) (ca_xid ca) \<rparr>"
  have "clt_inv ?c" using assms(1,2) by (rule clt_inv_update)
  moreover have "xid_rep_window c' = xid_rep_window ?c" "next_xid c' = next_xid ?c"
    using assms(3) by (auto simp: call1_end_def Let_def split: if_splits)
  ultimately show ?thesis using clt_inv_cong by blast
qed

lemma less_succ: "(x :: u32) < y \<Longrightarrow> y \<noteq> - 1 \<Longrightarrow> x < y + 1"
  using not_succ_le [of y] by auto

lemma clt_inv_begin:
  assumes "clt_inv c" "next_xid c \<noteq> - 1" "call1_begin c proc req rep = Inr (ca, h, req', c')"
  shows "clt_inv c'" "rq_xid_rep h < rq_xid h"
  using assms less_succ
  by (auto simp: clt_inv_def call1_begin_def Let_def replied_def window_ok_def split: if_splits)

lemma clt_reach_inv:
  "clt_reach c hs \<Longrightarrow> clt_inv c \<and> (\<forall>h \<in> set hs. rq_xid_rep h < rq_xid h)"
proof (induction rule: clt_reach.induct)
  case (init rnd retr lossy)
  then show ?case by (simp add: clt_inv_def rpcc_new_def window_ok_def replied_def)
next
  case (start c hs proc req rep ca h req' c')
  then show ?case using clt_inv_begin by auto
next
  case (reply c hs b n)
  then show ?case using clt_inv_got_pdu by auto
next
  case (finish c hs ca req xr ret c')
  then show ?case using clt_inv_end by blast
next
  case (bound c hs ret r)
  then show ?case by (simp add: c_bind_end_def clt_inv_def)
next
  case (cancelled c hs)
  then show ?case by (simp add: c_cancel_def clt_inv_def Let_def)
qed

text \<open>
  Every request header that the client packs acknowledges only earlier requests:
  \<open>xid_rep < xid\<close>.  This is the assertion that the server's \<open>checkduplicate_and_update\<close> makes on each
  request, so it never fails for requests of this client.
\<close>

theorem request_acks_earlier_xids:
  assumes "clt_reach c hs" "h \<in> set hs"
  shows "rq_xid_rep h < rq_xid h"
  using clt_reach_inv [OF assms(1)] assms(2) by blast

theorem request_acks_earlier_xids_witness:
  "\<exists>c h1 h2. clt_reach c [h2, h1] \<and> rq_xid h2 = 2 \<and> rq_xid_rep h2 = 1 \<and> rq_xid_rep h2 < rq_xid h2"
proof -
  let ?u = "unmarshall_of_buf [] 0" and ?m = "marshall_new (\<lambda>_. 0)"
  let ?c0 = "c_bind_end (rpcc_new 7 True 0) 0 9"
  let ?ca = "\<lparr> ca_xid = 1, ca_un = ?u, ca_intret = 0, ca_done = False \<rparr>"
  have r0: "clt_reach ?c0 []" by (intro clt_reach.bound clt_reach.init)
  obtain h1 m1 c1 where b1: "call1_begin ?c0 16 ?m ?u = Inr (?ca, h1, m1, c1)"
    and c1: "next_xid c1 = 2" "xid_rep_window c1 = [0]" "bind_done c1" "\<not> destroy_wait c1"
    by (simp add: Let_def call1_begin_def rpcc_new_def c_bind_end_def rpc_bind_def)
  have r1: "clt_reach c1 [h1]"
    by (rule clt_reach.start [OF r0 _ b1]) (simp add: rpcc_new_def c_bind_end_def)
  obtain ret c2 where e: "call1_end c1 ?ca [] 0 = (ret, c2)" by fastforce
  then have c2: "next_xid c2 = 2" "xid_rep_window c2 = [1]" "bind_done c2" "\<not> destroy_wait c2"
    using c1 by (auto simp: call1_end_def update_xid_rep_def word_le_nat_alt word_less_nat_alt)
  have r2: "clt_reach c2 [h1]" by (rule clt_reach.finish [OF r1 _ e]) (simp add: c1 word_less_nat_alt)
  obtain ca h2 m2 c3 where b2: "call1_begin c2 16 ?m ?u = Inr (ca, h2, m2, c3)"
    and h2: "rq_xid h2 = 2" "rq_xid_rep h2 = 1"
    using c2 by (simp add: Let_def call1_begin_def rpc_bind_def)
  have r3: "clt_reach c3 [h2, h1]" by (rule clt_reach.start [OF r2 _ b2]) (simp add: c2)
  have "rq_xid_rep h2 < rq_xid h2" by (rule request_acks_earlier_xids [OF r3]) simp
  with r3 h2 show ?thesis by blast
qed

section \<open>The retransmission loop\<close>

text \<open>A normalised time: \<open>tv_nsec\<close> may be exactly \<open>10 ^ 9\<close>, because \<open>add_timespec\<close> compares with
  \<open>>\<close>.\<close>

definition ts_ok :: "timespec \<Rightarrow> bool" where
  "ts_ok t = (0 \<le> tv_nsec t \<and> tv_nsec t \<le> 1000000000)"

lemma norm_nsec_ns:
  "0 \<le> tv_nsec t \<Longrightarrow> ns (norm_nsec t) = ns t \<and> ts_ok (norm_nsec t)"
proof (induction t rule: norm_nsec.induct)
  case (1 t)
  show ?case
  proof (cases "tv_nsec t > 1000000000")
    case True
    then show ?thesis using 1 by (subst (1 2) norm_nsec.simps) (simp add: ns_def)
  next
    case False
    then show ?thesis using 1 by (subst (1 2) norm_nsec.simps) (simp add: ts_ok_def)
  qed
qed

lemma add_timespec_ns:
  assumes "ts_ok a" "0 \<le> b"
  shows "\<exists>r. add_timespec a b = Some r \<and> ts_ok r \<and> ns r = ns a + b * 1000000"
proof -
  let ?r = "\<lparr> tv_sec = tv_sec a + b div 1000, tv_nsec = tv_nsec a + (b mod 1000) * 1000000 \<rparr>"
  have q: "b sdiv 1000 = b div 1000" "b smod 1000 = b mod 1000"
    using assms(2) by (cases "b = 0"; simp add: signed_divide_int_def signed_modulo_int_def)+
  have n: "0 \<le> tv_nsec ?r" using assms by (simp add: ts_ok_def)
  have "ns ?r = ns a + b * 1000000"
    by (simp add: ns_def) (use div_mult_mod_eq [of b 1000] in presburger)
  then show ?thesis using norm_nsec_ns [OF n] n by (simp add: add_timespec_def q)
qed

lemma cmp_timespec_ns: "ts_ok a \<Longrightarrow> ts_ok b \<Longrightarrow> ns b < ns a \<Longrightarrow> cmp_timespec a b > 0"
  by (simp add: cmp_timespec_def ns_def ts_ok_def)

lemma transmit_final [simp]:
  "l_final (fst (call1_transmit c req e l)) = l_final l" "l_curr_to (fst (call1_transmit c req e l)) = l_curr_to l"
  by (simp_all add: call1_transmit_def Let_def split: prod.splits option.splits)

text \<open>Once the final deadline has been used the next iteration leaves the loop; before that the
  timeout doubles, so after \<open>k\<close> iterations it exceeds the caller's.\<close>

lemma call1_loop_last:
  "tv_sec (l_final l) = 0 \<Longrightarrow> es \<noteq> [] \<Longrightarrow> \<exists>d l' c'. call1_loop c req es l = L_exit d l' c'"
  by (cases es) (auto simp add: split_beta Let_def)

lemma call1_loop_exits:
  assumes "ts_ok (l_final l)" "0 < l_curr_to l" "ns (l_final l) < start_ns + l_curr_to l * 2 ^ k * 1000000"
    and "\<forall>e \<in> set es. ts_ok (ie_now e) \<and> start_ns \<le> ns (ie_now e)" "k + 2 \<le> length es"
  shows "\<exists>d l' c'. call1_loop c req es l = L_exit d l' c'"
  using assms
proof (induction k arbitrary: l c es)
  case 0
  then obtain e es' where es: "es = e # es'" and ne: "es' \<noteq> []" by (cases es; cases "tl es") auto
  obtain r where r: "add_timespec (ie_now e) (l_curr_to l) = Some r" "ts_ok r"
      "ns r = ns (ie_now e) + l_curr_to l * 1000000"
    using add_timespec_ns [of "ie_now e" "l_curr_to l"] 0(2,4) es by auto
  have "cmp_timespec r (l_final l) > 0"
    using cmp_timespec_ns [OF r(2) 0(1)] r(3) 0(3,4) es by auto
  then show ?case using call1_loop_last [OF _ ne] by (auto simp: es r(1) split_beta Let_def)
next
  case (Suc k)
  then obtain e es' where es: "es = e # es'" "k + 2 \<le> length es'" by (cases es) auto
  obtain r where r: "add_timespec (ie_now e) (l_curr_to l) = Some r"
    using add_timespec_ns [of "ie_now e" "l_curr_to l"] Suc.prems(2,4) es by auto
  have ne: "es' \<noteq> []" using es(2) by auto
  have ih: "\<exists>d l' c'. call1_loop c1 req es' l1 = L_exit d l' c'"
    if "l_final l1 = l_final l" "l_curr_to l1 = 2 * l_curr_to l" for c1 l1
    using that Suc.prems es by (intro Suc.IH) (auto simp: algebra_simps)
  show ?case
    using ih call1_loop_last [OF _ ne] by (auto simp: es(1) r split_beta Let_def)
qed



end
