(* ===== verification/Paxos_Protocol.thy ===== *)
theory Paxos_Protocol
  imports Rpc_Call
begin

text \<open>
  The messages of the Paxos module (\<open>paxos_protocol.h\<close>) and their marshalling; each struct is a
  codec.  Proposal numbers are ordered as \<open>operator>\<close> of \<open>paxos.cc\<close> orders them: the number first,
  then the node name; this is the \<open>linorder\<close> instance.
\<close>

section \<open>Proposal numbers\<close>

datatype prop_t = Prop (pr_n: u32) (pr_m: string)

definition prop_gt :: "prop_t \<Rightarrow> prop_t \<Rightarrow> bool" where
  "prop_gt a b = (pr_n a > pr_n b \<or> pr_n a = pr_n b \<and> pr_m a > pr_m b)"

definition prop_ge :: "prop_t \<Rightarrow> prop_t \<Rightarrow> bool" where
  "prop_ge a b = (pr_n a > pr_n b \<or> pr_n a = pr_n b \<and> pr_m a \<ge> pr_m b)"

instantiation prop_t :: linorder
begin

definition less_eq_prop_t :: "prop_t \<Rightarrow> prop_t \<Rightarrow> bool" where
  "less_eq_prop_t a b = prop_ge b a"

definition less_prop_t :: "prop_t \<Rightarrow> prop_t \<Rightarrow> bool" where
  "less_prop_t a b = prop_gt b a"

instance
proof
  fix x y z :: prop_t
  show "(x < y) = (x \<le> y \<and> \<not> y \<le> x)"
    by (auto simp: less_prop_t_def less_eq_prop_t_def prop_gt_def prop_ge_def)
  show "x \<le> x" by (simp add: less_eq_prop_t_def prop_ge_def)
  show "x \<le> y \<Longrightarrow> y \<le> z \<Longrightarrow> x \<le> z" by (auto simp: less_eq_prop_t_def prop_ge_def)
  show "x \<le> y \<Longrightarrow> y \<le> x \<Longrightarrow> x = y"
    by (cases x; cases y) (auto simp: less_eq_prop_t_def prop_ge_def)
  show "x \<le> y \<or> y \<le> x" by (auto simp: less_eq_prop_t_def prop_ge_def)
qed

end

lemma prop_less_iff: "Prop n m < Prop n' m' \<longleftrightarrow> n < n' \<or> n = n' \<and> m < m'"
  by (auto simp: less_prop_t_def prop_gt_def)

lemma prop_less_sel: "a < b \<longleftrightarrow> pr_n a < pr_n b \<or> pr_n a = pr_n b \<and> pr_m a < pr_m b"
  by (auto simp: less_prop_t_def prop_gt_def)

lemma prop_gt_less [simp]: "prop_gt a b = (b < a)"
  by (simp add: less_prop_t_def)

lemma prop_ge_le [simp]: "prop_ge a b = (b \<le> a)"
  by (simp add: less_eq_prop_t_def)

section \<open>Messages\<close>

record preparearg =
  pa_instance :: u32
  pa_n :: prop_t

record prepareres =
  ps_oldinstance :: bool
  ps_accept :: bool
  ps_n_a :: prop_t
  ps_v_a :: string

record acceptarg =
  aa_instance :: u32
  aa_n :: prop_t
  aa_v :: string

record decidearg =
  da_instance :: u32
  da_v :: string

definition m_prop :: "marshall \<Rightarrow> prop_t \<Rightarrow> marshall" where
  "m_prop m a = (let m = m_uint m (pr_n a) in m_string m (pr_m a))"

definition u_prop :: "unmarshall \<Rightarrow> (prop_t \<times> unmarshall) option" where
  "u_prop u = do { (n, u) \<leftarrow> u_uint u; (m, u) \<leftarrow> u_string u; Some (Prop n m, u) }"

definition m_preparearg :: "marshall \<Rightarrow> preparearg \<Rightarrow> marshall" where
  "m_preparearg m a = (let m = m_uint m (pa_instance a) in m_prop m (pa_n a))"

definition u_preparearg :: "unmarshall \<Rightarrow> (preparearg \<times> unmarshall) option" where
  "u_preparearg u = do {
     (i, u) \<leftarrow> u_uint u; (n, u) \<leftarrow> u_prop u; Some (\<lparr> pa_instance = i, pa_n = n \<rparr>, u) }"

definition m_prepareres :: "marshall \<Rightarrow> prepareres \<Rightarrow> marshall" where
  "m_prepareres m r =
     (let m = m_bool m (ps_oldinstance r); m = m_bool m (ps_accept r); m = m_prop m (ps_n_a r)
      in m_string m (ps_v_a r))"

definition u_prepareres :: "unmarshall \<Rightarrow> (prepareres \<times> unmarshall) option" where
  "u_prepareres u = do {
     (old, u) \<leftarrow> u_bool u; (acc, u) \<leftarrow> u_bool u; (n, u) \<leftarrow> u_prop u; (v, u) \<leftarrow> u_string u;
     Some (\<lparr> ps_oldinstance = old, ps_accept = acc, ps_n_a = n, ps_v_a = v \<rparr>, u) }"

definition m_acceptarg :: "marshall \<Rightarrow> acceptarg \<Rightarrow> marshall" where
  "m_acceptarg m a =
     (let m = m_uint m (aa_instance a); m = m_prop m (aa_n a) in m_string m (aa_v a))"

definition u_acceptarg :: "unmarshall \<Rightarrow> (acceptarg \<times> unmarshall) option" where
  "u_acceptarg u = do {
     (i, u) \<leftarrow> u_uint u; (n, u) \<leftarrow> u_prop u; (v, u) \<leftarrow> u_string u;
     Some (\<lparr> aa_instance = i, aa_n = n, aa_v = v \<rparr>, u) }"

definition m_decidearg :: "marshall \<Rightarrow> decidearg \<Rightarrow> marshall" where
  "m_decidearg m a = (let m = m_uint m (da_instance a) in m_string m (da_v a))"

definition u_decidearg :: "unmarshall \<Rightarrow> (decidearg \<times> unmarshall) option" where
  "u_decidearg u = do {
     (i, u) \<leftarrow> u_uint u; (v, u) \<leftarrow> u_string u; Some (\<lparr> da_instance = i, da_v = v \<rparr>, u) }"

section \<open>They are codecs\<close>

definition enc_prop :: "prop_t \<Rightarrow> byte list" where
  "enc_prop a = enc_uint (pr_n a) @ enc_string (pr_m a)"

definition enc_preparearg :: "preparearg \<Rightarrow> byte list" where
  "enc_preparearg a = enc_uint (pa_instance a) @ enc_prop (pa_n a)"

definition enc_prepareres :: "prepareres \<Rightarrow> byte list" where
  "enc_prepareres r =
     enc_bool (ps_oldinstance r) @ enc_bool (ps_accept r) @ enc_prop (ps_n_a r) @ enc_string (ps_v_a r)"

definition enc_acceptarg :: "acceptarg \<Rightarrow> byte list" where
  "enc_acceptarg a = enc_uint (aa_instance a) @ enc_prop (aa_n a) @ enc_string (aa_v a)"

definition enc_decidearg :: "decidearg \<Rightarrow> byte list" where
  "enc_decidearg a = enc_uint (da_instance a) @ enc_string (da_v a)"

text \<open>Each struct is a nested pair seen through its constructor.\<close>

interpretation propnum: codec m_prop u_prop enc_prop "\<lambda>_. True"
  by (rule codec_via [OF codec_pair [OF uint.codec_axioms str.codec_axioms],
        of _ "\<lambda>a. (pr_n a, pr_m a)" _ "\<lambda>(n, m). Prop n m"])
    (simp_all add: m_prop_def u_prop_def enc_prop_def struct_simps)

interpretation preparearg: codec m_preparearg u_preparearg enc_preparearg "\<lambda>_. True"
  by (rule codec_via [OF codec_pair [OF uint.codec_axioms propnum.codec_axioms],
        of _ "\<lambda>a. (pa_instance a, pa_n a)" _ "\<lambda>(i, n). \<lparr> pa_instance = i, pa_n = n \<rparr>"])
    (simp_all add: m_preparearg_def u_preparearg_def enc_preparearg_def struct_simps)

interpretation prepareres: codec m_prepareres u_prepareres enc_prepareres "\<lambda>_. True"
  by (rule codec_via [OF codec_pair [OF bool.codec_axioms codec_pair [OF bool.codec_axioms
          codec_pair [OF propnum.codec_axioms str.codec_axioms]]],
        of _ "\<lambda>r. (ps_oldinstance r, ps_accept r, ps_n_a r, ps_v_a r)" _
          "\<lambda>(old, acc, n, v). \<lparr> ps_oldinstance = old, ps_accept = acc, ps_n_a = n, ps_v_a = v \<rparr>"])
    (simp_all add: m_prepareres_def u_prepareres_def enc_prepareres_def struct_simps)

interpretation acceptarg: codec m_acceptarg u_acceptarg enc_acceptarg "\<lambda>_. True"
  by (rule codec_via [OF codec_pair [OF uint.codec_axioms codec_pair [OF propnum.codec_axioms str.codec_axioms]],
        of _ "\<lambda>a. (aa_instance a, aa_n a, aa_v a)" _ "\<lambda>(i, n, v). \<lparr> aa_instance = i, aa_n = n, aa_v = v \<rparr>"])
    (simp_all add: m_acceptarg_def u_acceptarg_def enc_acceptarg_def struct_simps)

interpretation decidearg: codec m_decidearg u_decidearg enc_decidearg "\<lambda>_. True"
  by (rule codec_via [OF codec_pair [OF uint.codec_axioms str.codec_axioms],
        of _ "\<lambda>a. (da_instance a, da_v a)" _ "\<lambda>(i, v). \<lparr> da_instance = i, da_v = v \<rparr>"])
    (simp_all add: m_decidearg_def u_decidearg_def enc_decidearg_def struct_simps)

end
