(* ===== verification/Text_Io.thy ===== *)
theory Text_Io
  imports Prelude
begin

text \<open>
  The formatted text streams of the C++ library as far as the code uses them: \<open><<\<close> on unsigned
  numbers, \<open>>>\<close> on strings and unsigned numbers, \<open>get\<close> and \<open>getline\<close>.  An input stream is the text
  that is left and the state that \<open>operator bool\<close> tests; once it has failed, every read fails.
\<close>

section \<open>Output of numbers\<close>

definition digit_char :: "nat \<Rightarrow> char" where
  "digit_char d = char_of (48 + d)"

fun show_nat :: "nat \<Rightarrow> string" where
  "show_nat n = (if n < 10 then [digit_char n] else show_nat (n div 10) @ [digit_char (n mod 10)])"

declare show_nat.simps [simp del]

definition show_u32 :: "u32 \<Rightarrow> string" where
  "show_u32 x = show_nat (unat x)"

definition show_u64 :: "u64 \<Rightarrow> string" where
  "show_u64 x = show_nat (unat x)"

section \<open>Input\<close>

definition is_space :: "char \<Rightarrow> bool" where
  "is_space c = (c = CHR '' '' \<or> (9 \<le> (of_char c :: nat) \<and> (of_char c :: nat) \<le> 13))"

definition newline :: char where
  "newline = CHR 0x0A"

definition is_digit :: "char \<Rightarrow> bool" where
  "is_digit c = (48 \<le> (of_char c :: nat) \<and> (of_char c :: nat) \<le> 57)"

definition digit_val :: "char \<Rightarrow> nat" where
  "digit_val c = of_char c - 48"

definition parse_nat :: "string \<Rightarrow> nat" where
  "parse_nat s = foldl (\<lambda>n c. 10 * n + digit_val c) 0 s"

record istream =
  is_rest :: string
  is_good :: bool

definition istream_of :: "string \<Rightarrow> istream" where
  "istream_of s = \<lparr> is_rest = s, is_good = True \<rparr>"

definition skip_ws :: "string \<Rightarrow> string" where
  "skip_ws s = dropWhile is_space s"

text \<open>\<open>>> std::string\<close> skips white space; at the end of the text it fails and leaves the variable as
  it was.\<close>

definition read_word :: "istream \<Rightarrow> string \<Rightarrow> string \<times> istream" where
  "read_word i old =
     (if \<not> is_good i then (old, i)
      else let s = skip_ws (is_rest i);
               w = takeWhile (\<lambda>c. \<not> is_space c) s
           in if w = [] then (old, \<lparr> is_rest = s, is_good = False \<rparr>)
              else (w, \<lparr> is_rest = drop (length w) s, is_good = True \<rparr>))"

text \<open>\<open>>> unsigned\<close>: an optional sign and digits.  At the end of the text the variable stays as it was; no
  digits give 0 and a failure, a number that does not fit gives the largest value and a failure.\<close>

fun strip_sign :: "string \<Rightarrow> bool \<times> string" where
  "strip_sign [] = (False, [])"
| "strip_sign (c # s) = (if c = CHR ''-'' then (True, s) else if c = CHR ''+'' then (False, s) else (False, c # s))"

definition read_unsigned :: "istream \<Rightarrow> 'a::len word \<Rightarrow> 'a word \<times> istream" where
  "read_unsigned i old =
     (if \<not> is_good i then (old, i)
      else if skip_ws (is_rest i) = [] then (old, \<lparr> is_rest = [], is_good = False \<rparr>)
      else let (neg, s) = strip_sign (skip_ws (is_rest i));
               w = takeWhile is_digit s;
               rest = drop (length w) s
           in if w = [] then (0, \<lparr> is_rest = rest, is_good = False \<rparr>)
              else if parse_nat w \<ge> 2 ^ LENGTH('a) then (- 1, \<lparr> is_rest = rest, is_good = False \<rparr>)
              else (if neg then - of_nat (parse_nat w) else of_nat (parse_nat w),
                    \<lparr> is_rest = rest, is_good = True \<rparr>))"

definition read_u32 :: "istream \<Rightarrow> u32 \<Rightarrow> u32 \<times> istream" where
  "read_u32 = read_unsigned"

definition read_u64 :: "istream \<Rightarrow> u64 \<Rightarrow> u64 \<times> istream" where
  "read_u64 = read_unsigned"

definition get_char :: "istream \<Rightarrow> istream" where
  "get_char i =
     (if \<not> is_good i then i
      else case is_rest i of [] \<Rightarrow> i\<lparr> is_good := False \<rparr> | c # s \<Rightarrow> i\<lparr> is_rest := s \<rparr>)"

definition read_line :: "istream \<Rightarrow> string \<Rightarrow> string \<times> istream" where
  "read_line i old =
     (if \<not> is_good i then (old, i)
      else case is_rest i of
        [] \<Rightarrow> ([], i\<lparr> is_good := False \<rparr>)
      | _ \<Rightarrow> let w = takeWhile (\<lambda>c. c \<noteq> newline) (is_rest i)
             in (w, i\<lparr> is_rest := drop (length w + 1) (is_rest i) \<rparr>))"

section \<open>Reading back what was written\<close>

lemma of_char_digit [simp]: "d < 10 \<Longrightarrow> (of_char (digit_char d) :: nat) = 48 + d"
  by (simp add: digit_char_def of_char_of)

lemma digit_char_props: "d < 10 \<Longrightarrow> is_digit (digit_char d) \<and> digit_val (digit_char d) = d"
  by (simp add: is_digit_def digit_val_def)

lemma digit_not_space: "is_digit c \<Longrightarrow> \<not> is_space c"
  by (auto simp: is_digit_def is_space_def)

lemma show_nat_digits: "list_all is_digit (show_nat n) \<and> show_nat n \<noteq> []"
proof (induction n rule: show_nat.induct)
  case (1 n)
  then show ?case
    by (cases "n < 10") (simp_all add: show_nat.simps [of n] digit_char_props)
qed

lemma parse_nat_snoc: "parse_nat (s @ [c]) = 10 * parse_nat s + digit_val c"
  by (simp add: parse_nat_def)

lemma parse_show_nat: "parse_nat (show_nat n) = n"
proof (induction n rule: show_nat.induct)
  case (1 n)
  show ?case
  proof (cases "n < 10")
    case True
    then show ?thesis by (simp add: show_nat.simps [of n] parse_nat_def digit_char_props)
  next
    case False
    then show ?thesis
      using 1 by (simp add: show_nat.simps [of n] parse_nat_snoc digit_char_props)
  qed
qed

lemma newline_space [simp]: "is_space newline" "\<not> is_digit newline" "\<not> is_digit (CHR '' '')" "is_space (CHR '' '')"
  by (simp_all add: is_space_def newline_def is_digit_def)

lemma skip_ws_word: "w \<noteq> [] \<Longrightarrow> list_all (\<lambda>c. \<not> is_space c) w \<Longrightarrow> skip_ws (w @ s) = w @ s"
  by (cases w) (simp_all add: skip_ws_def)

lemma skip_ws_space [simp]: "skip_ws (CHR '' '' # s) = skip_ws s"
  by (simp add: skip_ws_def)

lemma takeWhile_sep: "list_all P w \<Longrightarrow> \<not> P c \<Longrightarrow> takeWhile P (w @ c # s) = w"
  by (induction w) auto

definition is_word :: "string \<Rightarrow> bool" where
  "is_word w = (w \<noteq> [] \<and> list_all (\<lambda>c. \<not> is_space c) w)"

lemma read_word_word:
  assumes "is_word w" "is_space c"
  shows "read_word \<lparr> is_rest = w @ c # s, is_good = True \<rparr> old = (w, \<lparr> is_rest = c # s, is_good = True \<rparr>)"
    and "read_word \<lparr> is_rest = CHR '' '' # w @ c # s, is_good = True \<rparr> old = (w, \<lparr> is_rest = c # s, is_good = True \<rparr>)"
  using assms by (simp_all add: read_word_def is_word_def skip_ws_word takeWhile_sep)

lemma read_unsigned_show:
  fixes n :: "'a::len word"
  assumes "s = [] \<or> \<not> is_digit (hd s)"
  shows "read_unsigned \<lparr> is_rest = show_nat (unat n) @ s, is_good = True \<rparr> old = (n, \<lparr> is_rest = s, is_good = True \<rparr>)"
    and "read_unsigned \<lparr> is_rest = CHR '' '' # show_nat (unat n) @ s, is_good = True \<rparr> old = (n, \<lparr> is_rest = s, is_good = True \<rparr>)"
proof -
  let ?w = "show_nat (unat n)"
  have d: "list_all is_digit ?w" "?w \<noteq> []" using show_nat_digits by auto
  then have "list_all (\<lambda>c. \<not> is_space c) ?w" by (auto simp: list_all_iff dest: digit_not_space)
  then have w: "skip_ws (?w @ s) = ?w @ s" using d(2) by (simp add: skip_ws_word)
  have g: "strip_sign (?w @ s) = (False, ?w @ s)" using d by (cases ?w) (auto simp: is_digit_def)
  have t: "takeWhile is_digit (?w @ s) = ?w"
    using d(1) assms by (cases s) (auto simp: takeWhile_sep takeWhile_eq_all_conv list_all_iff)
  have "\<not> 2 ^ LENGTH('a) \<le> unat n" by (simp only: not_le unsigned_less)
  then show "read_unsigned \<lparr> is_rest = ?w @ s, is_good = True \<rparr> old = (n, \<lparr> is_rest = s, is_good = True \<rparr>)"
    "read_unsigned \<lparr> is_rest = CHR '' '' # ?w @ s, is_good = True \<rparr> old = (n, \<lparr> is_rest = s, is_good = True \<rparr>)"
    using d(2) by (simp_all add: read_unsigned_def w g t Let_def parse_show_nat)
qed

lemma read_u32_show:
  assumes "\<not> is_digit c"
  shows "read_u32 \<lparr> is_rest = CHR '' '' # show_u32 n @ c # s, is_good = True \<rparr> old = (n, \<lparr> is_rest = c # s, is_good = True \<rparr>)"
  using read_unsigned_show(2) [of "c # s" n old] assms by (simp add: read_u32_def show_u32_def)

lemma read_line_line:
  "newline \<notin> set v \<Longrightarrow>
   read_line \<lparr> is_rest = v @ newline # s, is_good = True \<rparr> old = (v, \<lparr> is_rest = s, is_good = True \<rparr>)"
  by (cases v) (auto simp: read_line_def takeWhile_sep list_all_iff
      takeWhile_append takeWhile_eq_all_conv intro: takeWhile_sep split: list.splits)

lemma show_u32_word: "is_word (show_u32 n)"
  using show_nat_digits digit_not_space by (auto simp: is_word_def show_u32_def list_all_iff)

end
