(* ===== verification/Paxos_Acceptor.thy ===== *)
theory Paxos_Acceptor
  imports Paxos_Protocol Text_Io
begin

text \<open>
  The acceptor of \<open>paxos.cc\<close> with its durable log (\<open>log.cc\<close>): the three request handlers, the commit
  of an instance, and the text log that they write and that \<open>logread\<close> replays.  The log file is the
  field \<open>a_log\<close>; \<open>VERIFY\<close> failures are \<open>None\<close>; the upcall \<open>cfg->paxos_commit\<close> that a commit makes is
  returned as a list of (instance, value) pairs.
\<close>

section \<open>The log\<close>

record acceptor =
  a_me :: string
  a_n_h :: prop_t
  a_n_a :: prop_t
  a_v_a :: string
  a_instance_h :: u32
  a_values :: "(u32, string) omap"
  a_log :: string

definition loginstance :: "string \<Rightarrow> u32 \<Rightarrow> string \<Rightarrow> string" where
  "loginstance f inst v = f @ ''done'' @ '' '' @ show_u32 inst @ '' '' @ v @ [newline]"

definition logprop :: "string \<Rightarrow> prop_t \<Rightarrow> string" where
  "logprop f n_h = f @ ''propseen'' @ '' '' @ show_u32 (pr_n n_h) @ '' '' @ pr_m n_h @ [newline]"

definition logaccept :: "string \<Rightarrow> prop_t \<Rightarrow> string \<Rightarrow> string" where
  "logaccept f n v =
     f @ ''accepted'' @ '' '' @ show_u32 (pr_n n) @ '' '' @ pr_m n @ '' '' @ v @ [newline]"

text \<open>One record of the log: the body of the loop of \<open>logread\<close> after the type has been read.\<close>

definition log_record :: "string \<Rightarrow> istream \<Rightarrow> acceptor \<Rightarrow> (acceptor \<times> istream) option" where
  "log_record type from pxs =
     (if type = ''done'' then
        let (inst, from) = read_u32 from 0;
            from = get_char from;
            (v, from) = read_line from []
        in Some (pxs\<lparr> a_values := omap_set inst v (a_values pxs), a_instance_h := inst, a_v_a := [],
                      a_n_h := Prop 0 (pr_m (a_n_h pxs)), a_n_a := Prop 0 (pr_m (a_n_a pxs)) \<rparr>, from)
      else if type = ''propseen'' then
        let (n, from) = read_u32 from (pr_n (a_n_h pxs));
            (m, from) = read_word from (pr_m (a_n_h pxs))
        in Some (pxs\<lparr> a_n_h := Prop n m \<rparr>, from)
      else if type = ''accepted'' then
        let (n, from) = read_u32 from (pr_n (a_n_a pxs));
            (m, from) = read_word from (pr_m (a_n_a pxs));
            from = get_char from;
            (v, from) = read_line from []
        in Some (pxs\<lparr> a_n_a := Prop n m, a_v_a := v \<rparr>, from)
      else None)"

lemma length_skip_ws: "length (skip_ws s) \<le> length s"
  by (simp add: skip_ws_def length_dropWhile_le)

lemma length_strip_sign: "length (snd (strip_sign s)) \<le> length s"
  by (cases s) simp_all

lemma read_le:
  "length (is_rest (snd (read_u32 i x))) \<le> length (is_rest i)"
  "length (is_rest (snd (read_word i w))) \<le> length (is_rest i)"
  "length (is_rest (get_char i)) \<le> length (is_rest i)"
  "length (is_rest (snd (read_line i w))) \<le> length (is_rest i)"
  using length_skip_ws [of "is_rest i"] length_strip_sign [of "skip_ws (is_rest i)"]
  by (auto simp: read_u32_def read_unsigned_def read_word_def get_char_def read_line_def Let_def split: prod.splits list.splits)

lemma read_word_less:
  assumes "read_word i w = (t, i')" "is_good i'"
  shows "length (is_rest i') < length (is_rest i)"
proof -
  have "length (drop (length x) (skip_ws s)) < length s" if "x \<noteq> []" "x = takeWhile P (skip_ws s)" for x s P
  proof -
    have "length x \<le> length (skip_ws s)" by (simp add: that(2) length_takeWhile_le)
    with that(1) length_skip_ws [of s] show ?thesis by (cases x) auto
  qed
  then show ?thesis using assms by (auto simp: read_word_def Let_def split: if_splits)
qed

lemma log_record_le:
  assumes "log_record type from pxs = Some (pxs', from')"
  shows "length (is_rest from') \<le> length (is_rest from)"
proof -
  have w: "length (is_rest (snd (read_word (snd (read_u32 from x)) w))) \<le> length (is_rest from)" for x w
    using read_le(2) read_le(1) by (rule order.trans)
  have l: "length (is_rest (snd (read_line (get_char i) v))) \<le> length (is_rest i)" for i v
    using read_le(4) read_le(3) by (rule order.trans)
  note d = order.trans [OF l read_le(1)] and a = order.trans [OF l w]
  show ?thesis
    using assms d w a by (auto simp: log_record_def Let_def split_beta split: if_splits)
qed

function logread_loop :: "istream \<Rightarrow> acceptor \<Rightarrow> acceptor option" where
  "logread_loop from pxs =
     (let (type, from') = read_word from []
      in if \<not> is_good from' then Some pxs
         else case log_record type from' pxs of
                None \<Rightarrow> None
              | Some (pxs', from'') \<Rightarrow> logread_loop from'' pxs')"
  by pat_completeness auto
termination
  by (relation "measure (\<lambda>(i, _). length (is_rest i))")
    (auto dest!: log_record_le read_word_less [OF sym])

declare logread_loop.simps [simp del]

definition logread :: "acceptor \<Rightarrow> acceptor option" where
  "logread pxs = logread_loop (istream_of (a_log pxs)) pxs"

section \<open>The acceptor\<close>

definition acceptor_init :: "string \<Rightarrow> string \<Rightarrow> acceptor" where
  "acceptor_init me disk =
     \<lparr> a_me = me, a_n_h = Prop 0 me, a_n_a = Prop 0 me, a_v_a = [], a_instance_h = 0, a_values = [],
       a_log = disk \<rparr>"

definition acceptor_new :: "bool \<Rightarrow> string \<Rightarrow> string \<Rightarrow> string \<Rightarrow> acceptor option" where
  "acceptor_new first me v disk =
     map_option (\<lambda>acc.
       if a_instance_h acc = 0 \<and> first
       then acc\<lparr> a_values := omap_set 1 v (a_values acc), a_log := loginstance (a_log acc) 1 v,
                 a_instance_h := 1 \<rparr>
       else acc) (logread (acceptor_init me disk))"

text \<open>\<open>r\<close> is the reply object as the RPC layer constructs it.\<close>

definition preparereq :: "acceptor \<Rightarrow> preparearg \<Rightarrow> prepareres \<Rightarrow> prepareres \<times> acceptor" where
  "preparereq acc a r =
     (let r = r\<lparr> ps_oldinstance := False \<rparr>
      in if pa_instance a \<le> a_instance_h acc then
           (r\<lparr> ps_oldinstance := True, ps_v_a := omap_get [] (a_values acc) (pa_instance a) \<rparr>,
            acc\<lparr> a_values := omap_touch [] (pa_instance a) (a_values acc) \<rparr>)
         else if prop_gt (pa_n a) (a_n_h acc) then
           let acc = acc\<lparr> a_n_h := pa_n a \<rparr>
           in (r\<lparr> ps_accept := True, ps_n_a := a_n_a acc, ps_v_a := a_v_a acc \<rparr>,
               acc\<lparr> a_log := logprop (a_log acc) (a_n_h acc) \<rparr>)
         else (r\<lparr> ps_accept := False \<rparr>, acc))"

definition acceptreq :: "acceptor \<Rightarrow> acceptarg \<Rightarrow> bool \<times> acceptor" where
  "acceptreq acc a =
     (if prop_ge (aa_n a) (a_n_h acc) then
        let acc = acc\<lparr> a_n_a := aa_n a, a_v_a := aa_v a \<rparr>
        in (True, acc\<lparr> a_log := logaccept (a_log acc) (a_n_a acc) (a_v_a acc) \<rparr>)
      else (False, acc))"

definition commit_wo :: "acceptor \<Rightarrow> u32 \<Rightarrow> string \<Rightarrow> acceptor \<times> (u32 \<times> string) list" where
  "commit_wo acc inst v =
     (if inst > a_instance_h acc then
        (acc\<lparr> a_values := omap_set inst v (a_values acc), a_log := loginstance (a_log acc) inst v,
              a_instance_h := inst, a_n_h := Prop 0 (a_me acc), a_n_a := Prop 0 (a_me acc), a_v_a := [] \<rparr>,
         [(inst, v)])
      else (acc, []))"

definition decidereq :: "acceptor \<Rightarrow> decidearg \<Rightarrow> (acceptor \<times> (u32 \<times> string) list) option" where
  "decidereq acc a =
     (if da_instance a = a_instance_h acc + 1 then
        if a_v_a acc = da_v a then Some (commit_wo acc (da_instance a) (a_v_a acc)) else None
      else if da_instance a \<le> a_instance_h acc then Some (acc, [])
      else None)"

text \<open>\<open>dump\<close> copies the file line by line.\<close>

function dump_lines :: "istream \<Rightarrow> string \<Rightarrow> string" where
  "dump_lines from res =
     (let (v, from') = read_line from []
      in if \<not> is_good from' then res else dump_lines from' (res @ v @ [newline]))"
  by pat_completeness auto
termination
  by (relation "measure (\<lambda>(i, _). length (is_rest i))")
    (auto simp: read_line_def Let_def split: if_splits list.splits)

declare dump_lines.simps [simp del]

definition acceptor_dump :: "acceptor \<Rightarrow> string" where
  "acceptor_dump acc = dump_lines (istream_of (a_log acc)) []"

definition acceptor_restore :: "acceptor \<Rightarrow> string \<Rightarrow> acceptor option" where
  "acceptor_restore acc s = logread (acc\<lparr> a_log := s \<rparr>)"

section \<open>The log and the state\<close>

datatype logrec = R_done u32 string | R_prop prop_t | R_acc prop_t string

fun print_rec :: "logrec \<Rightarrow> string" where
  "print_rec (R_done i v) = loginstance [] i v"
| "print_rec (R_prop n) = logprop [] n"
| "print_rec (R_acc n v) = logaccept [] n v"

fun apply_rec :: "acceptor \<Rightarrow> logrec \<Rightarrow> acceptor" where
  "apply_rec pxs (R_done i v) =
     pxs\<lparr> a_values := omap_set i v (a_values pxs), a_instance_h := i, a_v_a := [],
          a_n_h := Prop 0 (pr_m (a_n_h pxs)), a_n_a := Prop 0 (pr_m (a_n_a pxs)) \<rparr>"
| "apply_rec pxs (R_prop n) = pxs\<lparr> a_n_h := n \<rparr>"
| "apply_rec pxs (R_acc n v) = pxs\<lparr> a_n_a := n, a_v_a := v \<rparr>"

fun rec_ok :: "logrec \<Rightarrow> bool" where
  "rec_ok (R_done i v) = (newline \<notin> set v)"
| "rec_ok (R_prop n) = is_word (pr_m n)"
| "rec_ok (R_acc n v) = (is_word (pr_m n) \<and> newline \<notin> set v)"

lemma read_word_newline:
  "read_word \<lparr> is_rest = newline # s, is_good = True \<rparr> old = read_word \<lparr> is_rest = s, is_good = True \<rparr> old"
  by (simp add: read_word_def skip_ws_def)

lemma logread_newline:
  "logread_loop \<lparr> is_rest = newline # s, is_good = True \<rparr> pxs = logread_loop \<lparr> is_rest = s, is_good = True \<rparr> pxs"
  by (subst (1 2) logread_loop.simps) (simp add: read_word_newline)

lemma logread_rec:
  assumes "rec_ok r"
  shows "logread_loop \<lparr> is_rest = print_rec r @ s, is_good = True \<rparr> pxs =
         logread_loop \<lparr> is_rest = s, is_good = True \<rparr> (apply_rec pxs r)"
proof -
  have word: "is_word w \<Longrightarrow> read_word \<lparr> is_rest = w @ CHR '' '' # t, is_good = True \<rparr> old =
      (w, \<lparr> is_rest = CHR '' '' # t, is_good = True \<rparr>)" for w t old
    by (rule read_word_word(1)) simp_all
  have types: "is_word ''done''" "is_word ''propseen''" "is_word ''accepted''"
    by (simp_all add: is_word_def is_space_def)
  note reads = word [OF types(1)] word [OF types(2)] word [OF types(3)] read_u32_show read_line_line
    read_word_word(2)
  show ?thesis
  proof (cases r)
    case (R_done i v)
    then show ?thesis
      using assms reads(1) by (subst logread_loop.simps)
        (simp add: loginstance_def log_record_def read_u32_show get_char_def read_line_line)
  next
    case (R_prop n)
    then show ?thesis
      using assms reads(2) by (subst logread_loop.simps)
        (simp add: logprop_def log_record_def read_u32_show read_word_word(2) logread_newline)
  next
    case (R_acc n v)
    then show ?thesis
      using assms reads(3) by (subst logread_loop.simps)
        (simp add: logaccept_def log_record_def read_u32_show read_word_word(2) get_char_def read_line_line)
  qed
qed

lemma logread_end: "logread_loop \<lparr> is_rest = [], is_good = True \<rparr> pxs = Some pxs"
  by (subst logread_loop.simps) (simp add: read_word_def skip_ws_def)

lemma logread_recs:
  "list_all rec_ok rs \<Longrightarrow>
   logread_loop \<lparr> is_rest = concat (map print_rec rs), is_good = True \<rparr> pxs = Some (foldl apply_rec pxs rs)"
  by (induction rs arbitrary: pxs) (simp_all add: logread_end logread_rec)

text \<open>What has to survive a crash.  The node name in a proposal number whose counter is 0 is not
  restored to the same value, and does not matter: every real proposal has a positive counter.\<close>

definition durable_eq :: "acceptor \<Rightarrow> acceptor \<Rightarrow> bool" where
  "durable_eq d acc =
     (a_instance_h d = a_instance_h acc \<and> (\<forall>i. omap_get [] (a_values d) i = omap_get [] (a_values acc) i) \<and>
      a_v_a d = a_v_a acc \<and>
      pr_n (a_n_h d) = pr_n (a_n_h acc) \<and> (pr_n (a_n_h acc) \<noteq> 0 \<longrightarrow> a_n_h d = a_n_h acc) \<and>
      pr_n (a_n_a d) = pr_n (a_n_a acc) \<and> (pr_n (a_n_a acc) \<noteq> 0 \<longrightarrow> a_n_a d = a_n_a acc))"

definition log_inv :: "string \<Rightarrow> acceptor \<Rightarrow> bool" where
  "log_inv me acc =
     (newline \<notin> set (a_v_a acc) \<and>
      (\<exists>rs. a_log acc = concat (map print_rec rs) \<and> list_all rec_ok rs \<and>
            durable_eq (foldl apply_rec (acceptor_init me (a_log acc)) rs) acc))"

text \<open>An acceptor from its first start on an empty disk, through requests whose node names are words
  and whose values are single lines, as views are.\<close>

inductive acc_reach :: "string \<Rightarrow> acceptor \<Rightarrow> bool" for me where
  new: "acceptor_new first me v [] = Some acc \<Longrightarrow> newline \<notin> set v \<Longrightarrow> acc_reach me acc"
| prepare: "acc_reach me acc \<Longrightarrow> is_word (pr_m (pa_n a)) \<Longrightarrow> preparereq acc a r = (r', acc') \<Longrightarrow> acc_reach me acc'"
| accept: "acc_reach me acc \<Longrightarrow> is_word (pr_m (aa_n a)) \<Longrightarrow> newline \<notin> set (aa_v a) \<Longrightarrow>
    acceptreq acc a = (r, acc') \<Longrightarrow> acc_reach me acc'"
| decide: "acc_reach me acc \<Longrightarrow> decidereq acc a = Some (acc', ups) \<Longrightarrow> acc_reach me acc'"
| commit: "acc_reach me acc \<Longrightarrow> newline \<notin> set v \<Longrightarrow> commit_wo acc i v = (acc', ups) \<Longrightarrow> acc_reach me acc'"

lemma apply_rec_log: "apply_rec (acc\<lparr> a_log := l \<rparr>) r = (apply_rec acc r)\<lparr> a_log := l \<rparr>"
  by (cases r) simp_all

lemma foldl_apply_log:
  "foldl apply_rec (acceptor_init me l) rs = (foldl apply_rec (acceptor_init me l') rs)\<lparr> a_log := l \<rparr>"
proof -
  have "foldl apply_rec (x\<lparr> a_log := l \<rparr>) rs = (foldl apply_rec x rs)\<lparr> a_log := l \<rparr>" for x
    by (induction rs arbitrary: x) (simp_all add: apply_rec_log)
  from this [of "acceptor_init me l'"] show ?thesis by (simp add: acceptor_init_def)
qed

lemma durable_eq_log [simp]: "durable_eq (d\<lparr> a_log := l \<rparr>) acc = durable_eq d acc"
  by (simp add: durable_eq_def)

lemma log_inv_snoc:
  assumes "log_inv me acc" "rec_ok r" "a_log acc' = a_log acc @ print_rec r" "newline \<notin> set (a_v_a acc')"
    and "\<And>d. durable_eq d acc \<Longrightarrow> durable_eq (apply_rec d r) acc'"
  shows "log_inv me acc'"
proof -
  from assms(1) obtain rs where rs: "a_log acc = concat (map print_rec rs)" "list_all rec_ok rs"
      "durable_eq (foldl apply_rec (acceptor_init me (a_log acc)) rs) acc"
    by (auto simp: log_inv_def)
  let ?l = "a_log acc'"
  have "durable_eq (foldl apply_rec (acceptor_init me ?l) (rs @ [r])) acc'"
    using assms(5) [OF rs(3)]
    by (subst foldl_apply_log [of _ _ _ "a_log acc"]) simp
  then show ?thesis
    unfolding log_inv_def using assms(2-4) rs(1,2) by (intro conjI exI [of _ "rs @ [r]"]) simp_all
qed

lemmas log_writers = loginstance_def logprop_def logaccept_def

lemma log_inv_commit:
  assumes "log_inv me acc" "newline \<notin> set v" "commit_wo acc i v = (acc', ups)"
  shows "log_inv me acc'"
proof (cases "a_instance_h acc < i")
  case True
  show ?thesis
    by (rule log_inv_snoc [OF assms(1), of "R_done i v"])
      (use True assms in \<open>auto simp: commit_wo_def log_writers durable_eq_def omap_get_set\<close>)
next
  case False
  then show ?thesis using assms by (simp add: commit_wo_def)
qed

lemma log_inv_reach: "acc_reach me acc \<Longrightarrow> log_inv me acc"
proof (induction rule: acc_reach.induct)
  case (new first v acc)
  have i: "logread (acceptor_init me []) = Some (acceptor_init me [])"
    using logread_end by (simp add: logread_def istream_of_def acceptor_init_def)
  have base: "log_inv me (acceptor_init me [])"
    by (auto simp: log_inv_def acceptor_init_def durable_eq_def intro!: exI [of _ "[]"])
  show ?case
  proof (cases first)
    case True
    show ?thesis
      by (rule log_inv_snoc [OF base, of "R_done 1 v"])
        (use new True i in \<open>auto simp: acceptor_new_def acceptor_init_def log_writers durable_eq_def omap_get_set\<close>)
  next
    case False
    then show ?thesis using new i base by (simp add: acceptor_new_def)
  qed
next
  case (prepare acc a r r' acc')
  consider "pa_instance a \<le> a_instance_h acc" | "\<not> pa_instance a \<le> a_instance_h acc" "a_n_h acc < pa_n a"
    | "\<not> pa_instance a \<le> a_instance_h acc" "\<not> a_n_h acc < pa_n a" by blast
  then show ?case
  proof cases
    case 1
    then show ?thesis using prepare by (auto simp: preparereq_def log_inv_def durable_eq_def)
  next
    case 2
    show ?thesis
      by (rule log_inv_snoc [OF prepare.IH, of "R_prop (pa_n a)"])
        (use 2 prepare in \<open>auto simp: preparereq_def log_inv_def log_writers durable_eq_def\<close>)
  next
    case 3
    then show ?thesis using prepare by (auto simp: preparereq_def)
  qed
next
  case (accept acc a r acc')
  show ?case
  proof (cases "a_n_h acc \<le> aa_n a")
    case True
    show ?thesis
      by (rule log_inv_snoc [OF accept.IH, of "R_acc (aa_n a) (aa_v a)"])
        (use True accept in \<open>auto simp: acceptreq_def log_writers durable_eq_def\<close>)
  next
    case False
    then show ?thesis using accept by (simp add: acceptreq_def)
  qed
next
  case (decide acc a acc' ups)
  have "newline \<notin> set (a_v_a acc)" using decide.IH by (simp add: log_inv_def)
  with decide show ?case by (auto simp: decidereq_def split: if_splits intro: log_inv_commit)
next
  case (commit acc v i acc' ups)
  then show ?case by (blast intro: log_inv_commit)
qed

text \<open>
  C8: The log is a faithful record.  At every moment of an acceptor's life, replaying its log file
  into a fresh acceptor succeeds and restores everything Paxos has to remember: the highest decided
  instance, the decided values, the promised and the accepted proposal number and the accepted value.
\<close>

theorem log_replay_restores:
  assumes "acc_reach me acc"
  shows "\<exists>d. logread (acceptor_init me (a_log acc)) = Some d \<and> durable_eq d acc"
proof -
  obtain rs where rs: "a_log acc = concat (map print_rec rs)" "list_all rec_ok rs"
      "durable_eq (foldl apply_rec (acceptor_init me (a_log acc)) rs) acc"
    using log_inv_reach [OF assms] by (auto simp: log_inv_def)
  have "a_log (acceptor_init me l) = l" for l by (simp add: acceptor_init_def)
  then show ?thesis using logread_recs [OF rs(2)] rs(1,3) by (simp add: logread_def istream_of_def)
qed

theorem log_replay_restores_witness:
  "\<exists>acc d. acc_reach ''n1'' acc \<and> a_n_a acc = Prop 3 ''n2'' \<and> a_v_a acc = ''n1 n2 '' \<and>
     logread (acceptor_init ''n1'' (a_log acc)) = Some d \<and> durable_eq d acc"
proof -
  let ?ini = "acceptor_init ''n1'' []"
  have "acceptor_new False ''n1'' [] [] = Some ?ini"
    using logread_end by (simp add: acceptor_new_def logread_def istream_of_def acceptor_init_def)
  then have r0: "acc_reach ''n1'' ?ini" by (rule acc_reach.new) simp
  let ?arg = "\<lparr> aa_instance = 1, aa_n = Prop 3 ''n2'', aa_v = ''n1 n2 '' \<rparr>"
  have ge: "Prop 0 ''n1'' \<le> Prop 3 ''n2''"
    by (rule less_imp_le) (simp add: prop_less_iff word_less_nat_alt)
  then obtain acc where s: "acceptreq ?ini ?arg = (True, acc)"
    and a: "a_n_a acc = Prop 3 ''n2''" "a_v_a acc = ''n1 n2 ''"
    by (simp add: acceptreq_def acceptor_init_def)
  have "acc_reach ''n1'' acc"
    by (rule acc_reach.accept [OF r0 _ _ s]) (simp_all add: is_word_def is_space_def newline_def)
  with log_replay_restores [OF this] a show ?thesis by blast
qed

end
