(* ===== verification/Paxos_Proposer.thy ===== *)
theory Paxos_Proposer
  imports Paxos_Acceptor
begin

text \<open>
  The proposer of \<open>paxos.cc\<close>.  Its three phases are loops over a list of nodes that make one RPC per
  node; the result of an RPC is an input: \<open>None\<close> when the node could not be bound or the call
  failed, \<open>Some r\<close> when it returned \<open>OK\<close> with \<open>r\<close>.  The body of each loop is a definition of its own
  (\<open>prepare_one\<close>, \<open>accept_one\<close>), so that \<open>Paxos_Agreement\<close> can interleave the loops of several
  proposers with the acceptors.
\<close>

section \<open>Membership\<close>

definition isamember :: "string \<Rightarrow> string list \<Rightarrow> bool" where
  "isamember m nodes = list_ex (\<lambda>x. x = m) nodes"

definition majority :: "string list \<Rightarrow> string list \<Rightarrow> bool" where
  "majority l1 l2 = (length (filter (\<lambda>x. isamember x l2) l1) \<ge> length l1 div 2 + 1)"

fun print_members :: "string list \<Rightarrow> string" where
  "print_members [] = []"
| "print_members [x] = x"
| "print_members (x # xs) = x @ '','' @ print_members xs"

section \<open>The phases\<close>

record proposer =
  p_me :: string
  p_break1 :: bool
  p_break2 :: bool
  p_stable :: bool
  p_my_n :: prop_t

definition proposer_new :: "string \<Rightarrow> proposer" where
  "proposer_new me = \<lparr> p_me = me, p_break1 = False, p_break2 = False, p_stable = True, p_my_n = Prop 0 me \<rparr>"

definition isrunning :: "proposer \<Rightarrow> bool" where
  "isrunning p = (\<not> p_stable p)"

definition breakpoint :: "proposer \<Rightarrow> int \<Rightarrow> proposer" where
  "breakpoint p b =
     (if b = 3 then p\<lparr> p_break1 := True \<rparr> else if b = 4 then p\<lparr> p_break2 := True \<rparr> else p)"

definition setn :: "proposer \<Rightarrow> prop_t \<Rightarrow> proposer" where
  "setn p n_h =
     p\<lparr> p_my_n := Prop (if pr_n n_h + 1 > pr_n (p_my_n p) + 1 then pr_n n_h + 1 else pr_n (p_my_n p) + 1)
                      (pr_m (p_my_n p)) \<rparr>"

type_synonym prep_st = "string list \<times> string \<times> prop_t"

text \<open>\<open>Inl v\<close>: a node answered \<open>oldinstance\<close> with the decided value \<open>v\<close>.\<close>

fun prepare_one :: "string \<Rightarrow> prepareres option \<Rightarrow> prep_st \<Rightarrow> string + prep_st" where
  "prepare_one node None st = Inr st"
| "prepare_one node (Some r) (accepts, v, currn_a) =
     (if ps_oldinstance r then Inl (ps_v_a r)
      else if ps_accept r then
        Inr (accepts @ [node],
             if prop_gt (ps_n_a r) currn_a then (ps_v_a r, ps_n_a r) else (v, currn_a))
      else Inr (accepts, v, currn_a))"

fun prepare :: "(string \<times> prepareres option) list \<Rightarrow> prep_st \<Rightarrow> string + prep_st" where
  "prepare [] st = Inr st"
| "prepare ((node, res) # rest) st =
     (case prepare_one node res st of Inl v \<Rightarrow> Inl v | Inr st \<Rightarrow> prepare rest st)"

definition accept_one :: "string \<Rightarrow> bool option \<Rightarrow> string list \<Rightarrow> string list" where
  "accept_one node res accepts = (if res = Some True then accepts @ [node] else accepts)"

fun accept :: "(string \<times> bool option) list \<Rightarrow> string list \<Rightarrow> string list" where
  "accept [] accepts = accepts"
| "accept ((node, res) # rest) accepts = accept rest (accept_one node res accepts)"

section \<open>One run\<close>

text \<open>What \<open>run\<close> does to the world: nothing, commit at the own acceptor the value an \<open>oldinstance\<close>
  reply carried, die at a breakpoint, or send \<open>decide\<close> to the nodes that accepted.\<close>

datatype run_out =
    Run_busy
  | Run_old string
  | Run_no_majority
  | Run_exit
  | Run_decide "string list" string

text \<open>\<open>pouts\<close> and \<open>aouts\<close> give the outcome of the call to each node in the two phases.\<close>

definition run :: "proposer \<Rightarrow> prop_t \<Rightarrow> string list \<Rightarrow> string \<Rightarrow>
    (string \<Rightarrow> prepareres option) \<Rightarrow> (string \<Rightarrow> bool option) \<Rightarrow> bool \<times> run_out \<times> proposer" where
  "run p n_h cur_nodes newv pouts aouts =
     (if \<not> p_stable p then (False, Run_busy, p)
      else
        let p = setn p n_h
        in case prepare (map (\<lambda>x. (x, pouts x)) cur_nodes) ([], [], Prop 0 []) of
             Inl old \<Rightarrow> (False, Run_old old, p)
           | Inr (accepts, v, _) \<Rightarrow>
               if majority cur_nodes accepts then
                 let v = (if length v = 0 then newv else v)
                 in if p_break1 p then (False, Run_exit, p)
                    else
                      let accepts = accept (map (\<lambda>x. (x, aouts x)) accepts) []
                      in if majority cur_nodes accepts then
                           if p_break2 p then (False, Run_exit, p)
                           else (True, Run_decide accepts v, p)
                         else (False, Run_no_majority, p)
               else (False, Run_no_majority, p))"

section \<open>Two majorities meet\<close>

lemma isamember_set [simp]: "isamember x xs = (x \<in> set xs)"
  by (auto simp: isamember_def list_ex_iff)

lemma filter_length_sum:
  "length (filter P xs) + length (filter Q xs) > length xs \<Longrightarrow> \<exists>x \<in> set xs. P x \<and> Q x"
proof (induction xs)
  case (Cons x xs)
  then show ?case by (cases "P x"; cases "Q x") auto
qed simp

lemma majorities_meet:
  assumes "majority nodes q1" "majority nodes q2"
  shows "\<exists>x \<in> set nodes. x \<in> set q1 \<and> x \<in> set q2"
proof -
  have "length (filter (\<lambda>x. x \<in> set q1) nodes) + length (filter (\<lambda>x. x \<in> set q2) nodes) > length nodes"
    using assms by (simp add: majority_def)
  then show ?thesis by (rule filter_length_sum)
qed

lemma prepare_step_append:
  "prepare (xs @ ys) st = (case prepare xs st of Inl v \<Rightarrow> Inl v | Inr st \<Rightarrow> prepare ys st)"
  by (induction xs st rule: prepare.induct) (simp_all split: sum.splits)

text \<open>
  The prepare phase picks the value of the highest accepted proposal.  When every reply is an
  acceptance, the collected nodes are exactly those that replied, and the value carried into the
  accept phase is that of a reply whose accepted proposal number is at least every other one's (or no
  value, when no number exceeds the initial one).
\<close>

theorem prepare_takes_highest:
  assumes "\<forall>(x, res) \<in> set outs. \<forall>r. res = Some r \<longrightarrow> \<not> ps_oldinstance r"
  shows "\<exists>accepts v n. prepare outs ([], [], Prop 0 []) = Inr (accepts, v, n) \<and>
    accepts = [x. (x, Some r) \<leftarrow> outs, ps_accept r] \<and>
    (\<forall>x r. (x, Some r) \<in> set outs \<longrightarrow> ps_accept r \<longrightarrow> ps_n_a r \<le> n) \<and>
    (v = [] \<and> n = Prop 0 [] \<or> (\<exists>x r. (x, Some r) \<in> set outs \<and> ps_accept r \<and> v = ps_v_a r \<and> n = ps_n_a r))"
  using assms
proof (induction outs rule: rev_induct)
  case (snoc o' outs)
  obtain x res where o': "o' = (x, res)" by fastforce
  have "\<forall>(x, res) \<in> set outs. \<forall>r. res = Some r \<longrightarrow> \<not> ps_oldinstance r" using snoc.prems by auto
  from snoc.IH [OF this] obtain accepts v n where ih: "prepare outs ([], [], Prop 0 []) = Inr (accepts, v, n)"
    "accepts = [x. (x, Some r) \<leftarrow> outs, ps_accept r]"
    "\<forall>x r. (x, Some r) \<in> set outs \<longrightarrow> ps_accept r \<longrightarrow> ps_n_a r \<le> n"
    "v = [] \<and> n = Prop 0 [] \<or> (\<exists>x r. (x, Some r) \<in> set outs \<and> ps_accept r \<and> v = ps_v_a r \<and> n = ps_n_a r)"
    by blast
  show ?case
  proof (cases "\<exists>r. res = Some r \<and> ps_accept r \<and> n < ps_n_a r")
    case True
    then obtain r where r: "res = Some r" "ps_accept r" "n < ps_n_a r" by blast
    moreover have "\<not> ps_oldinstance r" using snoc.prems r(1) o' by auto
    moreover have "\<forall>x' r'. (x', Some r') \<in> set outs \<longrightarrow> ps_accept r' \<longrightarrow> ps_n_a r' \<le> ps_n_a r"
      using ih(3) r(3) by fastforce
    ultimately show ?thesis
      by (intro exI [of _ "accepts @ [x]"] exI [of _ "ps_v_a r"] exI [of _ "ps_n_a r"])
        (auto simp: prepare_step_append ih(1,2) o')
  next
    case False
    then show ?thesis
      using ih snoc.prems
      by (cases res) (auto simp: prepare_step_append o' not_less)
  qed
qed simp

theorem prepare_takes_highest_witness:
  "\<exists>accepts v n. prepare [(''a'', Some \<lparr> ps_oldinstance = False, ps_accept = True, ps_n_a = Prop 2 ''b'', ps_v_a = ''v'' \<rparr>),
       (''c'', None)] ([], [], Prop 0 []) = Inr (accepts, v, n) \<and> accepts = [''a''] \<and> v = ''v'' \<and> n = Prop 2 ''b''"
proof -
  let ?r = "\<lparr> ps_oldinstance = False, ps_accept = True, ps_n_a = Prop 2 ''b'', ps_v_a = ''v'' \<rparr>"
  have "\<not> Prop 2 ''b'' \<le> Prop 0 []" by (simp add: not_le prop_less_iff word_less_nat_alt)
  with prepare_takes_highest [of "[(''a'', Some ?r), (''c'', None)]"] show ?thesis by auto
qed

end
