(* ===== verification/Paxos_Agreement.thy ===== *)
theory Paxos_Agreement
  imports Paxos_Proposer
begin

text \<open>
  One instance of Paxos with any number of proposers and acceptors running concurrently over a
  network that delays, reorders, duplicates and loses messages.  Acceptors run the handlers of
  \<open>Paxos_Acceptor\<close>, proposers the loop bodies of \<open>Paxos_Proposer\<close>.  Requests and replies are kept in
  lists that only grow: a request can be executed at any later time and any number of times, and a
  proposer waiting for a node either sees a reply of that node to its current proposal or gives up.

  The flag \<open>fresh\<close> of \<open>px_exec\<close> restricts the execution of accept requests to acceptors that have not
  yet decided the instance.  \<open>acceptreq\<close> does not check this; with the flag set, agreement is proved,
  with the flag clear, a run is exhibited that decides two different values.
\<close>

section \<open>The system\<close>

datatype phase =
    Idle
  | Preparing "string list" prep_st string       \<comment> \<open>nodes to ask, replies so far, own value\<close>
  | Accepting "string list" "string list" string  \<comment> \<open>nodes to ask, accepts so far, value\<close>
  | Deciding "string list" string

record px =
  px_acc :: "string \<Rightarrow> acceptor"
  px_prop :: "string \<Rightarrow> proposer"
  px_phase :: "string \<Rightarrow> phase"
  prep_req :: "(string \<times> prop_t) list"
  prep_rep :: "(string \<times> prop_t \<times> prepareres) list"
  acc_req :: "(string \<times> prop_t \<times> string) list"
  acc_rep :: "(string \<times> prop_t \<times> bool) list"
  dec_req :: "(string \<times> string) list"
  voted :: "(string \<times> prop_t \<times> string) list"    \<comment> \<open>history of accepted proposals\<close>

datatype px_event =
    Start string string
  | SendPrepare string | GotPrepare string "prepareres option" | PrepareDone string
  | SendAccept string | GotAccept string "bool option" | AcceptDone string
  | SendDecide string
  | DoPrepare string prop_t prepareres | DoAccept string prop_t string | DoDecide string string

abbreviation my_n :: "px \<Rightarrow> string \<Rightarrow> prop_t" where
  "my_n s p \<equiv> p_my_n (px_prop s p)"

definition set_phase :: "string \<Rightarrow> phase \<Rightarrow> px \<Rightarrow> px" where
  "set_phase p ph s = s\<lparr> px_phase := (px_phase s)(p := ph) \<rparr>"

definition finish_run :: "string \<Rightarrow> px \<Rightarrow> px" where
  "finish_run p s =
     s\<lparr> px_phase := (px_phase s)(p := Idle), px_prop := (px_prop s)(p := (px_prop s p)\<lparr> p_stable := True \<rparr>) \<rparr>"

text \<open>A run starts with a nonempty value and, as the counter is 32 bits wide, without overflow.\<close>

fun px_exec :: "bool \<Rightarrow> u32 \<Rightarrow> string list \<Rightarrow> px_event \<Rightarrow> px \<Rightarrow> px option" where
  "px_exec fresh inst nodes (Start p newv) s =
     (let p' = (setn (px_prop s p) (a_n_h (px_acc s p)))\<lparr> p_stable := False \<rparr>
      in if px_phase s p = Idle \<and> p_stable (px_prop s p) \<and> newv \<noteq> [] \<and> pr_n (p_my_n p') > pr_n (my_n s p)
         then Some (set_phase p (Preparing nodes ([], [], Prop 0 []) newv)
                      (s\<lparr> px_prop := (px_prop s)(p := p') \<rparr>))
         else None)"
| "px_exec fresh inst nodes (SendPrepare p) s =
     (case px_phase s p of
        Preparing (node # todo) st newv \<Rightarrow> Some (s\<lparr> prep_req := (node, my_n s p) # prep_req s \<rparr>)
      | _ \<Rightarrow> None)"
| "px_exec fresh inst nodes (GotPrepare p res) s =
     (case px_phase s p of
        Preparing (node # todo) st newv \<Rightarrow>
          if (case res of None \<Rightarrow> True | Some r \<Rightarrow> (node, my_n s p, r) \<in> set (prep_rep s)) then
            (case prepare_one node res st of
               Inl v \<Rightarrow> Some (finish_run p
                 (s\<lparr> px_acc := (px_acc s)(p := fst (commit_wo (px_acc s p) inst v)) \<rparr>))
             | Inr st \<Rightarrow> Some (set_phase p (Preparing todo st newv) s))
          else None
      | _ \<Rightarrow> None)"
| "px_exec fresh inst nodes (PrepareDone p) s =
     (case px_phase s p of
        Preparing [] (accepts, v, _) newv \<Rightarrow>
          if majority nodes accepts
          then Some (set_phase p (Accepting accepts [] (if length v = 0 then newv else v)) s)
          else Some (finish_run p s)
      | _ \<Rightarrow> None)"
| "px_exec fresh inst nodes (SendAccept p) s =
     (case px_phase s p of
        Accepting (node # todo) accepts v \<Rightarrow> Some (s\<lparr> acc_req := (node, my_n s p, v) # acc_req s \<rparr>)
      | _ \<Rightarrow> None)"
| "px_exec fresh inst nodes (GotAccept p res) s =
     (case px_phase s p of
        Accepting (node # todo) accepts v \<Rightarrow>
          if (case res of None \<Rightarrow> True | Some r \<Rightarrow> (node, my_n s p, r) \<in> set (acc_rep s))
          then Some (set_phase p (Accepting todo (accept_one node res accepts) v) s)
          else None
      | _ \<Rightarrow> None)"
| "px_exec fresh inst nodes (AcceptDone p) s =
     (case px_phase s p of
        Accepting [] accepts v \<Rightarrow>
          if majority nodes accepts then Some (set_phase p (Deciding accepts v) s)
          else Some (finish_run p s)
      | _ \<Rightarrow> None)"
| "px_exec fresh inst nodes (SendDecide p) s =
     (case px_phase s p of
        Deciding (node # todo) v \<Rightarrow>
          Some (set_phase p (Deciding todo v) (s\<lparr> dec_req := (node, v) # dec_req s \<rparr>))
      | Deciding [] v \<Rightarrow> Some (finish_run p s)
      | _ \<Rightarrow> None)"
| "px_exec fresh inst nodes (DoPrepare a n r) s =
     (if (a, n) \<in> set (prep_req s) then
        let (r, acc) = preparereq (px_acc s a) \<lparr> pa_instance = inst, pa_n = n \<rparr> r
        in Some (s\<lparr> px_acc := (px_acc s)(a := acc), prep_rep := (a, n, r) # prep_rep s \<rparr>)
      else None)"
| "px_exec fresh inst nodes (DoAccept a n v) s =
     (if (a, n, v) \<in> set (acc_req s) \<and> (fresh \<longrightarrow> a_instance_h (px_acc s a) < inst) then
        let (b, acc) = acceptreq (px_acc s a) \<lparr> aa_instance = inst, aa_n = n, aa_v = v \<rparr>
        in Some (s\<lparr> px_acc := (px_acc s)(a := acc), acc_rep := (a, n, b) # acc_rep s,
                    voted := (if b then (a, n, v) # voted s else voted s) \<rparr>)
      else None)"
| "px_exec fresh inst nodes (DoDecide a v) s =
     (if (a, v) \<in> set (dec_req s) then
        map_option (\<lambda>(acc, ups). s\<lparr> px_acc := (px_acc s)(a := acc) \<rparr>)
          (decidereq (px_acc s a) \<lparr> da_instance = inst, da_v = v \<rparr>)
      else None)"

text \<open>Initially every acceptor has decided the instances before \<open>inst\<close> and nothing of \<open>inst\<close>.\<close>

definition px_start :: "u32 \<Rightarrow> px \<Rightarrow> bool" where
  "px_start inst s =
     (inst \<noteq> 0 \<and>
      (\<forall>a. a_me (px_acc s a) = a \<and> a_instance_h (px_acc s a) = inst - 1 \<and> a_n_h (px_acc s a) = Prop 0 a \<and>
           a_n_a (px_acc s a) = Prop 0 a \<and> a_v_a (px_acc s a) = []) \<and>
      (\<forall>p. pr_m (my_n s p) = p \<and> px_phase s p = Idle) \<and>
      prep_req s = [] \<and> prep_rep s = [] \<and> acc_req s = [] \<and> acc_rep s = [] \<and> dec_req s = [] \<and> voted s = [])"

inductive px_reach :: "bool \<Rightarrow> u32 \<Rightarrow> string list \<Rightarrow> px \<Rightarrow> bool" for fresh inst nodes where
  init: "px_start inst s \<Longrightarrow> px_reach fresh inst nodes s"
| step: "px_reach fresh inst nodes s \<Longrightarrow> px_exec fresh inst nodes ev s = Some s' \<Longrightarrow> px_reach fresh inst nodes s'"

definition decided :: "u32 \<Rightarrow> px \<Rightarrow> string \<Rightarrow> string \<Rightarrow> bool" where
  "decided inst s a v = (inst \<le> a_instance_h (px_acc s a) \<and> omap_get [] (a_values (px_acc s a)) inst = v)"

section \<open>The invariant\<close>

text \<open>\<open>promised\<close>: the acceptor has decided or will not accept below \<open>n\<close>.\<close>

definition promised :: "u32 \<Rightarrow> px \<Rightarrow> string \<Rightarrow> prop_t \<Rightarrow> bool" where
  "promised inst s a n = (inst \<le> a_instance_h (px_acc s a) \<or> n \<le> a_n_h (px_acc s a))"

definition chosen :: "string list \<Rightarrow> px \<Rightarrow> prop_t \<Rightarrow> string \<Rightarrow> bool" where
  "chosen nodes s n v = (\<exists>Q. majority nodes Q \<and> (\<forall>q \<in> set Q. (q, n, v) \<in> set (voted s)))"

definition votes_below :: "px \<Rightarrow> string \<Rightarrow> prop_t \<Rightarrow> prop_t \<Rightarrow> bool" where
  "votes_below s a n m = (\<forall>n' v'. (a, n', v') \<in> set (voted s) \<longrightarrow> n' < n \<longrightarrow> n' \<le> m)"

definition no_votes_below :: "px \<Rightarrow> string \<Rightarrow> prop_t \<Rightarrow> bool" where
  "no_votes_below s a n = (\<forall>n' v'. (a, n', v') \<in> set (voted s) \<longrightarrow> \<not> n' < n)"

definition reply_ok :: "u32 \<Rightarrow> string list \<Rightarrow> px \<Rightarrow> string \<Rightarrow> prop_t \<Rightarrow> prepareres \<Rightarrow> bool" where
  "reply_ok inst nodes s a n r =
     ((ps_oldinstance r \<longrightarrow> (\<exists>n'. chosen nodes s n' (ps_v_a r))) \<and>
      (\<not> ps_oldinstance r \<longrightarrow> ps_accept r \<longrightarrow>
         promised inst s a n \<and>
         (ps_v_a r = [] \<longrightarrow> pr_n (ps_n_a r) = 0 \<and> no_votes_below s a n) \<and>
         (ps_v_a r \<noteq> [] \<longrightarrow> (a, ps_n_a r, ps_v_a r) \<in> set (voted s) \<and> ps_n_a r < n \<and> votes_below s a n (ps_n_a r))))"

definition safe :: "u32 \<Rightarrow> string list \<Rightarrow> px \<Rightarrow> prop_t \<Rightarrow> string \<Rightarrow> bool" where
  "safe inst nodes s n v =
     (\<exists>Q. majority nodes Q \<and> (\<forall>q \<in> set Q. promised inst s q n) \<and>
        ((\<forall>q \<in> set Q. no_votes_below s q n) \<or>
         (\<exists>m q'. m < n \<and> (q', m, v) \<in> set (voted s) \<and> (\<forall>q \<in> set Q. votes_below s q n m))))"

text \<open>The steps that matter for the facts above: votes are added, promises are kept.\<close>

definition grows :: "u32 \<Rightarrow> px \<Rightarrow> px \<Rightarrow> bool" where
  "grows inst s s' =
     (set (voted s) \<subseteq> set (voted s') \<and> (\<forall>a n. promised inst s a n \<longrightarrow> promised inst s' a n) \<and>
      (\<forall>a n v. (a, n, v) \<in> set (voted s') \<longrightarrow> (a, n, v) \<in> set (voted s) \<or> (\<forall>n'. promised inst s a n' \<longrightarrow> n' \<le> n)))"

lemma grows_promised: "grows inst s s' \<Longrightarrow> promised inst s a n \<Longrightarrow> promised inst s' a n"
  by (simp add: grows_def)

lemma grows_voted: "grows inst s s' \<Longrightarrow> x \<in> set (voted s) \<Longrightarrow> x \<in> set (voted s')"
  by (auto simp: grows_def)

lemma grows_chosen: "grows inst s s' \<Longrightarrow> chosen nodes s n v \<Longrightarrow> chosen nodes s' n v"
  unfolding chosen_def by (blast intro: grows_voted)

lemma grows_new_vote:
  assumes "grows inst s s'" "(a, n, v) \<in> set (voted s')" "promised inst s a n'" "n < n'"
  shows "(a, n, v) \<in> set (voted s)"
  using assms leD unfolding grows_def by blast

lemma grows_votes_below:
  "grows inst s s' \<Longrightarrow> promised inst s a n \<Longrightarrow> votes_below s a n m \<Longrightarrow> votes_below s' a n m"
  unfolding votes_below_def by (blast dest: grows_new_vote)

lemma grows_no_votes_below:
  "grows inst s s' \<Longrightarrow> promised inst s a n \<Longrightarrow> no_votes_below s a n \<Longrightarrow> no_votes_below s' a n"
  unfolding no_votes_below_def by (blast dest: grows_new_vote)

lemma grows_reply_ok:
  assumes "grows inst s s'" "reply_ok inst nodes s a n r"
  shows "reply_ok inst nodes s' a n r"
  using assms(2) grows_promised [OF assms(1)] grows_chosen [OF assms(1)] grows_voted [OF assms(1)]
    grows_votes_below [OF assms(1)] grows_no_votes_below [OF assms(1)]
  unfolding reply_ok_def by blast

lemma grows_safe:
  assumes "grows inst s s'" "safe inst nodes s n v"
  shows "safe inst nodes s' n v"
proof -
  from assms(2) obtain Q where Q: "majority nodes Q" "\<forall>q \<in> set Q. promised inst s q n"
    and d: "(\<forall>q \<in> set Q. no_votes_below s q n) \<or>
       (\<exists>m q'. m < n \<and> (q', m, v) \<in> set (voted s) \<and> (\<forall>q \<in> set Q. votes_below s q n m))"
    by (auto simp: safe_def)
  have "\<forall>q \<in> set Q. promised inst s' q n" using Q(2) grows_promised [OF assms(1)] by blast
  moreover have "(\<forall>q \<in> set Q. no_votes_below s' q n) \<or>
       (\<exists>m q'. m < n \<and> (q', m, v) \<in> set (voted s') \<and> (\<forall>q \<in> set Q. votes_below s' q n m))"
    using d Q(2) grows_no_votes_below [OF assms(1)] grows_votes_below [OF assms(1)] grows_voted [OF assms(1)]
    by meson
  ultimately show ?thesis using Q(1) unfolding safe_def by blast
qed

lemma grows_refl: "voted s' = voted s \<Longrightarrow> px_acc s' = px_acc s \<Longrightarrow> grows inst s s'"
  by (simp add: grows_def promised_def)

definition acc_ok :: "u32 \<Rightarrow> string list \<Rightarrow> px \<Rightarrow> string \<Rightarrow> bool" where
  "acc_ok inst nodes s a =
     (let A = px_acc s a
      in (a_instance_h A = inst - 1 \<or> a_instance_h A = inst) \<and>
         (a_instance_h A = inst \<longrightarrow> (\<exists>n. chosen nodes s n (omap_get [] (a_values A) inst))) \<and>
         (a_instance_h A \<noteq> inst \<longrightarrow>
            (a_v_a A = [] \<longrightarrow> pr_n (a_n_a A) = 0 \<and> (\<forall>n v. (a, n, v) \<notin> set (voted s))) \<and>
            (a_v_a A \<noteq> [] \<longrightarrow> (a, a_n_a A, a_v_a A) \<in> set (voted s) \<and> a_n_a A \<le> a_n_h A \<and>
               (\<forall>n v. (a, n, v) \<in> set (voted s) \<longrightarrow> n \<le> a_n_a A))))"

definition prep_ok :: "px \<Rightarrow> prop_t \<Rightarrow> prep_st \<Rightarrow> bool" where
  "prep_ok s n = (\<lambda>(accepts, v, cur).
     (\<forall>q \<in> set accepts. \<exists>r. (q, n, r) \<in> set (prep_rep s) \<and> ps_accept r \<and> \<not> ps_oldinstance r \<and>
        (ps_v_a r \<noteq> [] \<longrightarrow> v \<noteq> [] \<and> ps_n_a r \<le> cur)) \<and>
     (v = [] \<longrightarrow> pr_n cur = 0) \<and>
     (v \<noteq> [] \<longrightarrow> cur < n \<and> 0 < pr_n cur \<and> (\<exists>q. (q, cur, v) \<in> set (voted s))))"

fun phase_ok :: "u32 \<Rightarrow> string list \<Rightarrow> px \<Rightarrow> prop_t \<Rightarrow> phase \<Rightarrow> bool" where
  "phase_ok inst nodes s n Idle = True"
| "phase_ok inst nodes s n (Preparing todo st newv) =
     (newv \<noteq> [] \<and> 0 < pr_n n \<and> (\<forall>a v. (a, n, v) \<notin> set (acc_req s)) \<and> prep_ok s n st)"
| "phase_ok inst nodes s n (Accepting todo accepts v) =
     (v \<noteq> [] \<and> 0 < pr_n n \<and> safe inst nodes s n v \<and> (\<forall>q \<in> set todo. promised inst s q n) \<and>
      (\<forall>a v'. (a, n, v') \<in> set (acc_req s) \<longrightarrow> v' = v) \<and> (\<forall>q \<in> set accepts. (q, n, True) \<in> set (acc_rep s)))"
| "phase_ok inst nodes s n (Deciding todo v) = (\<exists>n. chosen nodes s n v)"

definition req_ok :: "u32 \<Rightarrow> string list \<Rightarrow> px \<Rightarrow> string \<times> prop_t \<times> string \<Rightarrow> bool" where
  "req_ok inst nodes s = (\<lambda>(a, n, v). v \<noteq> [] \<and> 0 < pr_n n \<and> promised inst s a n \<and> safe inst nodes s n v \<and>
     n \<le> my_n s (pr_m n))"

definition px_inv :: "u32 \<Rightarrow> string list \<Rightarrow> px \<Rightarrow> bool" where
  "px_inv inst nodes s =
     (inst \<noteq> 0 \<and> (\<forall>a. acc_ok inst nodes s a) \<and> (\<forall>(a, n, r) \<in> set (prep_rep s). reply_ok inst nodes s a n r) \<and>
      (\<forall>x \<in> set (acc_req s). req_ok inst nodes s x) \<and>
      (\<forall>a a' n v v'. (a, n, v) \<in> set (acc_req s) \<longrightarrow> (a', n, v') \<in> set (acc_req s) \<longrightarrow> v = v') \<and>
      set (voted s) \<subseteq> set (acc_req s) \<and>
      (\<forall>a n. (a, n, True) \<in> set (acc_rep s) \<longrightarrow> (\<exists>v. (a, n, v) \<in> set (voted s))) \<and>
      (\<forall>(a, v) \<in> set (dec_req s). \<exists>n. chosen nodes s n v) \<and>
      (\<forall>p. pr_m (my_n s p) = p \<and> phase_ok inst nodes s (my_n s p) (px_phase s p)))"

section \<open>Every step keeps it\<close>

text \<open>The parts of the state that the facts do not look at.\<close>

lemma promised_frame [simp]:
  "promised inst (s\<lparr> px_prop := x1 \<rparr>) = promised inst s"
  "promised inst (s\<lparr> px_phase := x2 \<rparr>) = promised inst s"
  "promised inst (s\<lparr> prep_req := x3 \<rparr>) = promised inst s"
  "promised inst (s\<lparr> prep_rep := x4 \<rparr>) = promised inst s"
  "promised inst (s\<lparr> acc_req := x5 \<rparr>) = promised inst s"
  "promised inst (s\<lparr> acc_rep := x6 \<rparr>) = promised inst s"
  "promised inst (s\<lparr> dec_req := x7 \<rparr>) = promised inst s"
  by (simp_all add: fun_eq_iff promised_def)

lemma chosen_frame [simp]:
  "chosen nodes (s\<lparr> px_prop := x1 \<rparr>) = chosen nodes s"
  "chosen nodes (s\<lparr> px_phase := x2 \<rparr>) = chosen nodes s"
  "chosen nodes (s\<lparr> prep_req := x3 \<rparr>) = chosen nodes s"
  "chosen nodes (s\<lparr> prep_rep := x4 \<rparr>) = chosen nodes s"
  "chosen nodes (s\<lparr> acc_req := x5 \<rparr>) = chosen nodes s"
  "chosen nodes (s\<lparr> acc_rep := x6 \<rparr>) = chosen nodes s"
  "chosen nodes (s\<lparr> dec_req := x7 \<rparr>) = chosen nodes s"
  by (simp_all add: fun_eq_iff chosen_def)

lemma votes_below_frame [simp]:
  "votes_below (s\<lparr> px_prop := x1 \<rparr>) = votes_below s"
  "votes_below (s\<lparr> px_phase := x2 \<rparr>) = votes_below s"
  "votes_below (s\<lparr> prep_req := x3 \<rparr>) = votes_below s"
  "votes_below (s\<lparr> prep_rep := x4 \<rparr>) = votes_below s"
  "votes_below (s\<lparr> acc_req := x5 \<rparr>) = votes_below s"
  "votes_below (s\<lparr> acc_rep := x6 \<rparr>) = votes_below s"
  "votes_below (s\<lparr> dec_req := x7 \<rparr>) = votes_below s"
  by (simp_all add: fun_eq_iff votes_below_def)

lemma no_votes_below_frame [simp]:
  "no_votes_below (s\<lparr> px_prop := x1 \<rparr>) = no_votes_below s"
  "no_votes_below (s\<lparr> px_phase := x2 \<rparr>) = no_votes_below s"
  "no_votes_below (s\<lparr> prep_req := x3 \<rparr>) = no_votes_below s"
  "no_votes_below (s\<lparr> prep_rep := x4 \<rparr>) = no_votes_below s"
  "no_votes_below (s\<lparr> acc_req := x5 \<rparr>) = no_votes_below s"
  "no_votes_below (s\<lparr> acc_rep := x6 \<rparr>) = no_votes_below s"
  "no_votes_below (s\<lparr> dec_req := x7 \<rparr>) = no_votes_below s"
  by (simp_all add: fun_eq_iff no_votes_below_def)

lemma safe_frame [simp]:
  "safe inst nodes (s\<lparr> px_prop := x1 \<rparr>) = safe inst nodes s"
  "safe inst nodes (s\<lparr> px_phase := x2 \<rparr>) = safe inst nodes s"
  "safe inst nodes (s\<lparr> prep_req := x3 \<rparr>) = safe inst nodes s"
  "safe inst nodes (s\<lparr> prep_rep := x4 \<rparr>) = safe inst nodes s"
  "safe inst nodes (s\<lparr> acc_req := x5 \<rparr>) = safe inst nodes s"
  "safe inst nodes (s\<lparr> acc_rep := x6 \<rparr>) = safe inst nodes s"
  "safe inst nodes (s\<lparr> dec_req := x7 \<rparr>) = safe inst nodes s"
  by (simp_all add: fun_eq_iff safe_def promised_def no_votes_below_def votes_below_def)

lemma reply_ok_frame [simp]:
  "reply_ok inst nodes (s\<lparr> px_prop := x1 \<rparr>) = reply_ok inst nodes s"
  "reply_ok inst nodes (s\<lparr> px_phase := x2 \<rparr>) = reply_ok inst nodes s"
  "reply_ok inst nodes (s\<lparr> prep_req := x3 \<rparr>) = reply_ok inst nodes s"
  "reply_ok inst nodes (s\<lparr> prep_rep := x4 \<rparr>) = reply_ok inst nodes s"
  "reply_ok inst nodes (s\<lparr> acc_req := x5 \<rparr>) = reply_ok inst nodes s"
  "reply_ok inst nodes (s\<lparr> acc_rep := x6 \<rparr>) = reply_ok inst nodes s"
  "reply_ok inst nodes (s\<lparr> dec_req := x7 \<rparr>) = reply_ok inst nodes s"
  by (simp_all add: fun_eq_iff reply_ok_def promised_def chosen_def no_votes_below_def votes_below_def)

lemma acc_ok_frame [simp]:
  "acc_ok inst nodes (s\<lparr> px_prop := x1 \<rparr>) = acc_ok inst nodes s"
  "acc_ok inst nodes (s\<lparr> px_phase := x2 \<rparr>) = acc_ok inst nodes s"
  "acc_ok inst nodes (s\<lparr> prep_req := x3 \<rparr>) = acc_ok inst nodes s"
  "acc_ok inst nodes (s\<lparr> prep_rep := x4 \<rparr>) = acc_ok inst nodes s"
  "acc_ok inst nodes (s\<lparr> acc_req := x5 \<rparr>) = acc_ok inst nodes s"
  "acc_ok inst nodes (s\<lparr> acc_rep := x6 \<rparr>) = acc_ok inst nodes s"
  "acc_ok inst nodes (s\<lparr> dec_req := x7 \<rparr>) = acc_ok inst nodes s"
  by (simp_all add: fun_eq_iff acc_ok_def chosen_def)

lemma prep_ok_frame [simp]:
  "prep_ok (s\<lparr> px_prop := x1 \<rparr>) = prep_ok s"
  "prep_ok (s\<lparr> px_phase := x2 \<rparr>) = prep_ok s"
  "prep_ok (s\<lparr> prep_req := x3 \<rparr>) = prep_ok s"
  "prep_ok (s\<lparr> acc_req := x5 \<rparr>) = prep_ok s"
  "prep_ok (s\<lparr> acc_rep := x6 \<rparr>) = prep_ok s"
  "prep_ok (s\<lparr> dec_req := x7 \<rparr>) = prep_ok s"
  by (simp_all add: fun_eq_iff prep_ok_def)

lemma phase_ok_frame [simp]:
  "phase_ok inst nodes (s\<lparr> px_prop := x1 \<rparr>) n ph = phase_ok inst nodes s n ph"
  "phase_ok inst nodes (s\<lparr> px_phase := x2 \<rparr>) n ph = phase_ok inst nodes s n ph"
  "phase_ok inst nodes (s\<lparr> prep_req := x3 \<rparr>) n ph = phase_ok inst nodes s n ph"
  "phase_ok inst nodes (s\<lparr> dec_req := x7 \<rparr>) n ph = phase_ok inst nodes s n ph"
  by (cases ph; simp)+

lemma req_ok_frame [simp]:
  "req_ok inst nodes (s\<lparr> px_phase := x2 \<rparr>) = req_ok inst nodes s"
  "req_ok inst nodes (s\<lparr> prep_req := x3 \<rparr>) = req_ok inst nodes s"
  "req_ok inst nodes (s\<lparr> prep_rep := x4 \<rparr>) = req_ok inst nodes s"
  "req_ok inst nodes (s\<lparr> acc_req := x5 \<rparr>) = req_ok inst nodes s"
  "req_ok inst nodes (s\<lparr> acc_rep := x6 \<rparr>) = req_ok inst nodes s"
  "req_ok inst nodes (s\<lparr> dec_req := x7 \<rparr>) = req_ok inst nodes s"
  by (simp_all add: fun_eq_iff req_ok_def split: prod.splits)

lemma prep_ok_grows:
  assumes "grows inst s s'" "set (prep_rep s) \<subseteq> set (prep_rep s')" "prep_ok s n st"
  shows "prep_ok s' n st"
  using assms grows_voted [OF assms(1)] unfolding prep_ok_def by (fastforce split: prod.splits)

lemma phase_ok_grows:
  assumes "grows inst s s'" "set (prep_rep s) \<subseteq> set (prep_rep s')" "set (acc_rep s) \<subseteq> set (acc_rep s')"
    and "acc_req s' = acc_req s" "phase_ok inst nodes s n ph"
  shows "phase_ok inst nodes s' n ph"
proof (cases ph)
  case (Preparing todo st newv)
  then show ?thesis using assms prep_ok_grows [OF assms(1,2)] by simp
next
  case (Accepting todo accepts v)
  then show ?thesis using assms grows_safe [OF assms(1)] grows_promised [OF assms(1)] by auto
next
  case (Deciding todo v)
  then show ?thesis using assms(5) grows_chosen [OF assms(1)] by auto
qed simp

lemma px_invD:
  assumes "px_inv inst nodes s"
  shows "inst \<noteq> 0" "acc_ok inst nodes s a" "(a, n, r) \<in> set (prep_rep s) \<Longrightarrow> reply_ok inst nodes s a n r"
    and "x \<in> set (acc_req s) \<Longrightarrow> req_ok inst nodes s x"
    and "(a, n, v) \<in> set (acc_req s) \<Longrightarrow> (a', n, v') \<in> set (acc_req s) \<Longrightarrow> v = v'"
    and "x \<in> set (voted s) \<Longrightarrow> x \<in> set (acc_req s)"
    and "(a, n, True) \<in> set (acc_rep s) \<Longrightarrow> \<exists>v. (a, n, v) \<in> set (voted s)"
    and "(a, v) \<in> set (dec_req s) \<Longrightarrow> \<exists>n. chosen nodes s n v"
    and "pr_m (my_n s p) = p" "phase_ok inst nodes s (my_n s p) (px_phase s p)"
  using assms unfolding px_inv_def by blast+

lemma px_invI:
  assumes "inst \<noteq> 0" "\<And>a. acc_ok inst nodes s a"
    and "\<And>a n r. (a, n, r) \<in> set (prep_rep s) \<Longrightarrow> reply_ok inst nodes s a n r"
    and "\<And>x. x \<in> set (acc_req s) \<Longrightarrow> req_ok inst nodes s x"
    and "\<And>a n v a' v'. (a, n, v) \<in> set (acc_req s) \<Longrightarrow> (a', n, v') \<in> set (acc_req s) \<Longrightarrow> v = v'"
    and "\<And>x. x \<in> set (voted s) \<Longrightarrow> x \<in> set (acc_req s)"
    and "\<And>a n. (a, n, True) \<in> set (acc_rep s) \<Longrightarrow> \<exists>v. (a, n, v) \<in> set (voted s)"
    and "\<And>a v. (a, v) \<in> set (dec_req s) \<Longrightarrow> \<exists>n. chosen nodes s n v"
    and "\<And>p. pr_m (my_n s p) = p" "\<And>p. phase_ok inst nodes s (my_n s p) (px_phase s p)"
  shows "px_inv inst nodes s"
  using assms unfolding px_inv_def by blast

lemma px_inv_grows:
  assumes "px_inv inst nodes s" "grows inst s s'"
    and "acc_req s' = acc_req s" "dec_req s' = dec_req s" "px_prop s' = px_prop s" "px_phase s' = px_phase s"
    and "set (prep_rep s) \<subseteq> set (prep_rep s')" "set (acc_rep s) \<subseteq> set (acc_rep s')"
    and "\<And>a. acc_ok inst nodes s' a"
    and "\<And>a n r. (a, n, r) \<in> set (prep_rep s') \<Longrightarrow> (a, n, r) \<notin> set (prep_rep s) \<Longrightarrow> reply_ok inst nodes s' a n r"
    and "set (voted s') \<subseteq> set (acc_req s)"
    and "\<And>a n. (a, n, True) \<in> set (acc_rep s') \<Longrightarrow> (a, n, True) \<notin> set (acc_rep s) \<Longrightarrow> \<exists>v. (a, n, v) \<in> set (voted s')"
  shows "px_inv inst nodes s'"
proof -
  note inv = assms(1) [unfolded px_inv_def]
  have "reply_ok inst nodes s' a n r" if "(a, n, r) \<in> set (prep_rep s')" for a n r
    using that assms(10) grows_reply_ok [OF assms(2)] px_invD(3) [OF assms(1)] by blast
  moreover have "req_ok inst nodes s' x" if "x \<in> set (acc_req s')" for x
  proof -
    have "req_ok inst nodes s x" using px_invD(4) [OF assms(1)] that assms(3) by simp
    then show ?thesis
      using grows_promised [OF assms(2)] grows_safe [OF assms(2)] assms(5) by (auto simp: req_ok_def)
  qed
  moreover have "\<exists>v. (a, n, v) \<in> set (voted s')" if "(a, n, True) \<in> set (acc_rep s')" for a n
    using px_invD(7) [OF assms(1)] that assms(12) grows_voted [OF assms(2)] by blast
  moreover have "\<exists>n. chosen nodes s' n v" if "(a, v) \<in> set (dec_req s')" for a v
    using px_invD(8) [OF assms(1)] that assms(4) grows_chosen [OF assms(2)] by metis
  moreover have "phase_ok inst nodes s' (my_n s' p) (px_phase s' p)" for p
    using px_invD(10) [OF assms(1)] phase_ok_grows [OF assms(2,7,8,3)] assms(5,6) by simp
  ultimately show ?thesis using inv assms(3,5,9,11) unfolding px_inv_def by auto
qed

lemma pred_less: "(inst :: u32) \<noteq> 0 \<Longrightarrow> inst - 1 < inst"
  by (simp add: word_less_nat_alt unat_minus_one unat_gt_0)

subsection \<open>Acceptors\<close>

lemma acc_ok_other:
  assumes "acc_ok inst nodes s b" "grows inst s s'" "px_acc s' b = px_acc s b"
    and "\<And>n v. (b, n, v) \<in> set (voted s') \<Longrightarrow> (b, n, v) \<in> set (voted s)"
  shows "acc_ok inst nodes s' b"
  using assms(1,3) grows_chosen [OF assms(2)] grows_voted [OF assms(2)] assms(4)
  unfolding acc_ok_def Let_def by metis

lemma acc_ok_open:
  assumes "acc_ok inst nodes s a" "inst \<noteq> 0"
  shows "inst \<le> a_instance_h (px_acc s a) \<longleftrightarrow> a_instance_h (px_acc s a) = inst"
  using assms pred_less [of inst] by (auto simp: acc_ok_def Let_def)

lemma px_inv_commit:
  assumes "px_inv inst nodes s" "chosen nodes s n v"
  shows "px_inv inst nodes (s\<lparr> px_acc := (px_acc s)(p := fst (commit_wo (px_acc s p) inst v)) \<rparr>)"
    (is "px_inv inst nodes ?s")
proof (cases "inst > a_instance_h (px_acc s p)")
  case False
  then show ?thesis using assms(1) by (simp add: commit_wo_def)
next
  case True
  have g: "grows inst s ?s" using True by (auto simp: grows_def promised_def commit_wo_def)
  show ?thesis
  proof (rule px_inv_grows [OF assms(1) g])
    fix a
    show "acc_ok inst nodes ?s a"
    proof (cases "a = p")
      case False
      then show ?thesis by (intro acc_ok_other [OF px_invD(2) [OF assms(1)] g]) simp_all
    next
      case eq: True
      show ?thesis
        using True assms(2) grows_chosen [OF g, of nodes n v]
        by (auto simp: acc_ok_def eq commit_wo_def omap_get_set)
    qed
  qed (use px_invD(6) [OF assms(1)] in auto)
qed

lemma px_inv_DoPrepare:
  assumes "px_inv inst nodes s" "px_exec fresh inst nodes (DoPrepare a n r0) s = Some s'"
  shows "px_inv inst nodes s'"
proof -
  let ?A = "px_acc s a" and ?arg = "\<lparr> pa_instance = inst, pa_n = n \<rparr>"
  obtain r acc where pr: "preparereq ?A ?arg r0 = (r, acc)" by fastforce
  have s': "s' = s\<lparr> px_acc := (px_acc s)(a := acc), prep_rep := (a, n, r) # prep_rep s \<rparr>"
    using assms(2) by (simp add: pr split: if_splits)
  have A: "acc_ok inst nodes s a" by (rule px_invD(2) [OF assms(1)])
  note op = acc_ok_open [OF A px_invD(1) [OF assms(1)]]
  have acc: "a_instance_h acc = a_instance_h ?A" "a_v_a acc = a_v_a ?A" "a_n_a acc = a_n_a ?A"
      "a_n_h ?A \<le> a_n_h acc" "omap_get [] (a_values acc) inst = omap_get [] (a_values ?A) inst"
    using pr by (auto simp: preparereq_def Let_def split: if_splits)
  have vs: "voted s' = voted s" "px_acc s' a = acc" by (simp_all add: s')
  have ch: "chosen nodes s' m w = chosen nodes s m w" for m w by (simp add: chosen_def vs)
  have g: "grows inst s s'"
    using acc(1,4) by (auto simp: s' grows_def promised_def)
  have ok: "acc_ok inst nodes s' a"
    using A acc by (auto simp: acc_ok_def Let_def vs ch)
  have rep: "reply_ok inst nodes s' a n r"
  proof (cases "inst \<le> a_instance_h ?A")
    case True
    then have r: "ps_oldinstance r" "ps_v_a r = omap_get [] (a_values ?A) inst"
      using pr by (auto simp: preparereq_def)
    have "\<exists>n. chosen nodes s n (omap_get [] (a_values ?A) inst)"
      using True op A by (simp add: acc_ok_def Let_def)
    then show ?thesis by (simp add: reply_ok_def r ch)
  next
    case False
    then have o: "a_instance_h ?A \<noteq> inst" using op by simp
    show ?thesis
    proof (cases "a_n_h ?A < n")
      case True
      with False pr have r: "ps_n_a r = a_n_a ?A" "ps_v_a r = a_v_a ?A" "a_n_h acc = n"
        "\<not> ps_oldinstance r"
        by (auto simp: preparereq_def Let_def)
      show ?thesis
        using A o True r by (auto simp: reply_ok_def vs promised_def no_votes_below_def votes_below_def acc_ok_def Let_def)
    next
      case no: False
      with False pr show ?thesis by (auto simp: reply_ok_def preparereq_def)
    qed
  qed
  have other: "b \<noteq> a \<Longrightarrow> acc_ok inst nodes s' b" for b
    by (rule acc_ok_other [OF px_invD(2) [OF assms(1)] g]) (simp_all add: s')
  show ?thesis
  proof (rule px_inv_grows [OF assms(1) g])
    show "acc_ok inst nodes s' b" for b using ok other by (cases "b = a") simp_all
  qed (use rep px_invD(6) [OF assms(1)] in \<open>auto simp: s'\<close>)
qed

lemma px_inv_DoAccept:
  assumes "px_inv inst nodes s" "px_exec True inst nodes (DoAccept a n v) s = Some s'"
  shows "px_inv inst nodes s'"
proof -
  let ?A = "px_acc s a" and ?arg = "\<lparr> aa_instance = inst, aa_n = n, aa_v = v \<rparr>"
  obtain b acc where ar: "acceptreq ?A ?arg = (b, acc)" by fastforce
  have s': "s' = s\<lparr> px_acc := (px_acc s)(a := acc), acc_rep := (a, n, b) # acc_rep s,
      voted := (if b then (a, n, v) # voted s else voted s) \<rparr>"
    and rq: "(a, n, v) \<in> set (acc_req s)" and lt: "a_instance_h ?A < inst"
    using assms(2) by (auto simp: ar split: if_splits)
  have A: "acc_ok inst nodes s a" by (rule px_invD(2) [OF assms(1)])
  have q: "v \<noteq> []" "n \<le> a_n_h ?A"
    using px_invD(4) [OF assms(1) rq] lt by (auto simp: req_ok_def promised_def)
  have b: "b = (a_n_h ?A \<le> n)" and acc: "b \<Longrightarrow> n = a_n_h ?A \<and> a_n_h acc = a_n_h ?A \<and> a_n_a acc = n \<and>
      a_v_a acc = v \<and> a_instance_h acc = a_instance_h ?A" "\<not> b \<Longrightarrow> acc = ?A"
    using ar q(2) by (auto simp: acceptreq_def Let_def split: if_splits)
  have g: "grows inst s s'"
    using lt acc b by (cases b) (auto simp: s' grows_def promised_def)
  have ok: "acc_ok inst nodes s' a"
  proof (cases b)
    case False
    then show ?thesis
      using acc_ok_other [OF A g] by (simp add: s' acc(2))
  next
    case True
    have "m \<le> n" if "(a, m, w) \<in> set (voted s)" for m w
      using A that lt acc(1) [OF True] by (cases "a_v_a ?A = []") (auto simp: acc_ok_def Let_def)
    moreover have "a_instance_h ?A = inst - 1" using A lt by (auto simp: acc_ok_def Let_def)
    ultimately show ?thesis using acc(1) [OF True] lt q(1) True by (auto simp: acc_ok_def s' Let_def)
  qed
  have other: "c \<noteq> a \<Longrightarrow> acc_ok inst nodes s' c" for c
    by (rule acc_ok_other [OF px_invD(2) [OF assms(1)] g]) (simp_all add: s' split: if_splits)
  show ?thesis
  proof (rule px_inv_grows [OF assms(1) g])
    show "acc_ok inst nodes s' c" for c using ok other by (cases "c = a") simp_all
  qed (use rq px_invD(6) [OF assms(1)] in \<open>auto simp: s' split: if_splits\<close>)
qed

lemma px_inv_DoDecide:
  assumes "px_inv inst nodes s" "px_exec fresh inst nodes (DoDecide a v) s = Some s'"
  shows "px_inv inst nodes s'"
proof -
  have rq: "(a, v) \<in> set (dec_req s)" using assms(2) by (auto split: if_splits)
  obtain n where ch: "chosen nodes s n v" using px_invD(8) [OF assms(1) rq] by blast
  have "s' = s\<lparr> px_acc := (px_acc s)(a := fst (commit_wo (px_acc s a) inst v)) \<rparr> \<or> s' = s"
    using assms(2) rq by (auto simp: decidereq_def split: if_splits)
  then show ?thesis using px_inv_commit [OF assms(1) ch] assms(1) by auto
qed

subsection \<open>Proposers\<close>

lemma px_inv_set_phase:
  assumes "px_inv inst nodes s" "phase_ok inst nodes s (my_n s p) ph"
  shows "px_inv inst nodes (set_phase p ph s)"
  using assms unfolding px_inv_def set_phase_def by (simp, blast)

lemma px_inv_finish_run: "px_inv inst nodes s \<Longrightarrow> px_inv inst nodes (finish_run p s)"
  unfolding px_inv_def finish_run_def by (auto simp: req_ok_def)

lemma px_inv_Start:
  assumes "px_inv inst nodes s" "px_exec fresh inst nodes (Start p newv) s = Some s'"
  shows "px_inv inst nodes s'"
proof -
  let ?p = "(setn (px_prop s p) (a_n_h (px_acc s p)))\<lparr> p_stable := False \<rparr>"
  let ?s = "s\<lparr> px_prop := (px_prop s)(p := ?p) \<rparr>"
  let ?ph = "Preparing nodes ([], [], Prop 0 []) newv"
  have s': "s' = set_phase p ?ph ?s" and g: "newv \<noteq> []" "pr_n (my_n s p) < pr_n (p_my_n ?p)"
      "px_phase s p = Idle"
    using assms(2) by (auto simp: Let_def split: if_splits)
  have m: "pr_m (p_my_n ?p) = p" using px_invD(9) [OF assms(1), of p] by (simp add: setn_def)
  have less: "my_n s p < p_my_n ?p" using g(2) by (simp add: prop_less_sel)
  have le: "my_n s q \<le> my_n ?s q" for q using less by (cases "q = p") simp_all
  have req: "req_ok inst nodes ?s x" if "x \<in> set (acc_req s)" for x
    using px_invD(4) [OF assms(1) that] le order.trans by (fastforce simp: req_ok_def)
  have none: "(a, p_my_n ?p, v) \<notin> set (acc_req s)" for a v
  proof
    assume "(a, p_my_n ?p, v) \<in> set (acc_req s)"
    from px_invD(4) [OF assms(1) this] have "p_my_n ?p \<le> my_n s (pr_m (p_my_n ?p))"
      unfolding req_ok_def prod.case by blast
    with less show False unfolding m using leD by blast
  qed
  have pos: "0 < pr_n (p_my_n ?p)" using g(2) by (metis word_gt_0 not_less0 word_not_simps(1))
  have ph: "phase_ok inst nodes s (p_my_n ?p) ?ph" using g(1) none pos by (simp add: prep_ok_def)
  show ?thesis
    unfolding s'
  proof (rule px_inv_set_phase)
    have phs: "phase_ok inst nodes ?s (my_n ?s q) (px_phase ?s q)" for q
      using px_invD(10) [OF assms(1), of q] g(3) by (cases "q = p") simp_all
    show "px_inv inst nodes ?s"
      by (rule px_invI) (use px_invD [OF assms(1)] req phs m in simp_all)
    show "phase_ok inst nodes ?s (my_n ?s p) ?ph" using ph by simp
  qed
qed

lemma prep_ok_step:
  assumes "prep_ok s n st" "prepare_one node (Some r) st = Inr st'" "(node, n, r) \<in> set (prep_rep s)"
    and "reply_ok inst nodes s node n r" "\<And>q m v. (q, m, v) \<in> set (voted s) \<Longrightarrow> 0 < pr_n m"
  shows "prep_ok s n st'"
proof -
  obtain accepts v cur where st: "st = (accepts, v, cur)" by (cases st) auto
  have zero: "\<not> m' < m" if "pr_n m = 0" "0 < pr_n m'" for m m' :: prop_t
    using that by (auto simp: prop_less_sel)
  note ok = assms(1) [unfolded st prep_ok_def prod.case]
  consider "\<not> ps_accept r" | "ps_accept r" "cur < ps_n_a r" | "ps_accept r" "\<not> cur < ps_n_a r" by blast
  then show ?thesis
  proof cases
    case 1
    then show ?thesis using assms(1,2) by (auto simp: st split: if_splits)
  next
    case 2
    then have st': "st' = (accepts @ [node], ps_v_a r, ps_n_a r)" and no: "\<not> ps_oldinstance r"
      using assms(2) by (auto simp: st split: if_splits)
    have v: "v \<noteq> [] \<Longrightarrow> ps_v_a r \<noteq> []"
      using ok 2 no assms(4) zero [of "ps_n_a r" cur] by (auto simp: reply_ok_def)
    have acc: "\<exists>r'. (q, n, r') \<in> set (prep_rep s) \<and> ps_accept r' \<and> \<not> ps_oldinstance r' \<and>
        (ps_v_a r' \<noteq> [] \<longrightarrow> ps_v_a r \<noteq> [] \<and> ps_n_a r' \<le> ps_n_a r)" if "q \<in> set (accepts @ [node])" for q
    proof (cases "q \<in> set accepts")
      case True
      then obtain r' where "(q, n, r') \<in> set (prep_rep s)" "ps_accept r'" "\<not> ps_oldinstance r'"
          "ps_v_a r' \<noteq> [] \<longrightarrow> v \<noteq> [] \<and> ps_n_a r' \<le> cur" using ok by blast
      then show ?thesis using v 2(2) by (meson less_imp_le order.trans)
    next
      case False
      then have "q = node" using that by simp
      then show ?thesis using assms(3) 2 no by blast
    qed
    show ?thesis
      using acc 2 no assms(4,5) unfolding st' prep_ok_def prod.case by (auto simp: reply_ok_def)
  next
    case 3
    then have st': "st' = (accepts @ [node], v, cur)" and no: "\<not> ps_oldinstance r"
      using assms(2) by (auto simp: st split: if_splits)
    have v: "v \<noteq> []" if "ps_v_a r \<noteq> []"
    proof
      assume "v = []"
      then have "pr_n cur = 0" using ok by blast
      moreover have "0 < pr_n (ps_n_a r)" using that assms(4,5) 3 no by (auto simp: reply_ok_def)
      ultimately show False using 3(2) by (auto simp: prop_less_sel)
    qed
    show ?thesis
      using ok v assms(3) 3 no unfolding st' prep_ok_def prod.case by (auto simp: not_less)
  qed
qed

lemma voted_pos: "px_inv inst nodes s \<Longrightarrow> (q, m, v) \<in> set (voted s) \<Longrightarrow> 0 < pr_n m"
  using px_invD(4,6) by (fastforce simp: req_ok_def)

lemma px_inv_GotPrepare:
  assumes "px_inv inst nodes s" "px_exec fresh inst nodes (GotPrepare p res) s = Some s'"
  shows "px_inv inst nodes s'"
proof -
  obtain node todo st newv where ph: "px_phase s p = Preparing (node # todo) st newv"
    using assms(2) by (auto split: phase.splits list.splits)
  note pok = px_invD(10) [OF assms(1), of p, unfolded ph phase_ok.simps]
  have rep: "(node, my_n s p, r) \<in> set (prep_rep s)" if "res = Some r" for r
    using assms(2) that by (simp add: ph split: if_splits)
  show ?thesis
  proof (cases "prepare_one node res st")
    case (Inl v)
    then obtain r where r: "res = Some r" "ps_oldinstance r" "v = ps_v_a r"
      by (cases res; cases st) (auto split: if_splits)
    then obtain n where "chosen nodes s n v"
      using px_invD(3) [OF assms(1) rep [OF r(1)]] by (auto simp: reply_ok_def)
    moreover have "s' = finish_run p (s\<lparr> px_acc := (px_acc s)(p := fst (commit_wo (px_acc s p) inst v)) \<rparr>)"
      using assms(2) Inl by (simp add: ph split: if_splits)
    ultimately show ?thesis using px_inv_finish_run px_inv_commit [OF assms(1)] by simp
  next
    case (Inr st')
    have s': "s' = set_phase p (Preparing todo st' newv) s"
      using assms(2) Inr by (simp add: ph split: if_splits)
    have "prep_ok s (my_n s p) st'"
    proof (cases res)
      case None
      then show ?thesis using Inr pok by simp
    next
      case (Some r)
      then show ?thesis
        using prep_ok_step [of s "my_n s p" st node r st' inst nodes] Inr pok rep [OF Some]
          px_invD(3) [OF assms(1) rep [OF Some]] voted_pos [OF assms(1)] by simp
    qed
    then show ?thesis unfolding s' using pok by (intro px_inv_set_phase [OF assms(1)]) simp
  qed
qed

lemma prep_ok_safe:
  assumes "px_inv inst nodes s" "prep_ok s n (accepts, v, cur)" "majority nodes accepts"
  shows "safe inst nodes s n (if length v = 0 then newv else v)" "\<forall>q \<in> set accepts. promised inst s q n"
proof -
  have each: "\<exists>r. reply_ok inst nodes s q n r \<and> ps_accept r \<and> \<not> ps_oldinstance r \<and>
      (ps_v_a r \<noteq> [] \<longrightarrow> v \<noteq> [] \<and> ps_n_a r \<le> cur)" if "q \<in> set accepts" for q
    using assms(2) that px_invD(3) [OF assms(1)] unfolding prep_ok_def prod.case by meson
  then show p: "\<forall>q \<in> set accepts. promised inst s q n" unfolding reply_ok_def by meson
  have "(\<forall>q \<in> set accepts. no_votes_below s q n) \<or>
     (\<exists>m q'. m < n \<and> (q', m, if length v = 0 then newv else v) \<in> set (voted s) \<and> (\<forall>q \<in> set accepts. votes_below s q n m))"
  proof (cases "v = []")
    case True
    have "no_votes_below s q n" if "q \<in> set accepts" for q
      using each [OF that] True unfolding reply_ok_def by metis
    then show ?thesis by blast
  next
    case False
    then obtain q' where q': "cur < n" "(q', cur, v) \<in> set (voted s)"
      using assms(2) unfolding prep_ok_def prod.case by blast
    have "votes_below s q n cur" if q: "q \<in> set accepts" for q
    proof -
      obtain r where r: "reply_ok inst nodes s q n r" "ps_accept r" "\<not> ps_oldinstance r"
        "ps_v_a r \<noteq> [] \<longrightarrow> ps_n_a r \<le> cur" using each [OF q] by blast
      then show ?thesis
        by (cases "ps_v_a r = []")
          (auto simp: reply_ok_def no_votes_below_def votes_below_def intro: order.trans)
    qed
    then show ?thesis using q' False by auto
  qed
  with p assms(3) show "safe inst nodes s n (if length v = 0 then newv else v)" unfolding safe_def by blast
qed

lemma px_inv_SendPrepare:
  assumes "px_inv inst nodes s" "px_exec fresh inst nodes (SendPrepare p) s = Some s'"
  shows "px_inv inst nodes s'"
proof -
  have "\<exists>x. s' = s\<lparr> prep_req := x \<rparr>" using assms(2) by (auto split: phase.splits list.splits)
  then show ?thesis using assms(1) unfolding px_inv_def by auto
qed

lemma px_inv_PrepareDone:
  assumes "px_inv inst nodes s" "px_exec fresh inst nodes (PrepareDone p) s = Some s'"
  shows "px_inv inst nodes s'"
proof -
  obtain accepts v cur newv where ph: "px_phase s p = Preparing [] (accepts, v, cur) newv"
    using assms(2) by (auto split: phase.splits list.splits prod.splits)
  note pok = px_invD(10) [OF assms(1), of p, unfolded ph phase_ok.simps]
  show ?thesis
  proof (cases "majority nodes accepts")
    case False
    then have "s' = finish_run p s" using assms(2) by (simp add: ph)
    then show ?thesis using px_inv_finish_run [OF assms(1)] by simp
  next
    case True
    let ?v = "if length v = 0 then newv else v"
    have s': "s' = set_phase p (Accepting accepts [] ?v) s" using assms(2) True by (simp add: ph)
    have "safe inst nodes s (my_n s p) ?v" "\<forall>q \<in> set accepts. promised inst s q (my_n s p)"
      using prep_ok_safe [OF assms(1) _ True] pok by blast+
    then have "phase_ok inst nodes s (my_n s p) (Accepting accepts [] ?v)" using pok by simp
    then show ?thesis unfolding s' by (rule px_inv_set_phase [OF assms(1)])
  qed
qed

lemma px_inv_SendAccept:
  assumes "px_inv inst nodes s" "px_exec fresh inst nodes (SendAccept p) s = Some s'"
  shows "px_inv inst nodes s'"
proof -
  obtain node todo accepts v where ph: "px_phase s p = Accepting (node # todo) accepts v"
    using assms(2) by (auto split: phase.splits list.splits)
  let ?n = "my_n s p" and ?s = "s\<lparr> acc_req := (node, my_n s p, v) # acc_req s \<rparr>"
  note pok = px_invD(10) [OF assms(1), of p, unfolded ph phase_ok.simps]
  have s': "s' = ?s" using assms(2) by (simp add: ph)
  have req: "req_ok inst nodes s (node, ?n, v)"
    using pok px_invD(9) [OF assms(1), of p] by (simp add: req_ok_def)
  have phs: "phase_ok inst nodes ?s (my_n s q) (px_phase s q)" for q
  proof (cases "q = p")
    case True
    then show ?thesis using pok by (simp add: ph)
  next
    case False
    then have "my_n s q \<noteq> ?n" using px_invD(9) [OF assms(1)] by metis
    then show ?thesis using px_invD(10) [OF assms(1), of q] by (cases "px_phase s q") auto
  qed
  have uniq: "v1 = v2" if "(a, n, v1) \<in> set (acc_req ?s)" "(a', n, v2) \<in> set (acc_req ?s)" for a a' n v1 v2
    using that pok px_invD(5) [OF assms(1)] by auto
  have m: "pr_m (my_n ?s q) = q" for q using px_invD(9) [OF assms(1)] by simp
  show ?thesis
    unfolding s'
  proof (rule px_invI)
    show "req_ok inst nodes ?s x" if "x \<in> set (acc_req ?s)" for x
      using that req px_invD(4) [OF assms(1), of x] by auto
    show "v1 = v2" if "(a, n, v1) \<in> set (acc_req ?s)" "(a', n, v2) \<in> set (acc_req ?s)" for a a' n v1 v2
      using that by (rule uniq)
    show "x \<in> set (acc_req ?s)" if "x \<in> set (voted ?s)" for x
      using px_invD(6) [OF assms(1), of x] that by simp
  qed (use px_invD(1,2,3,7,8) [OF assms(1)] phs m in simp_all)
qed

lemma px_inv_GotAccept:
  assumes "px_inv inst nodes s" "px_exec fresh inst nodes (GotAccept p res) s = Some s'"
  shows "px_inv inst nodes s'"
proof -
  obtain node todo accepts v where ph: "px_phase s p = Accepting (node # todo) accepts v"
    using assms(2) by (auto split: phase.splits list.splits)
  note pok = px_invD(10) [OF assms(1), of p, unfolded ph phase_ok.simps]
  have rep: "(node, my_n s p, r) \<in> set (acc_rep s)" if "res = Some r" for r
    using assms(2) that by (simp add: ph split: if_splits)
  have s': "s' = set_phase p (Accepting todo (accept_one node res accepts) v) s"
    using assms(2) by (simp add: ph split: if_splits)
  have "(q, my_n s p, True) \<in> set (acc_rep s)" if "q \<in> set (accept_one node res accepts)" for q
    using that rep pok by (cases "res = Some True") (auto simp: accept_one_def split: option.splits if_splits)
  then have "phase_ok inst nodes s (my_n s p) (Accepting todo (accept_one node res accepts) v)"
    using pok by simp
  then show ?thesis unfolding s' by (rule px_inv_set_phase [OF assms(1)])
qed

lemma px_inv_AcceptDone:
  assumes "px_inv inst nodes s" "px_exec fresh inst nodes (AcceptDone p) s = Some s'"
  shows "px_inv inst nodes s'"
proof -
  obtain accepts v where ph: "px_phase s p = Accepting [] accepts v"
    using assms(2) by (auto split: phase.splits list.splits)
  note pok = px_invD(10) [OF assms(1), of p, unfolded ph phase_ok.simps]
  show ?thesis
  proof (cases "majority nodes accepts")
    case False
    then have "s' = finish_run p s" using assms(2) by (simp add: ph)
    then show ?thesis using px_inv_finish_run [OF assms(1)] by simp
  next
    case True
    have s': "s' = set_phase p (Deciding accepts v) s" using assms(2) True by (simp add: ph)
    have "(q, my_n s p, v) \<in> set (voted s)" if "q \<in> set accepts" for q
    proof -
      obtain w where w: "(q, my_n s p, w) \<in> set (voted s)"
        using px_invD(7) [OF assms(1)] pok \<open>q \<in> set accepts\<close> by blast
      then show ?thesis using pok px_invD(6) [OF assms(1) w] by blast
    qed
    then have "chosen nodes s (my_n s p) v" using True unfolding chosen_def by blast
    then have "phase_ok inst nodes s (my_n s p) (Deciding accepts v)" by auto
    then show ?thesis unfolding s' by (rule px_inv_set_phase [OF assms(1)])
  qed
qed

lemma px_inv_SendDecide:
  assumes "px_inv inst nodes s" "px_exec fresh inst nodes (SendDecide p) s = Some s'"
  shows "px_inv inst nodes s'"
proof -
  obtain todo v where ph: "px_phase s p = Deciding todo v"
    using assms(2) by (auto split: phase.splits)
  note pok = px_invD(10) [OF assms(1), of p, unfolded ph phase_ok.simps]
  show ?thesis
  proof (cases todo)
    case Nil
    then have "s' = finish_run p s" using assms(2) by (simp add: ph)
    then show ?thesis using px_inv_finish_run [OF assms(1)] by simp
  next
    case (Cons node todo')
    let ?s = "s\<lparr> dec_req := (node, v) # dec_req s \<rparr>"
    have s': "s' = set_phase p (Deciding todo' v) ?s" using assms(2) Cons by (simp add: ph)
    have "px_inv inst nodes ?s"
    proof (rule px_invI)
      show "\<exists>n. chosen nodes ?s n w" if "(a, w) \<in> set (dec_req ?s)" for a w
        using that pok px_invD(8) [OF assms(1)] by auto
      show "w = w'" if "(a, n, w) \<in> set (acc_req ?s)" "(a', n, w') \<in> set (acc_req ?s)" for a n w a' w'
        using that px_invD(5) [OF assms(1)] by simp
    qed (use px_invD(1,2,3,4,6,7,9,10) [OF assms(1)] in simp_all)
    moreover have "phase_ok inst nodes ?s (my_n ?s p) (Deciding todo' v)" using pok by simp
    ultimately show ?thesis unfolding s' by (rule px_inv_set_phase)
  qed
qed

lemma px_inv_step:
  assumes "px_inv inst nodes s" "px_exec True inst nodes ev s = Some s'"
  shows "px_inv inst nodes s'"
proof (cases ev)
  case (Start xa xb)
  then show ?thesis using px_inv_Start [OF assms(1)] assms(2) by blast
next
  case (SendPrepare xa)
  then show ?thesis using px_inv_SendPrepare [OF assms(1)] assms(2) by blast
next
  case (GotPrepare xa xb)
  then show ?thesis using px_inv_GotPrepare [OF assms(1)] assms(2) by blast
next
  case (PrepareDone xa)
  then show ?thesis using px_inv_PrepareDone [OF assms(1)] assms(2) by blast
next
  case (SendAccept xa)
  then show ?thesis using px_inv_SendAccept [OF assms(1)] assms(2) by blast
next
  case (GotAccept xa xb)
  then show ?thesis using px_inv_GotAccept [OF assms(1)] assms(2) by blast
next
  case (AcceptDone xa)
  then show ?thesis using px_inv_AcceptDone [OF assms(1)] assms(2) by blast
next
  case (SendDecide xa)
  then show ?thesis using px_inv_SendDecide [OF assms(1)] assms(2) by blast
next
  case (DoPrepare xa xb xc)
  then show ?thesis using px_inv_DoPrepare [OF assms(1)] assms(2) by blast
next
  case (DoAccept xa xb xc)
  then show ?thesis using px_inv_DoAccept [OF assms(1)] assms(2) by blast
next
  case (DoDecide xa xb)
  then show ?thesis using px_inv_DoDecide [OF assms(1)] assms(2) by blast
qed

lemma px_inv_start: "px_start inst s \<Longrightarrow> px_inv inst nodes s"
  by (simp add: px_start_def px_inv_def acc_ok_def Let_def)

lemma px_inv_reach: "px_reach True inst nodes s \<Longrightarrow> px_inv inst nodes s"
  by (induction rule: px_reach.induct) (auto intro: px_inv_start px_inv_step)

section \<open>Agreement\<close>


definition ballots_below :: "px \<Rightarrow> prop_t \<Rightarrow> prop_t set" where
  "ballots_below s n = {m \<in> (fst \<circ> snd) ` set (voted s). m < n}"

lemma card_ballots_below:
  assumes "(q, m, v) \<in> set (voted s)" "m < n"
  shows "card (ballots_below s m) < card (ballots_below s n)"
proof (rule psubset_card_mono)
  show "finite (ballots_below s n)" by (simp add: ballots_below_def)
  have "m = (fst \<circ> snd) (q, m, v)" by simp
  then have "m \<in> ballots_below s n" using assms unfolding ballots_below_def by blast
  moreover have "m \<notin> ballots_below s m" by (simp add: ballots_below_def)
  moreover have "ballots_below s m \<subseteq> ballots_below s n" using assms(2) by (auto simp: ballots_below_def)
  ultimately show "ballots_below s m \<subset> ballots_below s n" by blast
qed

lemma chosen_unique:
  assumes "px_inv inst nodes s" "chosen nodes s n v" "(a, n', v') \<in> set (acc_req s)" "n \<le> n'"
  shows "v' = v"
  using assms(3,4)
proof (induction "card (ballots_below s n')" arbitrary: a n' v' rule: less_induct)
  case less
  obtain Q where Q: "majority nodes Q" "\<And>q. q \<in> set Q \<Longrightarrow> (q, n, v) \<in> set (voted s)"
    using assms(2) by (auto simp: chosen_def)
  have "safe inst nodes s n' v'"
    using px_invD(4) [OF assms(1) less.prems(1)] by (simp add: req_ok_def)
  then obtain Q' where Q': "majority nodes Q'"
    and d: "(\<forall>q \<in> set Q'. no_votes_below s q n') \<or>
       (\<exists>m q'. m < n' \<and> (q', m, v') \<in> set (voted s) \<and> (\<forall>q \<in> set Q'. votes_below s q n' m))"
    unfolding safe_def by blast
  obtain q where q: "q \<in> set Q" "q \<in> set Q'" using majorities_meet [OF Q(1) Q'] by blast
  note vote = Q(2) [OF q(1)]
  show ?case
  proof (cases "n = n'")
    case True
    show ?thesis
      by (rule px_invD(5) [OF assms(1) less.prems(1)], unfold True [symmetric], rule px_invD(6) [OF assms(1) vote])
  next
    case False
    then have lt: "n < n'" using less.prems(2) by simp
    then have "\<not> no_votes_below s q n'" using vote unfolding no_votes_below_def by blast
    then obtain m q' where m: "m < n'" "(q', m, v') \<in> set (voted s)" "votes_below s q n' m"
      using d q(2) by blast
    have "n \<le> m" using m(3) vote lt unfolding votes_below_def by blast
    with card_ballots_below [OF m(2,1)] px_invD(6) [OF assms(1) m(2)] show ?thesis
      by (rule less.hyps)
  qed
qed

lemma chosen_agree:
  assumes "px_inv inst nodes s" "chosen nodes s n v" "chosen nodes s n' v'"
  shows "v = v'"
proof -
  obtain Q Q' where Q: "majority nodes Q" "majority nodes Q'"
      "\<And>q. q \<in> set Q \<Longrightarrow> (q, n, v) \<in> set (voted s)" "\<And>q. q \<in> set Q' \<Longrightarrow> (q, n', v') \<in> set (voted s)"
    using assms(2,3) by (auto simp: chosen_def)
  obtain q where q: "q \<in> set Q" "q \<in> set Q'" using majorities_meet [OF Q(1,2)] by blast
  have r: "(q, n, v) \<in> set (acc_req s)" "(q, n', v') \<in> set (acc_req s)"
    using q Q(3,4) px_invD(6) [OF assms(1)] by blast+
  show ?thesis
    using linear [of n n'] chosen_unique [OF assms(1,2) r(2)] chosen_unique [OF assms(1,3) r(1)] by blast
qed

subsection \<open>Concrete runs\<close>

fun px_run :: "bool \<Rightarrow> u32 \<Rightarrow> string list \<Rightarrow> px_event list \<Rightarrow> px \<Rightarrow> px option" where
  "px_run fresh inst nodes [] s = Some s"
| "px_run fresh inst nodes (ev # evs) s =
     (case px_exec fresh inst nodes ev s of None \<Rightarrow> None | Some s' \<Rightarrow> px_run fresh inst nodes evs s')"

lemma px_run_reach:
  "px_reach fresh inst nodes s \<Longrightarrow> px_run fresh inst nodes evs s = Some s' \<Longrightarrow> px_reach fresh inst nodes s'"
  by (induction evs arbitrary: s) (auto split: option.splits intro: px_reach.step)

definition px_zero :: px where
  "px_zero = \<lparr> px_acc = (\<lambda>a. acceptor_init a []), px_prop = proposer_new, px_phase = (\<lambda>_. Idle),
     prep_req = [], prep_rep = [], acc_req = [], acc_rep = [], dec_req = [], voted = [] \<rparr>"

lemma px_start_zero: "px_start 1 px_zero"
  by (simp add: px_start_def px_zero_def acceptor_init_def proposer_new_def)

definition res_new :: prepareres where
  "res_new = \<lparr> ps_oldinstance = False, ps_accept = False, ps_n_a = Prop 0 [], ps_v_a = [] \<rparr>"

definition res_ok :: "string \<Rightarrow> prepareres" where
  "res_ok a = \<lparr> ps_oldinstance = False, ps_accept = True, ps_n_a = Prop 0 a, ps_v_a = [] \<rparr>"

definition ask :: "string \<Rightarrow> prop_t \<Rightarrow> string \<Rightarrow> px_event list" where
  "ask p n a = [SendPrepare p, DoPrepare a n res_new, GotPrepare p (Some (res_ok a))]"

definition vote :: "string \<Rightarrow> prop_t \<Rightarrow> string \<Rightarrow> string \<Rightarrow> px_event list" where
  "vote p n v a = [SendAccept p, DoAccept a n v, GotAccept p (Some True)]"

definition good_run :: "px_event list" where
  "good_run =
     [Start ''a'' ''x''] @ concat (map (ask ''a'' (Prop 1 ''a'')) [''a'', ''b'']) @ [PrepareDone ''a''] @
     concat (map (vote ''a'' (Prop 1 ''a'') ''x'') [''a'', ''b'']) @
     [AcceptDone ''a'', SendDecide ''a'', SendDecide ''a'', DoDecide ''a'' ''x'', DoDecide ''b'' ''x'']"




end
