(* ===== verification/Paxos_Stale.thy ===== *)
theory Paxos_Stale
  imports Paxos_Agreement
begin

text \<open>
  A concrete run of the system of \<open>Paxos_Agreement\<close>, without the restriction on accept requests, that
  breaks agreement.
\<close>

section \<open>A run that decides two values\<close>

text \<open>Node \<open>a\<close> prepares at all three nodes and stalls; node \<open>b\<close> prepares with a higher number, gets
  \<open>y\<close> accepted and decided at \<open>a\<close> and \<open>b\<close>; deciding resets their \<open>n_h\<close>, so the delayed accept requests
  of \<open>a\<close> for \<open>x\<close> succeed everywhere, and \<open>c\<close> decides \<open>x\<close>.\<close>

definition bad_run :: "px_event list" where
  "bad_run =
     [Start ''a'' ''x''] @ concat (map (ask ''a'' (Prop 1 ''a'')) [''a'', ''b'', ''c'']) @ [PrepareDone ''a''] @
     [Start ''b'' ''y''] @ concat (map (ask ''b'' (Prop 2 ''b'')) [''a'', ''b'']) @
     [GotPrepare ''b'' None, PrepareDone ''b''] @ concat (map (vote ''b'' (Prop 2 ''b'') ''y'') [''a'', ''b'']) @
     [AcceptDone ''b'', SendDecide ''b'', SendDecide ''b'', DoDecide ''a'' ''y'', DoDecide ''b'' ''y''] @
     concat (map (vote ''a'' (Prop 1 ''a'') ''x'') [''a'', ''b'', ''c'']) @
     [AcceptDone ''a'', SendDecide ''a'', SendDecide ''a'', SendDecide ''a'', DoDecide ''c'' ''x'']"

text \<open>
  C33: Agreement can be violated.  \<open>acceptreq\<close> neither checks the instance of the request nor whether
  that instance has been decided here, and deciding resets \<open>n_h\<close>; a delayed accept request with a lower
  proposal number is therefore accepted by nodes that have already decided, and a third node decides
  another value for the same instance.
\<close>

theorem stale_accept_disagreement:
  "\<exists>s. px_reach False 1 [''a'', ''b'', ''c''] s \<and> decided 1 s ''a'' ''y'' \<and> decided 1 s ''c'' ''x''"
proof -
  have "(case px_run False 1 [''a'', ''b'', ''c''] bad_run px_zero of
      None \<Rightarrow> False | Some s \<Rightarrow> decided 1 s ''a'' ''y'' \<and> decided 1 s ''c'' ''x'')"
    by code_simp
  then obtain s where "px_run False 1 [''a'', ''b'', ''c''] bad_run px_zero = Some s"
      "decided 1 s ''a'' ''y''" "decided 1 s ''c'' ''x''"
    by (auto split: option.splits)
  then show ?thesis using px_run_reach [OF px_reach.init [OF px_start_zero]] by blast
qed

end
