(* ===== verification/Lock_Protocol.thy ===== *)
theory Lock_Protocol
  imports Marshal
begin

text \<open>The constants of the lock protocols (\<open>lock_protocol.h\<close>).\<close>

definition lk_OK :: u32 where "lk_OK = 0"
definition lk_RETRY :: u32 where "lk_RETRY = 1"
definition lk_RPCERR :: u32 where "lk_RPCERR = 2"
definition lk_NOENT :: u32 where "lk_NOENT = 3"
definition lk_IOERR :: u32 where "lk_IOERR = 4"
definition lk_acquire :: u32 where "lk_acquire = 0x7001"
definition lk_release :: u32 where "lk_release = 0x7002"
definition lk_stat :: u32 where "lk_stat = 0x7003"
definition rl_OK :: u32 where "rl_OK = 0"
definition rl_RPCERR :: u32 where "rl_RPCERR = 1"
definition rl_revoke :: u32 where "rl_revoke = 0x8001"
definition rl_retry :: u32 where "rl_retry = 0x8002"

lemmas lock_codes = lk_OK_def lk_RETRY_def lk_RPCERR_def lk_NOENT_def lk_IOERR_def lk_acquire_def lk_release_def
  lk_stat_def rl_OK_def rl_RPCERR_def rl_revoke_def rl_retry_def

end
