(* ===== verification/Fifo_Pool.thy ===== *)
theory Fifo_Pool
  imports Prelude "HOL-Library.Monad_Syntax"
begin

text \<open>
  The bounded queue \<open>fifo\<close> (\<open>rpc/fifo.h\<close>) and the thread pool built on it (\<open>rpc/thr_pool.cc\<close>).  An
  operation whose thread waits on a condition variable has no result: \<open>None\<close>.
\<close>

section \<open>The queue\<close>

record 'a fifo =
  ff_q :: "'a list"
  ff_max :: u32

definition fifo_new :: "u32 \<Rightarrow> 'a fifo" where
  "fifo_new limit = \<lparr> ff_q = [], ff_max = limit \<rparr>"

text \<open>\<open>size\<close> returns the number of elements converted to \<open>bool\<close>.\<close>

definition fifo_size :: "'a fifo \<Rightarrow> bool" where
  "fifo_size f = (length (ff_q f) \<noteq> 0)"

definition enq :: "'a fifo \<Rightarrow> 'a \<Rightarrow> bool \<Rightarrow> (bool \<times> 'a fifo) option" where
  "enq f e blocking =
     (if ff_max f = 0 \<or> length (ff_q f) < unat (ff_max f) then Some (True, f\<lparr> ff_q := ff_q f @ [e] \<rparr>)
      else if blocking then None
      else Some (False, f))"

definition deq :: "'a fifo \<Rightarrow> ('a \<times> 'a fifo) option" where
  "deq f = (case ff_q f of [] \<Rightarrow> None | x # xs \<Rightarrow> Some (x, f\<lparr> ff_q := xs \<rparr>))"

section \<open>The thread pool\<close>

text \<open>A job is a function to run, or none: the pill that ends a worker.\<close>

record 'j pool =
  tp_nthreads :: nat
  tp_blockadd :: bool
  tp_jobq :: "'j option fifo"
  tp_workers :: nat

definition pool_new :: "nat \<Rightarrow> bool \<Rightarrow> 'j pool" where
  "pool_new sz blocking =
     \<lparr> tp_nthreads = sz, tp_blockadd = blocking, tp_jobq = fifo_new (of_nat (100 * sz)), tp_workers = sz \<rparr>"

definition addJob :: "'j pool \<Rightarrow> 'j \<Rightarrow> (bool \<times> 'j pool) option" where
  "addJob p j = map_option (\<lambda>(b, q). (b, p\<lparr> tp_jobq := q \<rparr>)) (enq (tp_jobq p) (Some j) (tp_blockadd p))"

definition takeJob :: "'j pool \<Rightarrow> ('j option \<times> 'j pool) option" where
  "takeJob p = map_option (\<lambda>(j, q). (j, p\<lparr> tp_jobq := q \<rparr>)) (deq (tp_jobq p))"

text \<open>One round of a worker: the job it runs, or its end.\<close>

definition do_worker :: "'j pool \<Rightarrow> ('j option \<times> 'j pool) option" where
  "do_worker p = do {
     (j, p) \<leftarrow> takeJob p;
     Some (j, if j = None then p\<lparr> tp_workers := tp_workers p - 1 \<rparr> else p) }"

text \<open>The destructor enqueues a pill for every thread, blocking when the queue is full, and joins the
  workers.\<close>

definition pool_pill :: "'j pool \<Rightarrow> 'j pool option" where
  "pool_pill p = map_option (\<lambda>(b, q). p\<lparr> tp_jobq := q \<rparr>) (enq (tp_jobq p) None True)"

section \<open>The pool at work\<close>

text \<open>Jobs are added until the pool is destroyed; from then on only the destructor enqueues pills, one
  per thread, while the workers go on.  The history: jobs accepted, jobs run, pills enqueued.\<close>

inductive pool_reach :: "nat \<Rightarrow> bool \<Rightarrow> 'j pool \<Rightarrow> 'j list \<Rightarrow> 'j list \<Rightarrow> nat \<Rightarrow> bool" for sz blocking where
  start: "pool_reach sz blocking (pool_new sz blocking) [] [] 0"
| add: "pool_reach sz blocking p acc dn 0 \<Longrightarrow> addJob p j = Some (b, p') \<Longrightarrow>
    pool_reach sz blocking p' (if b then acc @ [j] else acc) dn 0"
| pill: "pool_reach sz blocking p acc dn n \<Longrightarrow> n < tp_nthreads p \<Longrightarrow> pool_pill p = Some p' \<Longrightarrow>
    pool_reach sz blocking p' acc dn (Suc n)"
| work: "pool_reach sz blocking p acc dn n \<Longrightarrow> 0 < tp_workers p \<Longrightarrow> do_worker p = Some (j, p') \<Longrightarrow>
    pool_reach sz blocking p' acc (case j of None \<Rightarrow> dn | Some x \<Rightarrow> dn @ [x]) n"

definition pool_inv :: "nat \<Rightarrow> 'j pool \<Rightarrow> 'j list \<Rightarrow> 'j list \<Rightarrow> nat \<Rightarrow> bool" where
  "pool_inv sz p acc dn n =
     (tp_nthreads p = sz \<and> ff_max (tp_jobq p) = of_nat (100 * sz) \<and> n \<le> sz \<and> tp_workers p \<le> sz \<and>
      (\<exists>todo. acc = dn @ todo \<and>
         ff_q (tp_jobq p) = map Some todo @ replicate (n - (sz - tp_workers p)) None \<and>
         sz - tp_workers p \<le> n \<and> (tp_workers p < sz \<longrightarrow> todo = [])) \<and>
      (ff_max (tp_jobq p) \<noteq> 0 \<longrightarrow> length (ff_q (tp_jobq p)) \<le> unat (ff_max (tp_jobq p))))"

lemma pool_inv_reach: "pool_reach sz blocking p acc dn n \<Longrightarrow> pool_inv sz p acc dn n"
proof (induction rule: pool_reach.induct)
  case start
  show ?case by (simp add: pool_inv_def pool_new_def fifo_new_def)
next
  case (add p acc dn j b p')
  then obtain todo where t: "acc = dn @ todo" "ff_q (tp_jobq p) = map Some todo" "tp_workers p = sz"
    by (auto simp: pool_inv_def)
  show ?case
    using add.IH add.hyps(2) t by (auto simp: pool_inv_def addJob_def enq_def split: if_splits)
next
  case (pill p acc dn n p')
  then obtain todo where t: "acc = dn @ todo" "sz - tp_workers p \<le> n" "tp_workers p < sz \<longrightarrow> todo = []"
      "ff_q (tp_jobq p) = map Some todo @ replicate (n - (sz - tp_workers p)) None"
    by (auto simp: pool_inv_def)
  have "replicate (n - (sz - tp_workers p)) None @ [None] = replicate (Suc n - (sz - tp_workers p)) (None :: 'a option)"
    using t(2) by (simp add: Suc_diff_le replicate_append_same)
  then show ?case
    using pill.IH pill.hyps(2,3) t by (auto simp: pool_inv_def pool_pill_def enq_def split: if_splits)
next
  case (work p acc dn n j p')
  then obtain todo where t: "acc = dn @ todo" "sz - tp_workers p \<le> n" "tp_workers p < sz \<longrightarrow> todo = []"
      "ff_q (tp_jobq p) = map Some todo @ replicate (n - (sz - tp_workers p)) None"
    by (auto simp: pool_inv_def)
  show ?case
  proof (cases todo)
    case Nil
    then obtain k where k: "n - (sz - tp_workers p) = Suc k" "j = None"
        "p' = p\<lparr> tp_jobq := (tp_jobq p)\<lparr> ff_q := replicate k None \<rparr>, tp_workers := tp_workers p - 1 \<rparr>"
      using work.hyps(3) t(4)
      by (cases "n - (sz - tp_workers p)") (auto simp: do_worker_def takeJob_def deq_def)
    have "tp_workers p \<le> sz" using work.IH by (simp add: pool_inv_def)
    then have "n - (sz - (tp_workers p - 1)) = k" "sz - (tp_workers p - 1) \<le> n"
      using k(1) work.hyps(2) by simp_all
    then show ?thesis
      using work.IH t Nil k by (auto simp: pool_inv_def)
  next
    case (Cons x xs)
    then show ?thesis
      using work.IH work.hyps(3) t
      by (auto simp: pool_inv_def do_worker_def takeJob_def deq_def)
  qed
qed

text \<open>
  C13: The pool runs every accepted job once, in order, and loses none when it is destroyed.  At every
  moment the jobs run are a prefix of the jobs accepted and the queue holds at most its limit of entries;
  when the last worker has ended, the jobs run are exactly the jobs accepted.
\<close>

theorem pool_runs_all_jobs:
  assumes "pool_reach sz blocking p acc dn n" "0 < sz" "100 * sz < 2 ^ 32"
  shows "(\<exists>todo. acc = dn @ todo) \<and> length (ff_q (tp_jobq p)) \<le> 100 * sz \<and> (tp_workers p = 0 \<longrightarrow> dn = acc)"
proof -
  have "unat (of_nat (100 * sz) :: u32) = 100 * sz" using assms(3) by (simp add: unat_of_nat del: of_nat_mult)
  moreover from this have "(of_nat (100 * sz) :: u32) \<noteq> 0" using assms(2) by (metis mult_is_0 neq0_conv unat_0 zero_neq_numeral)
  ultimately show ?thesis
    using pool_inv_reach [OF assms(1)] assms(2) by (auto simp: pool_inv_def)
qed

theorem pool_runs_all_jobs_witness:
  "\<exists>p. pool_reach 1 True p [7 :: nat, 8] [7, 8] 1 \<and> tp_workers p = 0 \<and>
     (\<exists>todo. [7 :: nat, 8] = [7, 8] @ todo) \<and> length (ff_q (tp_jobq p)) \<le> 100 * 1"
proof -
  let ?P = "pool_reach 1 True"
  define q where "q xs = \<lparr> tp_nthreads = 1, tp_blockadd = True, tp_jobq = \<lparr> ff_q = xs, ff_max = 100 \<rparr>, tp_workers = 1 \<rparr>"
    for xs :: "nat option list"
  have 0: "?P (q []) [] [] 0" using pool_reach.start [of 1 True] by (simp add: q_def pool_new_def fifo_new_def)
  have 1: "?P (q [Some 7]) [7] [] 0"
    using pool_reach.add [OF 0, of 7 True "q [Some 7]"] by (simp add: q_def addJob_def enq_def)
  have 2: "?P (q [Some 7, Some 8]) [7, 8] [] 0"
    using pool_reach.add [OF 1, of 8 True "q [Some 7, Some 8]"] by (simp add: q_def addJob_def enq_def)
  have 3: "?P (q [Some 8]) [7, 8] [7] 0"
    using pool_reach.work [OF 2, of "Some 7" "q [Some 8]"] by (simp add: q_def do_worker_def takeJob_def deq_def)
  have 4: "?P (q [Some 8, None]) [7, 8] [7] 1"
    using pool_reach.pill [OF 3, of "q [Some 8, None]"] by (simp add: q_def pool_pill_def enq_def)
  have 5: "?P (q [None]) [7, 8] [7, 8] 1"
    using pool_reach.work [OF 4, of "Some 8" "q [None]"] by (simp add: q_def do_worker_def takeJob_def deq_def)
  have 6: "?P ((q [])\<lparr> tp_workers := 0 \<rparr>) [7, 8] [7, 8] 1"
    using pool_reach.work [OF 5, of None "(q [])\<lparr> tp_workers := 0 \<rparr>"]
    by (simp add: q_def do_worker_def takeJob_def deq_def)
  show ?thesis using pool_runs_all_jobs [OF 6] 6 by (intro exI [of _ "(q [])\<lparr> tp_workers := 0 \<rparr>"]) simp
qed

end
