(* ===== verification/Handle_Mgr.thy ===== *)
theory Handle_Mgr
  imports Containers
begin

text \<open>
  The cache of RPC connections of \<open>handle.cc\<close>: \<open>hinfo\<close> objects shared by the \<open>handle\<close> objects of all
  threads, with a reference count, a deletion mark and the connection once it is bound.  Objects live
  in a heap; \<open>None\<close> as the result of an operation is an access to a freed \<open>hinfo\<close>.  Each operation is
  atomic, as it runs under \<open>handle_mutex\<close> or under the object's own \<open>cl_mutex\<close>.
\<close>

section \<open>State and operations\<close>

record hinfo =
  h_cl :: "nat option"
  h_refcnt :: int
  h_del :: bool
  h_m :: string

text \<open>\<open>h_freed\<close> lists the \<open>rpcc\<close> objects that have been deleted.\<close>

record handle_mgr =
  hmap :: "(string, nat) omap"
  h_heap :: "nat \<Rightarrow> hinfo option"
  h_next :: nat
  h_freed :: "nat list"

definition handle_mgr_new :: handle_mgr where
  "handle_mgr_new = \<lparr> hmap = [], h_heap = (\<lambda>_. None), h_next = 0, h_freed = [] \<rparr>"

definition get_handle :: "handle_mgr \<Rightarrow> string \<Rightarrow> (nat option \<times> handle_mgr) option" where
  "get_handle s m =
     (case omap_find (hmap s) m of
        None \<Rightarrow>
          (let h = h_next s
           in Some (Some h, s\<lparr> h_heap := (h_heap s)(h \<mapsto> \<lparr> h_cl = None, h_refcnt = 1, h_del = False, h_m = m \<rparr>),
                               h_next := Suc h, hmap := omap_set m h (hmap s) \<rparr>))
      | Some h \<Rightarrow>
          (case h_heap s h of
             None \<Rightarrow> None
           | Some i \<Rightarrow>
               if \<not> h_del i
               then Some (Some h, s\<lparr> h_heap := (h_heap s)(h \<mapsto> i\<lparr> h_refcnt := h_refcnt i + 1 \<rparr>) \<rparr>)
               else Some (None, s)))"

definition delete_handle_wo :: "handle_mgr \<Rightarrow> string \<Rightarrow> handle_mgr option" where
  "delete_handle_wo s m =
     (case omap_find (hmap s) m of
        None \<Rightarrow> Some s
      | Some h \<Rightarrow>
          (case h_heap s h of
             None \<Rightarrow> None
           | Some i \<Rightarrow>
               if h_refcnt i = 0
               then Some (s\<lparr> h_freed := (case h_cl i of None \<Rightarrow> h_freed s | Some c \<Rightarrow> c # h_freed s),
                             hmap := omap_erase m (hmap s), h_heap := (h_heap s)(h := None) \<rparr>)
               else Some (s\<lparr> h_heap := (h_heap s)(h \<mapsto> i\<lparr> h_del := True \<rparr>) \<rparr>)))"

definition delete_handle :: "handle_mgr \<Rightarrow> string \<Rightarrow> handle_mgr option" where
  "delete_handle s m = delete_handle_wo s m"

definition done_handle :: "handle_mgr \<Rightarrow> nat \<Rightarrow> handle_mgr option" where
  "done_handle s h =
     (case h_heap s h of
        None \<Rightarrow> None
      | Some i \<Rightarrow>
          (let i = i\<lparr> h_refcnt := h_refcnt i - 1 \<rparr>; s = s\<lparr> h_heap := (h_heap s)(h \<mapsto> i) \<rparr>
           in if h_refcnt i = 0 \<and> h_del i then delete_handle_wo s (h_m i) else Some s))"

text \<open>\<open>ret\<close> is the result of \<open>bind\<close> on the new connection; a handle holds a null pointer when its
  destination was marked for deletion.\<close>

definition safebind :: "handle_mgr \<Rightarrow> nat option \<Rightarrow> int \<Rightarrow> (nat option \<times> handle_mgr) option" where
  "safebind s ho ret =
     (case ho of
        None \<Rightarrow> Some (None, s)
      | Some h \<Rightarrow>
          (case h_heap s h of
             None \<Rightarrow> None
           | Some i \<Rightarrow>
               if h_del i then Some (None, s)
               else if h_cl i \<noteq> None then Some (h_cl i, s)
               else
                 let cl = h_next s
                 in if ret < 0
                    then Some (None, s\<lparr> h_heap := (h_heap s)(h \<mapsto> i\<lparr> h_del := True \<rparr>), h_next := Suc cl,
                                        h_freed := cl # h_freed s \<rparr>)
                    else Some (Some cl, s\<lparr> h_heap := (h_heap s)(h \<mapsto> i\<lparr> h_cl := Some cl \<rparr>), h_next := Suc cl \<rparr>)))"

definition handle_done :: "handle_mgr \<Rightarrow> nat option \<Rightarrow> handle_mgr option" where
  "handle_done s ho = (case ho of None \<Rightarrow> Some s | Some h \<Rightarrow> done_handle s h)"

section \<open>Programs that use handles\<close>

text \<open>The handles in existence, and what their threads may do; a step fails when it touches freed
  memory.\<close>

datatype h_event = HOpen string | HBind nat int | HClose nat | HDelete string

fun h_exec :: "h_event \<Rightarrow> handle_mgr \<times> nat list \<Rightarrow> (handle_mgr \<times> nat list) option" where
  "h_exec (HOpen m) (s, live) =
     map_option (\<lambda>(h, s). (s, case h of None \<Rightarrow> live | Some h \<Rightarrow> h # live)) (get_handle s m)"
| "h_exec (HBind h ret) (s, live) =
     map_option (\<lambda>(cl, s). (s, live)) (safebind s (Some h) ret)"
| "h_exec (HClose h) (s, live) = map_option (\<lambda>s. (s, remove1 h live)) (handle_done s (Some h))"
| "h_exec (HDelete m) (s, live) = map_option (\<lambda>s. (s, live)) (delete_handle s m)"

fun h_enabled :: "h_event \<Rightarrow> nat list \<Rightarrow> bool" where
  "h_enabled (HBind h ret) live = (h \<in> set live)"
| "h_enabled (HClose h) live = (h \<in> set live)"
| "h_enabled _ live = True"

fun h_run :: "h_event list \<Rightarrow> handle_mgr \<times> nat list \<Rightarrow> (handle_mgr \<times> nat list) option" where
  "h_run [] a = Some a"
| "h_run (e # es) a = Option.bind (h_exec e a) (h_run es)"

text \<open>A well-behaved trace: only existing handles are used.\<close>

fun h_proper :: "h_event list \<Rightarrow> handle_mgr \<times> nat list \<Rightarrow> bool" where
  "h_proper [] a = True"
| "h_proper (e # es) a =
     (h_enabled e (snd a) \<and> (case h_exec e a of None \<Rightarrow> True | Some a' \<Rightarrow> h_proper es a'))"

section \<open>The invariant\<close>

definition h_inv :: "handle_mgr \<times> nat list \<Rightarrow> bool" where
  "h_inv = (\<lambda>(s, live).
     (\<forall>m h. omap_find (hmap s) m = Some h \<longrightarrow> (\<exists>i. h_heap s h = Some i \<and> h_m i = m)) \<and>
     (\<forall>h i. h_heap s h = Some i \<longrightarrow>
        h < h_next s \<and> omap_find (hmap s) (h_m i) = Some h \<and> h_refcnt i = int (count_list live h) \<and>
        (\<forall>c. h_cl i = Some c \<longrightarrow> c < h_next s \<and> c \<notin> set (h_freed s) \<and>
           (\<forall>h' i'. h_heap s h' = Some i' \<longrightarrow> h_cl i' = Some c \<longrightarrow> h' = h))) \<and>
     (\<forall>h \<in> set live. h_heap s h \<noteq> None) \<and>
     (\<forall>c \<in> set (h_freed s). c < h_next s))"

lemma h_invI:
  assumes "\<And>m h. omap_find (hmap s) m = Some h \<Longrightarrow> \<exists>i. h_heap s h = Some i \<and> h_m i = m"
    and "\<And>h i. h_heap s h = Some i \<Longrightarrow> h < h_next s"
    and "\<And>h i. h_heap s h = Some i \<Longrightarrow> omap_find (hmap s) (h_m i) = Some h"
    and "\<And>h i. h_heap s h = Some i \<Longrightarrow> h_refcnt i = int (count_list live h)"
    and "\<And>h i c. h_heap s h = Some i \<Longrightarrow> h_cl i = Some c \<Longrightarrow> c < h_next s \<and> c \<notin> set (h_freed s)"
    and "\<And>h i c h' i'. h_heap s h = Some i \<Longrightarrow> h_cl i = Some c \<Longrightarrow> h_heap s h' = Some i' \<Longrightarrow> h_cl i' = Some c \<Longrightarrow> h' = h"
    and "\<And>h. h \<in> set live \<Longrightarrow> h_heap s h \<noteq> None"
    and "\<And>c. c \<in> set (h_freed s) \<Longrightarrow> c < h_next s"
  shows "h_inv (s, live)"
  using assms unfolding h_inv_def by blast

lemma h_invD:
  assumes "h_inv (s, live)"
  shows "omap_find (hmap s) m = Some h \<Longrightarrow> \<exists>i. h_heap s h = Some i \<and> h_m i = m"
    and "h_heap s h = Some i \<Longrightarrow> h < h_next s"
    and "h_heap s h = Some i \<Longrightarrow> omap_find (hmap s) (h_m i) = Some h"
    and "h_heap s h = Some i \<Longrightarrow> h_refcnt i = int (count_list live h)"
    and "h_heap s h = Some i \<Longrightarrow> h_cl i = Some c \<Longrightarrow> c < h_next s \<and> c \<notin> set (h_freed s)"
    and "h_heap s h = Some i \<Longrightarrow> h_cl i = Some c \<Longrightarrow> h_heap s h' = Some i' \<Longrightarrow> h_cl i' = Some c \<Longrightarrow> h' = h"
    and "h \<in> set live \<Longrightarrow> h_heap s h \<noteq> None"
    and "c \<in> set (h_freed s) \<Longrightarrow> c < h_next s"
  using assms unfolding h_inv_def by blast+

lemma h_inv_new: "h_inv (handle_mgr_new, [])"
  by (simp add: h_inv_def handle_mgr_new_def omap_find_def)

lemma count_list_remove1: "count_list (remove1 x xs) y = (if x = y then count_list xs y - 1 else count_list xs y)"
  by (induction xs) auto

lemma h_heap_fresh: "h_inv (s, live) \<Longrightarrow> h_heap s (h_next s) = None \<and> h_next s \<notin> set live"
  using h_invD(2,7) by (metis less_irrefl not_None_eq)

text \<open>Changing one object and the handles that refer to it.\<close>

lemma h_inv_update:
  assumes "h_inv (s, live)" "h_heap s h = Some i" "h_m i' = h_m i"
    and "h_refcnt i' = int (count_list live' h)" "\<And>x. x \<noteq> h \<Longrightarrow> count_list live' x = count_list live x"
    and "\<And>x. x \<in> set live' \<Longrightarrow> x = h \<or> x \<in> set live"
    and "h_cl i' = h_cl i \<and> n = h_next s \<and> fr = h_freed s \<or>
      h_cl i' = Some (h_next s) \<and> n = Suc (h_next s) \<and> fr = h_freed s \<or>
      h_cl i' = None \<and> n = Suc (h_next s) \<and> fr = h_next s # h_freed s"
  shows "h_inv (s\<lparr> h_heap := (h_heap s)(h \<mapsto> i'), h_next := n, h_freed := fr \<rparr>, live')"
proof -
  note D = h_invD [OF assms(1)]
  have n: "h_next s \<le> n" using assms(7) by auto
  show ?thesis
  proof (rule h_invI, goal_cases)
    case (1 m h')
    then show ?case using D(1) [of m h'] assms(2,3) by auto
  next
    case (2 h' j)
    then show ?case using D(2) [of h'] D(2) [OF assms(2)] n by (fastforce split: if_splits)
  next
    case (3 h' j)
    then show ?case using D(3) [of h'] D(3) [OF assms(2)] assms(3) by (fastforce split: if_splits)
  next
    case (4 h' j)
    then show ?case using D(4) [of h'] assms(4,5) by (fastforce split: if_splits)
  next
    case (5 h' j c)
    then show ?case
      using D(5) [of h' _ c] D(5) [OF assms(2), of c] D(8) [of "h_next s"] assms(7) by (fastforce split: if_splits)
  next
    case (6 h' j c h'' k)
    have own: "h1 = h" if "h_cl i' = Some c" "h_heap s h1 = Some j1" "h_cl j1 = Some c" for h1 j1
      using that assms(7) D(5) [OF that(2,3)] D(6) [OF assms(2) _ that(2,3)] by auto
    show ?case using 6 own D(6) [of h' j c h'' k] by (auto split: if_splits)
  next
    case (7 h')
    then show ?case using D(7) [of h'] assms(6) by auto
  next
    case (8 c)
    then show ?case using D(8) assms(7) by fastforce
  qed
qed

lemma h_inv_get:
  assumes "h_inv (s, live)"
  shows "\<exists>ho s'. get_handle s m = Some (ho, s') \<and> h_inv (s', case ho of None \<Rightarrow> live | Some h \<Rightarrow> h # live)"
proof (cases "omap_find (hmap s) m")
  case None
  note D = h_invD [OF assms]
  let ?h = "h_next s"
  let ?s = "s\<lparr> h_heap := (h_heap s)(?h \<mapsto> \<lparr> h_cl = None, h_refcnt = 1, h_del = False, h_m = m \<rparr>),
      h_next := Suc ?h, hmap := omap_set m ?h (hmap s) \<rparr>"
  have f: "h_heap s ?h = None" "?h \<notin> set live" using h_heap_fresh [OF assms] by auto
  have "h_inv (?s, ?h # live)"
  proof (rule h_invI, goal_cases)
    case (1 m' h)
    then show ?case using D(1) [of m' h] f by (auto simp: omap_find_set split: if_splits)
  next
    case (2 h i)
    then show ?case using D(2) [of h] by (fastforce split: if_splits)
  next
    case (3 h i)
    then show ?case using D(3) [of h i] None by (auto simp: omap_find_set split: if_splits)
  next
    case (4 h i)
    then show ?case using D(4) [of h i] f(2) by (auto split: if_splits)
  next
    case (5 h i c)
    then show ?case using D(5) [of h i c] by (auto split: if_splits)
  next
    case (6 h i c h' i')
    then show ?case using D(6) [of h i c h' i'] by (auto split: if_splits)
  next
    case (7 h)
    then show ?case using D(7) [of h] by auto
  next
    case (8 c)
    then show ?case using D(8) [of c] by auto
  qed
  then show ?thesis using None by (auto simp: get_handle_def Let_def)
next
  case (Some h)
  then obtain i where i: "h_heap s h = Some i" using h_invD(1) [OF assms] by blast
  have "h_inv (s\<lparr> h_heap := (h_heap s)(h \<mapsto> i\<lparr> h_refcnt := h_refcnt i + 1 \<rparr>), h_next := h_next s,
      h_freed := h_freed s \<rparr>, h # live)"
    by (rule h_inv_update [OF assms i]) (use h_invD(4) [OF assms i] in auto)
  then show ?thesis using Some i assms by (simp add: get_handle_def)
qed

lemma h_inv_delete:
  assumes "h_inv (s, live)"
  shows "\<exists>s'. delete_handle_wo s m = Some s' \<and> h_inv (s', live)"
proof (cases "omap_find (hmap s) m")
  case None
  then show ?thesis using assms by (simp add: delete_handle_wo_def)
next
  case (Some h)
  note D = h_invD [OF assms]
  obtain i where i: "h_heap s h = Some i" "h_m i = m" using D(1) [OF Some] by blast
  show ?thesis
  proof (cases "h_refcnt i = 0")
    case False
    have "h_inv (s\<lparr> h_heap := (h_heap s)(h \<mapsto> i\<lparr> h_del := True \<rparr>), h_next := h_next s, h_freed := h_freed s \<rparr>, live)"
      by (rule h_inv_update [OF assms i(1)]) (use D(4) [OF i(1)] in auto)
    then show ?thesis using Some i False by (simp add: delete_handle_wo_def)
  next
    case True
    let ?fr = "case h_cl i of None \<Rightarrow> h_freed s | Some c \<Rightarrow> c # h_freed s"
    let ?s = "s\<lparr> h_freed := ?fr, hmap := omap_erase m (hmap s), h_heap := (h_heap s)(h := None) \<rparr>"
    have nl: "h \<notin> set live" using D(4) [OF i(1)] True by (simp add: count_list_0_iff)
    have "h_inv (?s, live)"
    proof (rule h_invI, goal_cases)
      case (1 m' h')
      then show ?case using D(1) [of m' h'] i by (auto simp: omap_find_erase split: if_splits)
    next
      case (2 h' j)
      then show ?case using D(2) [of h'] by (fastforce split: if_splits)
    next
      case (3 h' j)
      then have "h' \<noteq> h" "h_heap s h' = Some j" by (auto split: if_splits)
      then show ?case using D(3) [of h' j] Some by (auto simp: omap_find_erase)
    next
      case (4 h' j)
      then show ?case using D(4) [of h' j] by (auto split: if_splits)
    next
      case (5 h' j c)
      then have "h' \<noteq> h" "h_heap s h' = Some j" by (auto split: if_splits)
      then show ?case using D(5) [of h' j c] D(6) [of h' j c h i] i 5 by (auto split: option.splits)
    next
      case (6 h' j c h'' k)
      then show ?case using D(6) [of h' j c h'' k] by (auto split: if_splits)
    next
      case (7 h')
      then show ?case using D(7) [of h'] nl by auto
    next
      case (8 c)
      then show ?case using D(8) [of c] D(5) [OF i(1), of c] by (auto split: option.splits)
    qed
    then show ?thesis using Some i True by (simp add: delete_handle_wo_def)
  qed
qed

lemma h_inv_done:
  assumes "h_inv (s, live)" "h \<in> set live"
  shows "\<exists>s'. done_handle s h = Some s' \<and> h_inv (s', remove1 h live)"
proof -
  obtain i where i: "h_heap s h = Some i" using h_invD(7) [OF assms] by blast
  let ?i = "i\<lparr> h_refcnt := h_refcnt i - 1 \<rparr>"
  let ?s = "s\<lparr> h_heap := (h_heap s)(h \<mapsto> ?i) \<rparr>"
  have "count_list live h > 0" using assms(2) by (metis count_list_0_iff gr0I)
  then have "h_inv (s\<lparr> h_heap := (h_heap s)(h \<mapsto> ?i), h_next := h_next s, h_freed := h_freed s \<rparr>, remove1 h live)"
    by (intro h_inv_update [OF assms(1) i])
      (use h_invD(4) [OF assms(1) i] in \<open>auto simp: count_list_remove1 dest: notin_set_remove1 [rotated]
         set_remove1_subset [THEN subsetD]\<close>)
  then have inv: "h_inv (?s, remove1 h live)" by simp
  show ?thesis using inv h_inv_delete [OF inv] i by (auto simp: done_handle_def Let_def)
qed

lemma h_inv_bind:
  assumes "h_inv (s, live)" "h \<in> set live"
  shows "\<exists>cl s'. safebind s (Some h) ret = Some (cl, s') \<and> h_inv (s', live)"
proof -
  obtain i where i: "h_heap s h = Some i" using h_invD(7) [OF assms] by blast
  have r: "h_refcnt i = int (count_list live h)" by (rule h_invD(4) [OF assms(1) i])
  have "h_inv (s\<lparr> h_heap := (h_heap s)(h \<mapsto> i\<lparr> h_cl := Some (h_next s) \<rparr>), h_next := Suc (h_next s),
      h_freed := h_freed s \<rparr>, live)"
    by (rule h_inv_update [OF assms(1) i]) (use r in auto)
  moreover have "h_inv (s\<lparr> h_heap := (h_heap s)(h \<mapsto> i\<lparr> h_del := True \<rparr>), h_next := Suc (h_next s),
      h_freed := h_next s # h_freed s \<rparr>, live)" if "h_cl i = None"
    by (rule h_inv_update [OF assms(1) i]) (use r that in auto)
  ultimately show ?thesis using assms i by (cases "h_cl i") (simp_all add: safebind_def Let_def)
qed

lemma h_inv_exec:
  assumes "h_inv a" "h_enabled e (snd a)"
  shows "\<exists>a'. h_exec e a = Some a' \<and> h_inv a'"
proof -
  obtain s live where a: "a = (s, live)" by fastforce
  show ?thesis
  proof (cases e)
    case (HOpen m)
    then show ?thesis using h_inv_get [of s live m] assms(1) by (auto simp: a)
  next
    case (HBind h ret)
    then show ?thesis using h_inv_bind [of s live h ret] assms by (auto simp: a)
  next
    case (HClose h)
    then show ?thesis using h_inv_done [of s live h] assms by (auto simp: a handle_done_def)
  next
    case (HDelete m)
    then show ?thesis using h_inv_delete [of s live m] assms(1) by (auto simp: a delete_handle_def)
  qed
qed

lemma h_inv_run: "h_inv a \<Longrightarrow> h_proper es a \<Longrightarrow> \<exists>a'. h_run es a = Some a' \<and> h_inv a'"
proof (induction es arbitrary: a)
  case (Cons e es)
  obtain a' where "h_exec e a = Some a'" "h_inv a'"
    using h_inv_exec [OF Cons.prems(1), of e] Cons.prems(2) unfolding h_proper.simps by blast
  then show ?case using Cons.IH [of a'] Cons.prems(2) by auto
qed simp

text \<open>
  C11: No use after free.  Whatever the threads of a program do with the handles they hold (open,
  bind, close, and delete a destination at any time), no operation touches a freed \<open>hinfo\<close>, and the
  connection of a destination for which a handle still exists has not been deleted.
\<close>

theorem handles_never_dangle:
  assumes "h_proper es (handle_mgr_new, [])"
  shows "\<exists>s live. h_run es (handle_mgr_new, []) = Some (s, live) \<and>
    (\<forall>h \<in> set live. \<exists>i. h_heap s h = Some i \<and> h_refcnt i = int (count_list live h) \<and>
       (\<forall>c. h_cl i = Some c \<longrightarrow> c \<notin> set (h_freed s)))"
proof -
  obtain s live where r: "h_run es (handle_mgr_new, []) = Some (s, live)" and i: "h_inv (s, live)"
    using h_inv_run [OF h_inv_new assms] by auto
  show ?thesis using r h_invD(4,5,7) [OF i] by (metis not_None_eq)
qed

definition h_demo :: "h_event list" where
  "h_demo = [HOpen ''a'', HOpen ''a'', HBind 0 0, HDelete ''a'', HClose 0, HBind 0 0, HClose 0, HOpen ''a'']"

theorem handles_never_dangle_witness:
  "h_proper h_demo (handle_mgr_new, []) \<and>
   (\<exists>s live. h_run h_demo (handle_mgr_new, []) = Some (s, live) \<and> live = [2] \<and> h_freed s = [1] \<and>
     (\<forall>h \<in> set live. \<exists>i. h_heap s h = Some i \<and> h_refcnt i = int (count_list live h) \<and>
       (\<forall>c. h_cl i = Some c \<longrightarrow> c \<notin> set (h_freed s))))"
proof -
  have p: "h_proper h_demo (handle_mgr_new, [])" by code_simp
  have "map_option (\<lambda>(s, live). (h_freed s, live)) (h_run h_demo (handle_mgr_new, [])) = Some ([1], [2])" by code_simp
  with handles_never_dangle [OF p] p show ?thesis by auto
qed

text \<open>
  A bound handle can stop being bound.  After a successful \<open>safebind\<close>, a \<open>delete_handle\<close> of the
  destination by another thread makes the next \<open>safebind\<close> on the same handle return a null pointer.
\<close>

theorem safebind_not_stable:
  assumes "h_heap s h = Some i" "h_del i = False" "h_cl i = None" "0 \<le> ret"
    and "omap_find (hmap s) (h_m i) = Some h" "h_refcnt i \<noteq> 0"
  shows "\<exists>c s1 s2. safebind s (Some h) ret = Some (Some c, s1) \<and> delete_handle s1 (h_m i) = Some s2 \<and>
    safebind s2 (Some h) ret' = Some (None, s2)"
  using assms by (simp add: safebind_def delete_handle_def delete_handle_wo_def Let_def)

theorem safebind_not_stable_witness:
  "\<exists>s h c s1 s2. get_handle handle_mgr_new ''a'' = Some (Some h, s) \<and>
    safebind s (Some h) 0 = Some (Some c, s1) \<and> delete_handle s1 ''a'' = Some s2 \<and>
    safebind s2 (Some h) 0 = Some (None, s2)"
proof -
  let ?i = "\<lparr> h_cl = None, h_refcnt = 1, h_del = False, h_m = ''a'' \<rparr>"
  let ?s = "\<lparr> hmap = [(''a'', 0)], h_heap = [0 \<mapsto> ?i], h_next = 1, h_freed = [] \<rparr>"
  have "get_handle handle_mgr_new ''a'' = Some (Some 0, ?s)"
    by (simp add: get_handle_def handle_mgr_new_def omap_find_def)
  moreover have "\<exists>c s1 s2. safebind ?s (Some 0) 0 = Some (Some c, s1) \<and> delete_handle s1 (h_m ?i) = Some s2 \<and>
    safebind s2 (Some 0) 0 = Some (None, s2)"
    by (rule safebind_not_stable) (simp_all add: omap_find_def)
  ultimately show ?thesis by auto
qed

end
