(* ===== verification/Config_View.thy ===== *)
theory Config_View
  imports Paxos_Proposer Rpc_Call Handle_Mgr
begin

text \<open>
  The configuration module of \<open>config.cc\<close>: views are lists of node names, agreed on one after the
  other by Paxos as text values, and remembered in the acceptor's log.  The state is the module's own
  (\<open>myvid\<close>, \<open>mems\<close>) together with its acceptor and proposer; the connection cache is threaded through
  the operations that delete handles.  Runs of the proposer and heartbeat calls are distributed: the
  operations return what they propose, and take the outcome of a ping as an argument.
\<close>

section \<open>Views as text\<close>

function members_loop :: "istream \<Rightarrow> string list \<Rightarrow> string list" where
  "members_loop ist view =
     (let (m, ist') = read_word ist []
      in if \<not> is_good ist' then view else members_loop ist' (view @ [m]))"
  by pat_completeness auto
termination
  by (relation "measure (\<lambda>(i, _). length (is_rest i))") (auto dest!: read_word_less [OF sym])

declare members_loop.simps [simp del]

definition members :: "string \<Rightarrow> string list" where
  "members v = members_loop (istream_of v) []"

definition cfg_value :: "string list \<Rightarrow> string" where
  "cfg_value m = concat (map (\<lambda>x. x @ '' '') m)"

section \<open>State and operations\<close>

record config =
  cf_acc :: acceptor
  cf_pro :: proposer
  cf_myvid :: u32
  cf_first :: string
  cf_me :: string
  cf_mems :: "string list"

text \<open>\<open>acc->value(instance)\<close> is \<open>values[instance]\<close>, which creates a missing entry.\<close>

definition get_view_wo :: "config \<Rightarrow> u32 \<Rightarrow> string list \<times> config" where
  "get_view_wo c inst =
     (members (omap_get [] (a_values (cf_acc c)) inst),
      c\<lparr> cf_acc := (cf_acc c)\<lparr> a_values := omap_touch [] inst (a_values (cf_acc c)) \<rparr> \<rparr>)"

definition reconstruct :: "config \<Rightarrow> config" where
  "reconstruct c =
     (if a_instance_h (cf_acc c) > 0 then
        let c = c\<lparr> cf_myvid := a_instance_h (cf_acc c) \<rparr>;
            (ms, c) = get_view_wo c (cf_myvid c)
        in c\<lparr> cf_mems := ms \<rparr>
      else c)"

definition config_new :: "string \<Rightarrow> string \<Rightarrow> string \<Rightarrow> config option" where
  "config_new first me disk =
     map_option (\<lambda>acc. reconstruct \<lparr> cf_acc = acc, cf_pro = proposer_new me, cf_myvid = 0, cf_first = first,
                                     cf_me = me, cf_mems = [] \<rparr>)
       (acceptor_new (me = first) me me disk)"

definition config_restore :: "config \<Rightarrow> string \<Rightarrow> config option" where
  "config_restore c s = map_option (\<lambda>acc. reconstruct (c\<lparr> cf_acc := acc \<rparr>)) (acceptor_restore (cf_acc c) s)"

definition cfg_ismember :: "config \<Rightarrow> string \<Rightarrow> u32 \<Rightarrow> bool \<times> config" where
  "cfg_ismember c m vid = (let (v, c) = get_view_wo c vid in (isamember m v, c))"

fun delete_handles :: "string list \<Rightarrow> handle_mgr \<Rightarrow> handle_mgr option" where
  "delete_handles [] mgr = Some mgr"
| "delete_handles (m # ms) mgr = Option.bind (delete_handle mgr m) (delete_handles ms)"

text \<open>The upcall of the acceptor; \<open>vc->commit_change(myvid)\<close> follows it.\<close>

definition paxos_commit :: "config \<Rightarrow> handle_mgr \<Rightarrow> u32 \<Rightarrow> string \<Rightarrow> (config \<times> handle_mgr) option" where
  "paxos_commit c mgr inst v =
     (let newmem = members v
      in map_option (\<lambda>mgr. (c\<lparr> cf_mems := newmem, cf_myvid := inst \<rparr>, mgr))
           (delete_handles (filter (\<lambda>m. \<not> isamember m newmem \<and> cf_me c \<noteq> m) (cf_mems c)) mgr))"

text \<open>What \<open>add\<close> and \<open>remove_wo\<close> hand to \<open>pro->run\<close>: the instance, the nodes and the value.\<close>

definition cfg_add :: "config \<Rightarrow> string \<Rightarrow> u32 \<Rightarrow> (u32 \<times> string list \<times> string) option" where
  "cfg_add c new_m vid =
     (if vid \<noteq> cf_myvid c then None
      else Some (cf_myvid c + 1, cf_mems c, cfg_value (cf_mems c @ [new_m])))"

definition remove_wo :: "config \<Rightarrow> string \<Rightarrow> u32 \<times> string list \<times> string" where
  "remove_wo c m = (cf_myvid c + 1, cf_mems c, cfg_value (filter (\<lambda>x. x \<noteq> m) (cf_mems c)))"

datatype heartbeat_t = HB_OK | HB_VIEWERR | HB_FAILURE

definition px_OK :: u32 where "px_OK = 0"
definition px_ERR :: u32 where "px_ERR = 1"

text \<open>\<open>None\<close> is the failed \<open>VERIFY\<close>.\<close>

definition heartbeat :: "config \<Rightarrow> u32 \<Rightarrow> (u32 \<times> u32) option" where
  "heartbeat c vid =
     (if vid = cf_myvid c then Some (px_OK, cf_myvid c)
      else if isrunning (cf_pro c) then
        if vid = cf_myvid c + 1 \<or> vid + 1 = cf_myvid c then Some (px_OK, cf_myvid c) else None
      else Some (px_ERR, cf_myvid c))"

text \<open>\<open>call\<close> is the result of the RPC, \<open>None\<close> when the node could not be bound.\<close>

definition doheartbeat :: "handle_mgr \<Rightarrow> string \<Rightarrow> u32 option \<Rightarrow> (heartbeat_t \<times> handle_mgr) option" where
  "doheartbeat mgr m call =
     (let ret = (case call of None \<Rightarrow> timeout_failure | Some r \<Rightarrow> r)
      in if ret \<noteq> px_OK then
           if ret = atmostonce_failure \<or> ret = oldsrv_failure
           then map_option (\<lambda>mgr. (HB_OK, mgr)) (delete_handle mgr m)
           else Some (if sint ret < 0 then HB_FAILURE else HB_VIEWERR, mgr)
         else Some (HB_OK, mgr))"

definition smallest :: "string \<Rightarrow> string list \<Rightarrow> string" where
  "smallest me cmems = fold (\<lambda>x m. if m > x then x else m) cmems me"

text \<open>One round of \<open>heartbeater\<close>: \<open>ping\<close> gives the results of \<open>doheartbeat\<close>, \<open>vid'\<close> is \<open>myvid\<close> after the
  pings, during which the mutex is released; the result is the node that is removed.\<close>

definition heartbeater :: "config \<Rightarrow> (string \<Rightarrow> heartbeat_t) \<Rightarrow> u32 \<Rightarrow> string option \<times> config" where
  "heartbeater c ping vid' =
     (let vid = cf_myvid c; (cmems, c) = get_view_wo c vid
      in if \<not> isamember (cf_me c) cmems then (None, c)
         else
           let m = smallest (cf_me c) cmems;
               bad = (if m = cf_me c then find (\<lambda>x. x \<noteq> cf_me c \<and> ping x \<noteq> HB_OK) cmems
                      else if ping m \<noteq> HB_OK then Some m else None)
           in (if vid = vid' then bad else None, c))"

section \<open>Views survive the text format\<close>

lemma members_loop_value:
  assumes "list_all is_word ms" "rest = concat (map (\<lambda>x. x @ '' '') ms)"
  shows "members_loop \<lparr> is_rest = rest, is_good = True \<rparr> view = view @ ms"
    and "members_loop \<lparr> is_rest = CHR '' '' # rest, is_good = True \<rparr> view = view @ ms"
  using assms
proof (induction ms arbitrary: rest view)
  case Nil
  {
    case 1
    then show ?case by (simp add: members_loop.simps read_word_def skip_ws_def)
  next
    case 2
    then show ?case by (simp add: members_loop.simps read_word_def skip_ws_def)
  }
next
  case (Cons w ms)
  {
    case 1
    then show ?case
      using Cons.IH(2) [of "concat (map (\<lambda>x. x @ '' '') ms)" "view @ [w]"] read_word_word(1) [of w "CHR '' ''"]
      by (simp add: members_loop.simps [of _ view])
  next
    case 2
    then show ?case
      using Cons.IH(2) [of "concat (map (\<lambda>x. x @ '' '') ms)" "view @ [w]"] read_word_word(2) [of w "CHR '' ''"]
      by (simp add: members_loop.simps [of _ view])
  }
qed

lemma members_value: "list_all is_word ms \<Longrightarrow> members (cfg_value ms) = ms"
  using members_loop_value(1) [of ms "cfg_value ms" "[]"]
  by (simp add: members_def cfg_value_def istream_of_def)

text \<open>
  A view change is what was proposed.  When the value that \<open>add\<close> or \<open>remove_wo\<close> hands to Paxos is
  committed, the new view has exactly the members of the old one with the node appended, or without
  it, as long as node names contain no white space.
\<close>

theorem view_change_applied:
  assumes "list_all is_word (new_m # cf_mems c)"
    and "cfg_add c new_m (cf_myvid c) = Some (i, nodes, v)" "remove_wo c m = (j, nodes', v')"
    and "paxos_commit c mgr i v = Some (c1, mgr1)" "paxos_commit c mgr j v' = Some (c2, mgr2)"
  shows "nodes = cf_mems c \<and> cf_mems c1 = cf_mems c @ [new_m] \<and> cf_myvid c1 = cf_myvid c + 1 \<and>
    nodes' = cf_mems c \<and> cf_mems c2 = filter (\<lambda>x. x \<noteq> m) (cf_mems c) \<and> cf_myvid c2 = cf_myvid c + 1"
proof -
  have "members v = cf_mems c @ [new_m]" "members v' = filter (\<lambda>x. x \<noteq> m) (cf_mems c)"
    using assms(1-3) members_value [of "cf_mems c @ [new_m]"] members_value [of "filter (\<lambda>x. x \<noteq> m) (cf_mems c)"]
    by (auto simp: cfg_add_def remove_wo_def list_all_iff)
  then show ?thesis using assms(2-5) by (auto simp: paxos_commit_def cfg_add_def remove_wo_def Let_def split: if_splits)
qed

definition cfg_demo :: config where
  "cfg_demo = \<lparr> cf_acc = acceptor_init ''1'' [], cf_pro = proposer_new ''1'', cf_myvid = 2, cf_first = ''1'',
     cf_me = ''1'', cf_mems = [''1'', ''2''] \<rparr>"

theorem view_change_applied_witness:
  "\<exists>i v j v' c1 m1 c2 m2. cfg_add cfg_demo ''3'' 2 = Some (i, [''1'', ''2''], v) \<and>
     remove_wo cfg_demo ''2'' = (j, [''1'', ''2''], v') \<and>
     paxos_commit cfg_demo handle_mgr_new i v = Some (c1, m1) \<and> cf_mems c1 = [''1'', ''2'', ''3''] \<and>
     paxos_commit cfg_demo handle_mgr_new j v' = Some (c2, m2) \<and> cf_mems c2 = [''1'']"
proof -
  have w: "list_all is_word (''3'' # cf_mems cfg_demo)" by (simp add: cfg_demo_def is_word_def is_space_def)
  obtain i v j v' where a: "cfg_add cfg_demo ''3'' (cf_myvid cfg_demo) = Some (i, cf_mems cfg_demo, v)"
      "remove_wo cfg_demo ''2'' = (j, cf_mems cfg_demo, v')"
    by (simp add: cfg_add_def remove_wo_def cfg_demo_def)
  have d: "delete_handles ms handle_mgr_new = Some handle_mgr_new" for ms
    by (induction ms) (simp_all add: delete_handle_def delete_handle_wo_def handle_mgr_new_def omap_find_def)
  obtain c1 m1 c2 m2 where "paxos_commit cfg_demo handle_mgr_new i v = Some (c1, m1)"
      "paxos_commit cfg_demo handle_mgr_new j v' = Some (c2, m2)"
    by (simp add: paxos_commit_def d)
  with view_change_applied [OF w a this] a show ?thesis by (auto simp: cfg_demo_def)
qed

section \<open>The view follows the log\<close>

text \<open>A node handles requests one after the other; a commit is followed by its upcall.\<close>

definition with_upcalls :: "config \<Rightarrow> handle_mgr \<Rightarrow> acceptor \<times> (u32 \<times> string) list \<Rightarrow> (config \<times> handle_mgr) option" where
  "with_upcalls c mgr r =
     (case r of (acc, ups) \<Rightarrow>
        foldl (\<lambda>o1 (i, v). Option.bind o1 (\<lambda>(c, mgr). paxos_commit c mgr i v)) (Some (c\<lparr> cf_acc := acc \<rparr>, mgr)) ups)"

datatype cfg_event =
    CPrepare preparearg prepareres | CAccept acceptarg | CDecide decidearg | CCommit u32 string
  | CView u32 | CRestore string

fun cfg_exec :: "cfg_event \<Rightarrow> config \<times> handle_mgr \<Rightarrow> (config \<times> handle_mgr) option" where
  "cfg_exec (CPrepare a r) (c, mgr) = Some (c\<lparr> cf_acc := snd (preparereq (cf_acc c) a r) \<rparr>, mgr)"
| "cfg_exec (CAccept a) (c, mgr) = Some (c\<lparr> cf_acc := snd (acceptreq (cf_acc c) a) \<rparr>, mgr)"
| "cfg_exec (CDecide a) (c, mgr) = Option.bind (decidereq (cf_acc c) a) (with_upcalls c mgr)"
| "cfg_exec (CCommit i v) (c, mgr) = with_upcalls c mgr (commit_wo (cf_acc c) i v)"
| "cfg_exec (CView vid) (c, mgr) = Some (snd (get_view_wo c vid), mgr)"
| "cfg_exec (CRestore s) (c, mgr) = map_option (\<lambda>c. (c, mgr)) (config_restore c s)"

inductive cfg_reach :: "config \<times> handle_mgr \<Rightarrow> bool" where
  init: "config_new first me disk = Some c \<Longrightarrow> cfg_reach (c, mgr)"
| step: "cfg_reach a \<Longrightarrow> cfg_exec ev a = Some a' \<Longrightarrow> cfg_reach a'"

definition cfg_inv :: "config \<Rightarrow> bool" where
  "cfg_inv c = (a_instance_h (cf_acc c) > 0 \<longrightarrow>
     cf_myvid c = a_instance_h (cf_acc c) \<and>
     cf_mems c = members (omap_get [] (a_values (cf_acc c)) (a_instance_h (cf_acc c))))"

lemma cfg_inv_reconstruct: "cfg_inv (reconstruct c)"
  by (simp add: reconstruct_def cfg_inv_def get_view_wo_def)

lemma cfg_inv_commit:
  assumes "cfg_inv c" "with_upcalls c mgr (commit_wo (cf_acc c) i v) = Some (c', mgr')"
  shows "cfg_inv c'"
  using assms
  by (auto simp: with_upcalls_def commit_wo_def cfg_inv_def paxos_commit_def Let_def omap_get_set split: if_splits)

lemma cfg_inv_same:
  assumes "cfg_inv c" "a_instance_h acc = a_instance_h (cf_acc c)"
    and "\<And>i. omap_get [] (a_values acc) i = omap_get [] (a_values (cf_acc c)) i"
  shows "cfg_inv (c\<lparr> cf_acc := acc \<rparr>)"
  using assms by (simp add: cfg_inv_def)

lemma cfg_inv_exec:
  assumes "cfg_inv (fst a)" "cfg_exec ev a = Some a'"
  shows "cfg_inv (fst a')"
proof -
  obtain c mgr where a: "a = (c, mgr)" by fastforce
  show ?thesis
  proof (cases ev)
    case (CPrepare x r)
    then show ?thesis using assms by (auto simp: a preparereq_def Let_def intro!: cfg_inv_same)
  next
    case (CAccept x)
    then show ?thesis using assms by (auto simp: a acceptreq_def Let_def intro!: cfg_inv_same)
  next
    case (CDecide x)
    then obtain r where r: "decidereq (cf_acc c) x = Some r" "with_upcalls c mgr r = Some a'"
      using assms(2) by (auto simp: a split: Option.bind_splits)
    then have "r = (cf_acc c, []) \<or> (\<exists>i v. r = commit_wo (cf_acc c) i v)"
      by (auto simp: decidereq_def split: if_splits)
    then show ?thesis
    proof
      assume "r = (cf_acc c, [])"
      then show ?thesis using r(2) assms(1) by (auto simp: a with_upcalls_def)
    next
      assume "\<exists>i v. r = commit_wo (cf_acc c) i v"
      then show ?thesis using r(2) assms(1) cfg_inv_commit [of c mgr _ _ "fst a'" "snd a'"] by (auto simp: a)
    qed
  next
    case (CCommit i v)
    then show ?thesis using assms cfg_inv_commit [of c mgr i v "fst a'" "snd a'"] by (simp add: a)
  next
    case (CView vid)
    then show ?thesis using assms by (auto simp: a get_view_wo_def intro!: cfg_inv_same)
  next
    case (CRestore s)
    then show ?thesis using assms(2) by (auto simp: a config_restore_def cfg_inv_reconstruct)
  qed
qed

text \<open>
  C16: The current view is the last decided one.  In every state a node reaches by handling Paxos
  requests, reading views and restoring logs, each commit followed by its upcall, the view number is
  the highest decided instance and the members are those of its value.
\<close>

theorem view_follows_log:
  assumes "cfg_reach a" "a_instance_h (cf_acc (fst a)) > 0"
  shows "cf_myvid (fst a) = a_instance_h (cf_acc (fst a)) \<and>
    cf_mems (fst a) = fst (get_view_wo (fst a) (cf_myvid (fst a)))"
proof -
  have "cfg_inv (fst a)" using assms(1)
  proof induction
    case (init first me disk c mgr)
    then show ?case by (auto simp: config_new_def cfg_inv_reconstruct)
  next
    case (step a ev a')
    then show ?case using cfg_inv_exec by blast
  qed
  with assms(2) show ?thesis by (auto simp: cfg_inv_def get_view_wo_def)
qed

definition cfg_boot :: config where
  "cfg_boot = the (config_new ''1'' ''1'' [])"

lemma logread_empty: "logread (acceptor_init me []) = Some (acceptor_init me [])"
  by (simp add: logread_def logread_loop.simps read_word_def istream_of_def skip_ws_def acceptor_init_def)

lemma cfg_boot_new: "config_new ''1'' ''1'' [] = Some cfg_boot"
  by (simp add: cfg_boot_def config_new_def acceptor_new_def logread_empty)

theorem view_follows_log_witness:
  "cfg_reach (cfg_boot, handle_mgr_new) \<and> a_instance_h (cf_acc cfg_boot) = 1 \<and> cf_myvid cfg_boot = 1 \<and>
   cf_mems cfg_boot = fst (get_view_wo cfg_boot 1)"
proof -
  have r: "cfg_reach (cfg_boot, handle_mgr_new)" by (rule cfg_reach.init [OF cfg_boot_new])
  have i: "a_instance_h (cf_acc cfg_boot) = 1"
    by (simp add: cfg_boot_def config_new_def acceptor_new_def logread_empty)
      (simp add: reconstruct_def get_view_wo_def acceptor_init_def Let_def)
  show ?thesis using view_follows_log [OF r] r i by simp
qed

text \<open>
  Upcalls can arrive in the wrong order.  \<open>commit_wo\<close> releases the acceptor's mutex before it calls
  \<open>paxos_commit\<close>, which does not compare the instance with \<open>myvid\<close>: when two instances are committed
  and the upcall of the first is delayed past that of the second, the node ends in the older view
  although its acceptor has decided the newer one.
\<close>

theorem late_upcall_reverts_view:
  assumes "a_instance_h (cf_acc c) < i" "i < j"
    and "commit_wo (cf_acc c) i v = (acc1, ups1)" "commit_wo acc1 j w = (acc2, ups2)"
    and "paxos_commit (c\<lparr> cf_acc := acc2 \<rparr>) mgr j w = Some (c1, mgr1)"
    and "paxos_commit c1 mgr1 i v = Some (c2, mgr2)"
  shows "ups1 = [(i, v)] \<and> ups2 = [(j, w)] \<and> a_instance_h (cf_acc c2) = j \<and> cf_myvid c2 = i \<and>
    cf_mems c2 = members v"
  using assms by (auto simp: commit_wo_def paxos_commit_def Let_def)

theorem late_upcall_reverts_view_witness:
  "\<exists>acc1 acc2 c1 m1 c2 m2. commit_wo (cf_acc cfg_demo) 2 ''1'' = (acc1, [(2, ''1'')]) \<and>
     commit_wo acc1 3 ''1 2'' = (acc2, [(3, ''1 2'')]) \<and>
     paxos_commit (cfg_demo\<lparr> cf_acc := acc2 \<rparr>) handle_mgr_new 3 ''1 2'' = Some (c1, m1) \<and>
     paxos_commit c1 m1 2 ''1'' = Some (c2, m2) \<and> a_instance_h (cf_acc c2) = 3 \<and> cf_myvid c2 = 2"
proof -
  have d: "delete_handles ms handle_mgr_new = Some handle_mgr_new" for ms
    by (induction ms) (simp_all add: delete_handle_def delete_handle_wo_def handle_mgr_new_def omap_find_def)
  obtain acc1 acc2 where a: "commit_wo (cf_acc cfg_demo) 2 ''1'' = (acc1, [(2, ''1'')])"
      "commit_wo acc1 3 ''1 2'' = (acc2, [(3, ''1 2'')])"
    by (simp add: commit_wo_def cfg_demo_def acceptor_init_def word_less_nat_alt)
  obtain c1 where c1: "paxos_commit (cfg_demo\<lparr> cf_acc := acc2 \<rparr>) handle_mgr_new 3 ''1 2'' = Some (c1, handle_mgr_new)"
    by (simp add: paxos_commit_def d)
  obtain c2 where c2: "paxos_commit c1 handle_mgr_new 2 ''1'' = Some (c2, handle_mgr_new)"
    by (simp add: paxos_commit_def d)
  have l: "a_instance_h (cf_acc cfg_demo) < 2" "(2 :: u32) < 3"
    by (simp_all add: cfg_demo_def acceptor_init_def word_less_nat_alt)
  show ?thesis using late_upcall_reverts_view [OF l a c1 c2] a c1 c2 by blast
qed

section \<open>Heartbeats\<close>

lemma smallest_le: "smallest me cmems \<le> me" "x \<in> set cmems \<Longrightarrow> smallest me cmems \<le> x"
proof -
  have 1: "fold (\<lambda>x m. if m > x then x else m) cmems a \<le> a" for a :: string and cmems
    by (induction cmems arbitrary: a) (auto intro: order.trans less_imp_le split: if_splits)
  then show "smallest me cmems \<le> me" by (simp add: smallest_def)
  have "x \<in> set cmems \<Longrightarrow> fold (\<lambda>x m. if m > x then x else m) cmems a \<le> x" for a
  proof (induction cmems arbitrary: a)
    case (Cons y ys)
    then show ?case using 1 [of ys y] 1 [of ys a] by (auto intro: order.trans)
  qed simp
  then show "x \<in> set cmems \<Longrightarrow> smallest me cmems \<le> x" by (simp add: smallest_def)
qed

lemma smallest_mem: "smallest me cmems = me \<or> smallest me cmems \<in> set cmems"
proof -
  have "fold (\<lambda>x m. if m > x then x else m) cmems a \<in> insert a (set cmems)" for a :: string and cmems
    by (induction cmems arbitrary: a) auto
  then show ?thesis by (auto simp: smallest_def)
qed

lemma heartbeater_cases:
  assumes "cmems = fst (get_view_wo c (cf_myvid c))" "cf_me c \<in> set cmems"
  shows "fst (heartbeater c ping vid') = Some m \<longrightarrow> m \<in> set cmems \<and> m \<noteq> cf_me c \<and> ping m \<noteq> HB_OK"
    and "\<forall>x \<in> set cmems. cf_me c \<le> x \<Longrightarrow> y \<in> set cmems \<Longrightarrow> y \<noteq> cf_me c \<Longrightarrow> ping y \<noteq> HB_OK \<Longrightarrow>
      fst (heartbeater c ping (cf_myvid c)) \<noteq> None"
    and "y \<in> set cmems \<Longrightarrow> \<forall>x \<in> set cmems. y \<le> x \<Longrightarrow> y \<noteq> cf_me c \<Longrightarrow> ping y \<noteq> HB_OK \<Longrightarrow>
      fst (heartbeater c ping (cf_myvid c)) = Some y"
proof -
  obtain c0 where g: "get_view_wo c (cf_myvid c) = (cmems, c0)" "cf_me c0 = cf_me c"
    using assms(1) by (cases "get_view_wo c (cf_myvid c)") (auto simp: get_view_wo_def)
  show "fst (heartbeater c ping vid') = Some m \<longrightarrow> m \<in> set cmems \<and> m \<noteq> cf_me c \<and> ping m \<noteq> HB_OK"
    using assms(2) smallest_mem [of "cf_me c" cmems]
    by (auto simp: heartbeater_def g Let_def find_Some_iff split: if_splits)
  show "fst (heartbeater c ping (cf_myvid c)) \<noteq> None"
    if "\<forall>x \<in> set cmems. cf_me c \<le> x" "y \<in> set cmems" "y \<noteq> cf_me c" "ping y \<noteq> HB_OK"
  proof -
    have "smallest (cf_me c) cmems = cf_me c"
      using that(1) smallest_mem [of "cf_me c" cmems] smallest_le(1) [of "cf_me c" cmems] by (auto intro: antisym)
    then show ?thesis using that assms(2) by (auto simp: heartbeater_def g Let_def find_None_iff)
  qed
  show "fst (heartbeater c ping (cf_myvid c)) = Some y"
    if "y \<in> set cmems" "\<forall>x \<in> set cmems. y \<le> x" "y \<noteq> cf_me c" "ping y \<noteq> HB_OK"
  proof -
    have "smallest (cf_me c) cmems = y"
      using that assms(2) smallest_mem [of "cf_me c" cmems] smallest_le(2) [OF that(1), of "cf_me c"]
      by (auto intro: antisym)
    then show ?thesis using that assms(2) by (auto simp: heartbeater_def g Let_def)
  qed
qed

text \<open>
  Failure detection.  A round of \<open>heartbeater\<close> removes only a member of the current view other
  than the node itself that did not answer its ping.  If the view did not change meanwhile, the node
  with the smallest name removes one whenever some other member is silent, and every other node
  removes the smallest one whenever that is silent.
\<close>

theorem heartbeater_detects:
  assumes "cmems = fst (get_view_wo c (cf_myvid c))" "cf_me c \<in> set cmems" "y \<in> set cmems" "y \<noteq> cf_me c"
    and "ping y \<noteq> HB_OK"
  shows "(\<forall>m vid'. fst (heartbeater c ping vid') = Some m \<longrightarrow> m \<in> set cmems \<and> m \<noteq> cf_me c \<and> ping m \<noteq> HB_OK) \<and>
    ((\<forall>x \<in> set cmems. cf_me c \<le> x) \<longrightarrow> fst (heartbeater c ping (cf_myvid c)) \<noteq> None) \<and>
    ((\<forall>x \<in> set cmems. y \<le> x) \<longrightarrow> fst (heartbeater c ping (cf_myvid c)) = Some y)"
  using heartbeater_cases [OF assms(1,2)] assms(3-5) by blast

definition cfg_pair :: config where
  "cfg_pair = cfg_demo\<lparr> cf_acc := (acceptor_init ''1'' [])\<lparr> a_values := [(2, cfg_value [''1'', ''2''])], a_instance_h := 2 \<rparr> \<rparr>"

theorem heartbeater_detects_witness:
  "fst (get_view_wo cfg_pair 2) = [''1'', ''2''] \<and>
   fst (heartbeater cfg_pair (\<lambda>_. HB_FAILURE) 2) = Some ''2''"
proof -
  have v: "[''1'', ''2''] = fst (get_view_wo cfg_pair (cf_myvid cfg_pair))"
    by (simp add: get_view_wo_def cfg_pair_def cfg_demo_def members_value is_word_def is_space_def)
  have me: "cf_me cfg_pair = ''1''" "cf_myvid cfg_pair = 2" by (simp_all add: cfg_pair_def cfg_demo_def)
  have ord: "\<forall>x \<in> set [''1'', ''2'']. cf_me cfg_pair \<le> x" unfolding me by simp
  have "(\<forall>m. fst (heartbeater cfg_pair (\<lambda>_. HB_FAILURE) 2) = Some m \<longrightarrow> m = ''2'') \<and>
      fst (heartbeater cfg_pair (\<lambda>_. HB_FAILURE) 2) \<noteq> None"
    using heartbeater_detects [OF v, of "''2''" "\<lambda>_. HB_FAILURE"] ord me by auto
  then show ?thesis using v me by auto
qed

end
