(* ===== verification/Rsm_Call.thy ===== *)
theory Rsm_Call
  imports Rpc_Call
begin

text \<open>
  The messages of the replicated state machine (\<open>rsm_protocol.h\<close>), the handler objects of
  \<open>rsm::reg\<close> (\<open>rsm.h\<close>), \<open>rsm::execute\<close>, and the client stubs \<open>rsm_client::call\<close> and \<open>call_m\<close>
  (\<open>rsm_client.h\<close>): a call travels as a string inside an RPC, and its result and reply as a string
  inside a string.
\<close>

section \<open>Messages\<close>

record viewstamp =
  vs_vid :: u32
  vs_seqno :: u32

record transferres =
  tr_state :: string
  tr_last :: viewstamp

record joinres =
  jr_log :: string

definition rcp_OK :: u32 where "rcp_OK = 0"
definition rcp_ERR :: u32 where "rcp_ERR = 1"
definition rcp_NOTPRIMARY :: u32 where "rcp_NOTPRIMARY = 2"
definition rcp_BUSY :: u32 where "rcp_BUSY = 3"
definition rp_OK :: u32 where "rp_OK = 0"
definition rp_ERR :: u32 where "rp_ERR = 1"
definition rp_BUSY :: u32 where "rp_BUSY = 2"
definition rtp_OK :: u32 where "rtp_OK = 0"
definition rtp_ERR :: u32 where "rtp_ERR = 1"

lemmas rsm_codes = rcp_OK_def rcp_ERR_def rcp_NOTPRIMARY_def rcp_BUSY_def rp_OK_def rp_ERR_def rp_BUSY_def
  rtp_OK_def rtp_ERR_def

definition vs_eq :: "viewstamp \<Rightarrow> viewstamp \<Rightarrow> bool" where
  "vs_eq a b = (vs_vid a = vs_vid b \<and> vs_seqno a = vs_seqno b)"

definition vs_gt :: "viewstamp \<Rightarrow> viewstamp \<Rightarrow> bool" where
  "vs_gt a b = (vs_vid a > vs_vid b \<or> vs_vid a = vs_vid b \<and> vs_seqno a > vs_seqno b)"

definition vs_ne :: "viewstamp \<Rightarrow> viewstamp \<Rightarrow> bool" where
  "vs_ne a b = (vs_vid a \<noteq> vs_vid b \<or> vs_seqno a \<noteq> vs_seqno b)"

lemma vs_eq_iff [simp]: "vs_eq a b = (a = b)" and vs_ne_iff [simp]: "vs_ne a b = (a \<noteq> b)"
  by (auto simp: vs_eq_def vs_ne_def)

definition m_viewstamp :: "marshall \<Rightarrow> viewstamp \<Rightarrow> marshall" where
  "m_viewstamp m v = (let m = m_uint m (vs_vid v) in m_uint m (vs_seqno v))"

definition u_viewstamp :: "unmarshall \<Rightarrow> (viewstamp \<times> unmarshall) option" where
  "u_viewstamp u = do { (a, u) \<leftarrow> u_uint u; (b, u) \<leftarrow> u_uint u; Some (\<lparr> vs_vid = a, vs_seqno = b \<rparr>, u) }"

definition m_transferres :: "marshall \<Rightarrow> transferres \<Rightarrow> marshall" where
  "m_transferres m r = (let m = m_string m (tr_state r) in m_viewstamp m (tr_last r))"

definition u_transferres :: "unmarshall \<Rightarrow> (transferres \<times> unmarshall) option" where
  "u_transferres u = do {
     (a, u) \<leftarrow> u_string u; (b, u) \<leftarrow> u_viewstamp u; Some (\<lparr> tr_state = a, tr_last = b \<rparr>, u) }"

definition m_joinres :: "marshall \<Rightarrow> joinres \<Rightarrow> marshall" where
  "m_joinres m r = m_string m (jr_log r)"

definition u_joinres :: "unmarshall \<Rightarrow> (joinres \<times> unmarshall) option" where
  "u_joinres u = do { (a, u) \<leftarrow> u_string u; Some (\<lparr> jr_log = a \<rparr>, u) }"

definition enc_viewstamp :: "viewstamp \<Rightarrow> byte list" where
  "enc_viewstamp v = enc_uint (vs_vid v) @ enc_uint (vs_seqno v)"

definition enc_transferres :: "transferres \<Rightarrow> byte list" where
  "enc_transferres r = enc_string (tr_state r) @ enc_viewstamp (tr_last r)"

interpretation vstamp: codec m_viewstamp u_viewstamp enc_viewstamp "\<lambda>_. True"
  by (rule codec_via [OF codec_pair [OF uint.codec_axioms uint.codec_axioms],
        of _ "\<lambda>v. (vs_vid v, vs_seqno v)" _ "\<lambda>(a, b). \<lparr> vs_vid = a, vs_seqno = b \<rparr>"])
    (simp_all add: m_viewstamp_def u_viewstamp_def enc_viewstamp_def struct_simps)

interpretation transfer_res: codec m_transferres u_transferres enc_transferres "\<lambda>_. True"
  by (rule codec_via [OF codec_pair [OF str.codec_axioms vstamp.codec_axioms],
        of _ "\<lambda>r. (tr_state r, tr_last r)" _ "\<lambda>(a, b). \<lparr> tr_state = a, tr_last = b \<rparr>"])
    (simp_all add: m_transferres_def u_transferres_def enc_transferres_def struct_simps)

interpretation join_res: codec m_joinres u_joinres "\<lambda>r. enc_string (jr_log r)" "\<lambda>_. True"
  by (rule codec_via [OF str.codec_axioms, of _ jr_log _ "\<lambda>a. \<lparr> jr_log = a \<rparr>"])
    (simp_all add: m_joinres_def u_joinres_def struct_simps)

section \<open>Handler objects and execution\<close>

text \<open>Unlike those of \<open>rpcs::reg\<close>, these handlers check the arguments with a \<open>VERIFY\<close> (\<open>None\<close>, also
  the outcome of a method that aborts).  The one with five arguments reads only four: \<open>a5\<close> is whatever the uninitialised variable holds.\<close>

definition rsm_fn1 :: "'a reader \<Rightarrow> 'r writer \<Rightarrow> ('s \<Rightarrow> 'a \<Rightarrow> (u32 \<times> 'r \<times> 's) option) \<Rightarrow> 's handler" where
  "rsm_fn1 g1 pr meth sob args ret = do {
     (a1, args) \<leftarrow> g1 args;
     if \<not> u_okdone args then None
     else do { (b, r, sob) \<leftarrow> meth sob a1; Some ((b, pr ret r), sob) } }"

definition rsm_fn2 ::
  "'a reader \<Rightarrow> 'b reader \<Rightarrow> 'r writer \<Rightarrow> ('s \<Rightarrow> 'a \<Rightarrow> 'b \<Rightarrow> (u32 \<times> 'r \<times> 's) option) \<Rightarrow> 's handler" where
  "rsm_fn2 g1 g2 pr meth sob args ret = do {
     (a1, args) \<leftarrow> g1 args;
     (a2, args) \<leftarrow> g2 args;
     if \<not> u_okdone args then None
     else do { (b, r, sob) \<leftarrow> meth sob a1 a2; Some ((b, pr ret r), sob) } }"

definition rsm_fn3 ::
  "'a reader \<Rightarrow> 'b reader \<Rightarrow> 'c reader \<Rightarrow> 'r writer \<Rightarrow>
   ('s \<Rightarrow> 'a \<Rightarrow> 'b \<Rightarrow> 'c \<Rightarrow> (u32 \<times> 'r \<times> 's) option) \<Rightarrow> 's handler" where
  "rsm_fn3 g1 g2 g3 pr meth sob args ret = do {
     (a1, args) \<leftarrow> g1 args;
     (a2, args) \<leftarrow> g2 args;
     (a3, args) \<leftarrow> g3 args;
     if \<not> u_okdone args then None
     else do { (b, r, sob) \<leftarrow> meth sob a1 a2 a3; Some ((b, pr ret r), sob) } }"

definition rsm_fn4 ::
  "'a reader \<Rightarrow> 'b reader \<Rightarrow> 'c reader \<Rightarrow> 'd reader \<Rightarrow> 'r writer \<Rightarrow>
   ('s \<Rightarrow> 'a \<Rightarrow> 'b \<Rightarrow> 'c \<Rightarrow> 'd \<Rightarrow> (u32 \<times> 'r \<times> 's) option) \<Rightarrow> 's handler" where
  "rsm_fn4 g1 g2 g3 g4 pr meth sob args ret = do {
     (a1, args) \<leftarrow> g1 args;
     (a2, args) \<leftarrow> g2 args;
     (a3, args) \<leftarrow> g3 args;
     (a4, args) \<leftarrow> g4 args;
     if \<not> u_okdone args then None
     else do { (b, r, sob) \<leftarrow> meth sob a1 a2 a3 a4; Some ((b, pr ret r), sob) } }"

definition rsm_fn5 ::
  "'a reader \<Rightarrow> 'b reader \<Rightarrow> 'c reader \<Rightarrow> 'd reader \<Rightarrow> 'e \<Rightarrow> 'r writer \<Rightarrow>
   ('s \<Rightarrow> 'a \<Rightarrow> 'b \<Rightarrow> 'c \<Rightarrow> 'd \<Rightarrow> 'e \<Rightarrow> (u32 \<times> 'r \<times> 's) option) \<Rightarrow> 's handler" where
  "rsm_fn5 g1 g2 g3 g4 a5 pr meth sob args ret = do {
     (a1, args) \<leftarrow> g1 args;
     (a2, args) \<leftarrow> g2 args;
     (a3, args) \<leftarrow> g3 args;
     (a4, args) \<leftarrow> g4 args;
     if \<not> u_okdone args then None
     else do { (b, r, sob) \<leftarrow> meth sob a1 a2 a3 a4 a5; Some ((b, pr ret r), sob) } }"

definition execute ::
  "(nat \<Rightarrow> byte) \<Rightarrow> (u32, 's handler) omap \<Rightarrow> 's \<Rightarrow> u32 \<Rightarrow> string \<Rightarrow> (string \<times> 's) option" where
  "execute junk procs sob procno req =
     (case omap_find procs procno of
        None \<Rightarrow> None
      | Some h \<Rightarrow> do {
          ((ret, rep), sob) \<leftarrow> h sob (unmarshall_of_string junk req) (marshall_new junk);
          let rep1 = m_int (marshall_new junk) ret;
          let rep1 = m_string rep1 (m_get_content rep);
          Some (m_get_content rep1, sob) })"

section \<open>The client stubs\<close>

text \<open>\<open>call_m\<close> after \<open>invoke\<close> returned \<open>OK\<close> with \<open>rep\<close>.  The requests of \<open>rsm_client::call\<close> are
  marshalled as those of \<open>rpcc::call\<close>.\<close>

definition rsm_call_m :: "(nat \<Rightarrow> byte) \<Rightarrow> 'r reader \<Rightarrow> string \<Rightarrow> (u32 \<times> 'r option) option" where
  "rsm_call_m junk getr rep = do {
     (intret, u) \<leftarrow> u_int (unmarshall_of_string junk rep);
     if sint intret < 0 then Some (intret, None)
     else do {
       (res, u) \<leftarrow> u_string u;
       if \<not> u_okdone u then None
       else do {
         (r, u1) \<leftarrow> getr (unmarshall_of_string junk res);
         if \<not> u_okdone u1 then None else Some (intret, Some r) } } }"

definition rsm_call1 :: "'a writer \<Rightarrow> (nat \<Rightarrow> byte) \<Rightarrow> 'a \<Rightarrow> string" where
  "rsm_call1 p1 junk a1 = m_get_content (p1 (marshall_new junk) a1)"

definition rsm_call2 :: "'a writer \<Rightarrow> 'b writer \<Rightarrow> (nat \<Rightarrow> byte) \<Rightarrow> 'a \<Rightarrow> 'b \<Rightarrow> string" where
  "rsm_call2 p1 p2 junk a1 a2 = m_get_content (let m = marshall_new junk; m = p1 m a1 in p2 m a2)"

definition rsm_call3 ::
  "'a writer \<Rightarrow> 'b writer \<Rightarrow> 'c writer \<Rightarrow> (nat \<Rightarrow> byte) \<Rightarrow> 'a \<Rightarrow> 'b \<Rightarrow> 'c \<Rightarrow> string" where
  "rsm_call3 p1 p2 p3 junk a1 a2 a3 =
     m_get_content (let m = marshall_new junk; m = p1 m a1; m = p2 m a2 in p3 m a3)"

definition rsm_call4 ::
  "'a writer \<Rightarrow> 'b writer \<Rightarrow> 'c writer \<Rightarrow> 'd writer \<Rightarrow> (nat \<Rightarrow> byte) \<Rightarrow> 'a \<Rightarrow> 'b \<Rightarrow> 'c \<Rightarrow> 'd \<Rightarrow> string" where
  "rsm_call4 p1 p2 p3 p4 junk a1 a2 a3 a4 =
     m_get_content (let m = marshall_new junk; m = p1 m a1; m = p2 m a2; m = p3 m a3 in p4 m a4)"

definition rsm_call5 ::
  "'a writer \<Rightarrow> 'b writer \<Rightarrow> 'c writer \<Rightarrow> 'd writer \<Rightarrow> 'e writer \<Rightarrow> (nat \<Rightarrow> byte) \<Rightarrow>
   'a \<Rightarrow> 'b \<Rightarrow> 'c \<Rightarrow> 'd \<Rightarrow> 'e \<Rightarrow> string" where
  "rsm_call5 p1 p2 p3 p4 p5 junk a1 a2 a3 a4 a5 =
     m_get_content (let m = marshall_new junk; m = p1 m a1; m = p2 m a2; m = p3 m a3; m = p4 m a4 in p5 m a5)"

section \<open>A string carries a message\<close>

lemma bytes_of_string_of_bytes [simp]: "bytes_of_string (string_of_bytes bs) = bs"
  by (simp add: string_of_bytes_def bytes_of_string_def comp_def)

lemma get_content_eq: "m_get_content m = string_of_bytes (content m)"
  by (simp add: m_get_content_def content_def written_def drop_take)

lemma of_string:
  assumes "length s + RPC_HEADER_SZ < 2 ^ 31"
  shows "u_wf (unmarshall_of_string junk s)" "u_ok (unmarshall_of_string junk s)"
    and "unread (unmarshall_of_string junk s) = bytes_of_string s"
  using assms
  by (simp_all add: unmarshall_of_string_def u_take_content_def u_wf_def unread_def length_memcpy_at length_realloc
      memcpy_at_def Let_def)

lemma string_message:
  assumes "codec p g e v" "v x" "length (e x) + RPC_HEADER_SZ \<le> MSG_LIMIT"
  shows "\<exists>u. g (unmarshall_of_string junk (m_get_content (p (marshall_new junk') x))) = Some (x, u) \<and> u_okdone u"
proof -
  let ?s = "m_get_content (p (marshall_new junk') x)"
  have s: "bytes_of_string ?s = e x"
    using new_message(2) [OF assms(1), of x junk'] assms(3) by (simp add: get_content_eq)
  then have "length ?s + RPC_HEADER_SZ < 2 ^ 31" using assms(3) length_bytes_of_string [of ?s] by (simp add: limits)
  note w = of_string [OF this, of junk]
  from codec.read_back [OF assms(1) w(1,2) assms(2), of "[]"] w(3)
  show ?thesis by (auto simp: s)
qed

text \<open>Several arguments are a tuple for the lemmas, as in \<open>Rpc_Call\<close>.\<close>

lemma rsm_fn_pair:
  "rsm_fn2 g1 g2 pr f2 = rsm_fn1 (u_pair g1 g2) pr (\<lambda>s (a1, a2). f2 s a1 a2)"
  "rsm_fn3 g1 g2 g3 pr f3 = rsm_fn1 (u_pair g1 (u_pair g2 g3)) pr (\<lambda>s (a1, a2, a3). f3 s a1 a2 a3)"
  "rsm_fn4 g1 g2 g3 g4 pr f4 = rsm_fn1 (u_pair g1 (u_pair g2 (u_pair g3 g4))) pr (\<lambda>s (a1, a2, a3, a4). f4 s a1 a2 a3 a4)"
  "rsm_fn5 g1 g2 g3 g4 a5 pr f5 =
     rsm_fn1 (u_pair g1 (u_pair g2 (u_pair g3 g4))) pr (\<lambda>s (a1, a2, a3, a4). f5 s a1 a2 a3 a4 a5)"
  by (auto simp: fun_eq_iff rsm_fn1_def rsm_fn2_def rsm_fn3_def rsm_fn4_def rsm_fn5_def u_pair_def split: bind_splits)

lemma rsm_call_pair:
  "rsm_call2 p1 p2 junk a1 a2 = rsm_call1 (m_pair p1 p2) junk (a1, a2)"
  "rsm_call3 p1 p2 p3 junk a1 a2 a3 = rsm_call1 (m_pair p1 (m_pair p2 p3)) junk (a1, a2, a3)"
  "rsm_call4 p1 p2 p3 p4 junk a1 a2 a3 a4 = rsm_call1 (m_pair p1 (m_pair p2 (m_pair p3 p4))) junk (a1, a2, a3, a4)"
  "rsm_call5 p1 p2 p3 p4 p5 junk a1 a2 a3 a4 a5 =
     rsm_call1 (m_pair (m_pair p1 (m_pair p2 (m_pair p3 p4))) p5) junk ((a1, a2, a3, a4), a5)"
  by (simp_all add: rsm_call1_def rsm_call2_def rsm_call3_def rsm_call4_def rsm_call5_def m_pair_def)

text \<open>The method returned status \<open>b\<close> and result \<open>r\<close>: the replica ends in \<open>sob'\<close> and the client gets both from the
  reply, the result only when the status is not negative.\<close>

definition call_gives ::
  "((nat \<Rightarrow> byte) \<times> (nat \<Rightarrow> byte)) \<Rightarrow> (u32, 's handler) omap \<Rightarrow> 's \<Rightarrow> u32 \<Rightarrow> string \<Rightarrow> 'r reader \<Rightarrow> u32 \<times> 'r \<times> 's \<Rightarrow> bool" where
  "call_gives junks procs sob n rq getr res =
     (case execute (fst junks) procs sob n rq of
        None \<Rightarrow> False
      | Some (rep, sob1) \<Rightarrow> (case res of (b, r, sob') \<Rightarrow>
          sob1 = sob' \<and> rsm_call_m (snd junks) getr rep = Some (b, if sint b < 0 then None else Some r)))"

lemma execute_call:
  assumes "codec p g e v" "v a" "length (e a) + RPC_HEADER_SZ \<le> MSG_LIMIT"
    and "codec pr getr er vr" "vr r" "length (er r) + 36 \<le> MSG_LIMIT"
    and "omap_find procs n = Some (rsm_fn1 g pr meth)" "meth sob a = Some (b, r, sob')"
  shows "call_gives junks procs sob n (rsm_call1 p junk' a) getr (b, r, sob')"
proof -
  obtain junk junk'' where j: "junks = (junk, junk'')" by fastforce
  obtain u where u: "g (unmarshall_of_string junk (rsm_call1 p junk' a)) = Some (a, u)" "u_okdone u"
    using string_message [OF assms(1-3), of junk junk'] by (auto simp: rsm_call1_def)
  let ?rep = "m_get_content (pr (marshall_new junk) r)"
  let ?rep1 = "m_get_content (m_string (m_int (marshall_new junk) b) ?rep)"
  have e: "execute junk procs sob n (rsm_call1 p junk' a) = Some (?rep1, sob')"
    using assms(7,8) u by (simp add: execute_def rsm_fn1_def)
  have lr: "length ?rep = length (er r)"
    using new_message(2) [OF assms(4), of r junk] assms(6) by (simp add: get_content_eq RPC_HEADER_SZ_24)
  note c = codec_pair [OF cint.codec_axioms str.codec_axioms]
  have b1: "bytes_of_string ?rep1 = enc_uint b @ enc_string ?rep"
    using new_message(2) [OF c, of "(b, ?rep)" junk] assms(6) lr
    by (simp add: get_content_eq m_pair_def enc_pair_def enc_string_def RPC_HEADER_SZ_24)
  have l1: "length ?rep1 + RPC_HEADER_SZ < 2 ^ 31"
    using arg_cong [OF b1, of length] assms(6) lr by (simp add: enc_string_def RPC_HEADER_SZ_24 limits)
  note s = of_string [OF l1, of junk'']
  obtain u1 where u1: "u_int (unmarshall_of_string junk'' ?rep1) = Some (b, u1)" "u_wf u1" "u_ok u1"
      "unread u1 = enc_string ?rep"
    using cint.read_back [OF s(1,2), of b "enc_string ?rep"] s(3) b1 by auto
  obtain u2 where u2: "u_string u1 = Some (?rep, u2)" "u_okdone u2"
    using str.read_back [OF u1(2,3), of ?rep "[]"] u1(4) by auto
  obtain u3 where u3: "getr (unmarshall_of_string junk'' ?rep) = Some (r, u3)" "u_okdone u3"
    using string_message [OF assms(4,5), of junk'' junk] assms(6) by (auto simp: RPC_HEADER_SZ_24)
  have "rsm_call_m junk'' getr ?rep1 = Some (b, if sint b < 0 then None else Some r)"
    using u1(1) u2 u3 by (simp add: rsm_call_m_def)
  with e show ?thesis by (simp add: call_gives_def j)
qed

text \<open>A reader that stops before the last argument leaves bytes unread.\<close>

lemma execute_unread:
  assumes "codec p g e v" "v a" "codec p' g' e' v'" "length (e a) + length (e' a') + RPC_HEADER_SZ \<le> MSG_LIMIT"
    and "omap_find procs n = Some (rsm_fn1 g pr meth)"
  shows "execute junk procs sob n (rsm_call1 (m_pair p p') junk' (a, a')) = None"
proof -
  let ?s = "rsm_call1 (m_pair p p') junk' (a, a')"
  have s: "bytes_of_string ?s = e a @ e' a'"
    using new_message(2) [OF codec_pair [OF assms(1,3)], of "(a, a')" junk'] assms(4)
    by (simp add: rsm_call1_def get_content_eq enc_pair_def)
  then have "length ?s + RPC_HEADER_SZ < 2 ^ 31"
    using arg_cong [OF s, of length] assms(4) length_bytes_of_string [of ?s] by (simp add: limits)
  note w = of_string [OF this, of junk]
  from codec.read_back [OF assms(1) w(1,2) assms(2), of "e' a'"] w(3) s codec.enc_nonempty [OF assms(3)]
  obtain u where "g (unmarshall_of_string junk ?s) = Some (a, u)" "\<not> u_okdone u" by auto
  then show ?thesis using assms(5) by (simp add: execute_def rsm_fn1_def)
qed

text \<open>
  C30: Replicated calls of every arity.  The request that \<open>rsm_client::call\<close> marshals for one to four
  arguments of any types, when a replica executes it, reaches the registered method with exactly those
  arguments, and \<open>rsm_client::call_m\<close> extracts from the reply string exactly the method's status and, unless
  the status is negative, its result.  With five arguments the replica aborts, because the registered
  handler never unmarshals the last one.  Request and reply have at most \<open>2 ^ 30\<close> bytes.
\<close>

theorem replicated_call_result:
  assumes "has_ty a1 t1" "has_ty a2 t2" "has_ty a3 t3" "has_ty a4 t4" "has_ty a5 t5" "has_ty r tr"
    and "length (enc_arg a1) + length (enc_arg a2) + length (enc_arg a3) + length (enc_arg a4) + length (enc_arg a5) + 24 \<le> 2 ^ 30"
    and "length (enc_arg r) + 36 \<le> 2 ^ 30"
  shows "(omap_find procs n = Some (rsm_fn1 (u_arg t1) m_arg f1) \<and> f1 sob a1 = Some (b, r, sob') \<longrightarrow>
       call_gives junks procs sob n (rsm_call1 m_arg junk a1) (u_arg tr) (b, r, sob')) \<and>
    (omap_find procs n = Some (rsm_fn2 (u_arg t1) (u_arg t2) m_arg f2) \<and> f2 sob a1 a2 = Some (b, r, sob') \<longrightarrow>
       call_gives junks procs sob n (rsm_call2 m_arg m_arg junk a1 a2) (u_arg tr) (b, r, sob')) \<and>
    (omap_find procs n = Some (rsm_fn3 (u_arg t1) (u_arg t2) (u_arg t3) m_arg f3) \<and> f3 sob a1 a2 a3 = Some (b, r, sob') \<longrightarrow>
       call_gives junks procs sob n (rsm_call3 m_arg m_arg m_arg junk a1 a2 a3) (u_arg tr) (b, r, sob')) \<and>
    (omap_find procs n = Some (rsm_fn4 (u_arg t1) (u_arg t2) (u_arg t3) (u_arg t4) m_arg f4) \<and>
       f4 sob a1 a2 a3 a4 = Some (b, r, sob') \<longrightarrow>
       call_gives junks procs sob n (rsm_call4 m_arg m_arg m_arg m_arg junk a1 a2 a3 a4) (u_arg tr) (b, r, sob')) \<and>
    (omap_find procs n = Some (rsm_fn5 (u_arg t1) (u_arg t2) (u_arg t3) (u_arg t4) a5' m_arg f5) \<longrightarrow>
       execute (fst junks) procs sob n (rsm_call5 m_arg m_arg m_arg m_arg m_arg junk a1 a2 a3 a4 a5) = None)"
proof -
  note c = codec_arg [of t1] codec_arg [of t2] codec_arg [of t3] codec_arg [of t4] codec_arg [of t5] codec_arg [of tr]
  note c34 = codec_pair [OF c(3,4)]
  note c4 = codec_pair [OF c(1) codec_pair [OF c(2) c34]]
  note l = enc_pair_def RPC_HEADER_SZ_24 limits
  have 1: "call_gives junks procs sob n (rsm_call1 m_arg junk a1) (u_arg tr) (b, r, sob')"
    if "omap_find procs n = Some (rsm_fn1 (u_arg t1) m_arg f1) \<and> f1 sob a1 = Some (b, r, sob')"
    by (rule execute_call [OF c(1) _ _ c(6), where meth = f1]) (use assms that in \<open>simp_all add: l\<close>)
  have 2: "call_gives junks procs sob n (rsm_call2 m_arg m_arg junk a1 a2) (u_arg tr) (b, r, sob')"
    if "omap_find procs n = Some (rsm_fn2 (u_arg t1) (u_arg t2) m_arg f2) \<and> f2 sob a1 a2 = Some (b, r, sob')"
    unfolding rsm_call_pair
    by (rule execute_call [OF codec_pair [OF c(1,2)] _ _ c(6), where meth = "\<lambda>s (a1, a2). f2 s a1 a2"])
      (use assms that in \<open>simp_all add: l rsm_fn_pair\<close>)
  have 3: "call_gives junks procs sob n (rsm_call3 m_arg m_arg m_arg junk a1 a2 a3) (u_arg tr) (b, r, sob')"
    if "omap_find procs n = Some (rsm_fn3 (u_arg t1) (u_arg t2) (u_arg t3) m_arg f3) \<and> f3 sob a1 a2 a3 = Some (b, r, sob')"
    unfolding rsm_call_pair
    by (rule execute_call [OF codec_pair [OF c(1) codec_pair [OF c(2,3)]] _ _ c(6), where meth = "\<lambda>s (a1, a2, a3). f3 s a1 a2 a3"])
      (use assms that in \<open>simp_all add: l rsm_fn_pair\<close>)
  have 4: "call_gives junks procs sob n (rsm_call4 m_arg m_arg m_arg m_arg junk a1 a2 a3 a4) (u_arg tr) (b, r, sob')"
    if "omap_find procs n = Some (rsm_fn4 (u_arg t1) (u_arg t2) (u_arg t3) (u_arg t4) m_arg f4) \<and>
      f4 sob a1 a2 a3 a4 = Some (b, r, sob')"
    unfolding rsm_call_pair
    by (rule execute_call [OF c4 _ _ c(6), where meth = "\<lambda>s (a1, a2, a3, a4). f4 s a1 a2 a3 a4"])
      (use assms that in \<open>simp_all add: l rsm_fn_pair\<close>)
  have 5: "execute (fst junks) procs sob n (rsm_call5 m_arg m_arg m_arg m_arg m_arg junk a1 a2 a3 a4 a5) = None"
    if "omap_find procs n = Some (rsm_fn5 (u_arg t1) (u_arg t2) (u_arg t3) (u_arg t4) a5' m_arg f5)"
    unfolding rsm_call_pair
    by (rule execute_unread [OF c4 _ c(5), where meth = "\<lambda>s (a1, a2, a3, a4). f5 s a1 a2 a3 a4 a5'"])
      (use assms that in \<open>simp_all add: l rsm_fn_pair\<close>)
  show ?thesis using 1 2 3 4 5 by blast
qed

theorem replicated_call_result_witness:
  "call_gives (\<lambda>_. 0, \<lambda>_. 0) [(5, rsm_fn3 (u_arg TUlonglong) (u_arg TString) (u_arg TUlonglong) m_arg
       (\<lambda>s lid owner xid. Some (2, AInt 7, lid # s)))] [] 5
       (rsm_call3 m_arg m_arg m_arg (\<lambda>_. 0) (AUlonglong 11) (AString ''c'') (AUlonglong 3)) (u_arg TInt)
     (2, AInt 7, [AUlonglong 11]) \<and>
   execute (\<lambda>_. 0) [(6, rsm_fn5 (u_arg TInt) (u_arg TInt) (u_arg TInt) (u_arg TInt) (AString ''z'') m_arg
       (\<lambda>s a1 a2 a3 a4 a5. Some (0, a1, a5 # s)))] [] 6
     (rsm_call5 m_arg m_arg m_arg m_arg m_arg (\<lambda>_. 0) (AInt 1) (AInt 2) (AInt 3) (AInt 4) (AString ''x'')) = None"
proof -
  let ?P = "[(5, rsm_fn3 (u_arg TUlonglong) (u_arg TString) (u_arg TUlonglong) m_arg (\<lambda>s lid owner xid. Some (2, AInt 7, lid # s)))]"
  let ?Q = "[(6, rsm_fn5 (u_arg TInt) (u_arg TInt) (u_arg TInt) (u_arg TInt) (AString ''z'') m_arg
       (\<lambda>s a1 a2 a3 a4 a5. Some (0, a1, a5 # s)))]"
  note l = enc_ulonglong_def enc_string_def enc_bool_def
  have "call_gives (\<lambda>_. 0, \<lambda>_. 0) ?P [] 5 (rsm_call3 m_arg m_arg m_arg (\<lambda>_. 0) (AUlonglong 11) (AString ''c'') (AUlonglong 3))
      (u_arg TInt) (2, AInt 7, [AUlonglong 11])"
    by (rule replicated_call_result [where ?a4.0 = "ABool True" and ?t4.0 = TBool and ?a5.0 = "ABool True" and ?t5.0 = TBool
          and ?f3.0 = "\<lambda>s lid owner xid. Some (2, AInt 7, lid # s)" and ?t1.0 = TUlonglong and ?t2.0 = TString and ?t3.0 = TUlonglong,
          THEN conjunct2, THEN conjunct2, THEN conjunct1, THEN mp])
      (simp_all add: l omap_find_def del: u_arg.simps)
  moreover have "execute (fst (\<lambda>_. 0, (\<lambda>_. 0) :: nat \<Rightarrow> byte)) ?Q [] 6
      (rsm_call5 m_arg m_arg m_arg m_arg m_arg (\<lambda>_. 0) (AInt 1) (AInt 2) (AInt 3) (AInt 4) (AString ''x'')) = None"
    by (rule replicated_call_result [where ?t1.0 = TInt and ?t2.0 = TInt and ?t3.0 = TInt and ?t4.0 = TInt and ?t5.0 = TString
          and r = "AInt 0" and tr = TInt and ?f5.0 = "\<lambda>s a1 a2 a3 a4 a5. Some (0, a1, a5 # s)" and a5' = "AString ''z''",
          THEN conjunct2, THEN conjunct2, THEN conjunct2, THEN conjunct2, THEN mp])
      (simp_all add: l omap_find_def del: u_arg.simps)
  ultimately show ?thesis by (simp del: u_arg.simps)
qed

end
