(* ===== verification/Rsm.thy ===== *)
theory Rsm
  imports Config_View Rsm_Call
begin

text \<open>
  The replicated state machine of \<open>rsm.cc\<close>.  The record \<open>rsm\<close> is the object's state together with the
  application object whose methods are registered (\<open>rs_sob\<close>).  Handlers that release \<open>rsm_mutex\<close> in the
  middle are split there: \<open>client_invoke\<close> and \<open>invoke\<close> into the check and the execution, the recovery
  thread into the pieces between its waits and RPCs, whose results are arguments.  \<open>None\<close> is a failed
  \<open>VERIFY\<close> or the \<open>exit\<close> of a breakpoint; a \<open>bool\<close> result of handlers that can wake the recovery thread
  tells whether \<open>recovery_cond\<close> is signalled.
\<close>

section \<open>State\<close>

record 's rsm =
  rs_procs :: "(u32, 's handler) omap"
  rs_cfg :: config
  rs_sob :: 's
  rs_myvs :: viewstamp
  rs_last_myvs :: viewstamp
  rs_primary :: string
  rs_insync :: bool
  rs_inviewchange :: bool
  rs_vid_commit :: u32
  rs_vid_insync :: u32
  rs_backups :: "string list"
  rs_partitioned :: bool
  rs_dopartition :: bool
  rs_break1 :: bool
  rs_break2 :: bool

abbreviation rs_me :: "'s rsm \<Rightarrow> string" where
  "rs_me r \<equiv> cf_me (rs_cfg r)"

definition rsm_reg1 :: "'s rsm \<Rightarrow> u32 \<Rightarrow> 's handler \<Rightarrow> 's rsm" where
  "rsm_reg1 r proc h = r\<lparr> rs_procs := omap_set proc h (rs_procs r) \<rparr>"

definition rsm_view :: "'s rsm \<Rightarrow> u32 \<Rightarrow> string list \<times> 's rsm" where
  "rsm_view r vid = (let (ms, c) = get_view_wo (rs_cfg r) vid in (ms, r\<lparr> rs_cfg := c \<rparr>))"

definition rsm_ismember :: "'s rsm \<Rightarrow> string \<Rightarrow> u32 \<Rightarrow> bool \<times> 's rsm" where
  "rsm_ismember r m vid = (let (b, c) = cfg_ismember (rs_cfg r) m vid in (b, r\<lparr> rs_cfg := c \<rparr>))"

section \<open>View changes\<close>

definition set_primary :: "'s rsm \<Rightarrow> u32 \<Rightarrow> 's rsm option" where
  "set_primary r vid =
     (let (c, r) = rsm_view r vid; (p, r) = rsm_view r (vid - 1)
      in if \<not> length c > 0 then None
         else if isamember (rs_primary r) c then Some r
         else if \<not> length p > 0 then None
         else case find (\<lambda>x. isamember x c) p of
                None \<Rightarrow> None
              | Some x \<Rightarrow> Some (r\<lparr> rs_primary := x \<rparr>))"

definition commit_change_wo :: "'s rsm \<Rightarrow> u32 \<Rightarrow> (bool \<times> 's rsm) option" where
  "commit_change_wo r vid =
     (if vid \<le> rs_vid_commit r then Some (False, r)
      else do {
        r \<leftarrow> set_primary (r\<lparr> rs_vid_commit := vid, rs_inviewchange := True \<rparr>) vid;
        let (b, r) = rsm_ismember r (rs_me r) (rs_vid_commit r);
        if b \<and> rs_break2 r then None else Some (True, r) })"

definition commit_change :: "'s rsm \<Rightarrow> u32 \<Rightarrow> (bool \<times> 's rsm) option" where
  "commit_change r vid = do {
     (s, r) \<leftarrow> commit_change_wo r vid;
     if rs_break2 r then None else Some (s, r) }"

text \<open>The constructor; \<open>vid_insync\<close> is not initialised (\<open>junk\<close>).\<close>

definition rsm_new :: "string \<Rightarrow> string \<Rightarrow> string \<Rightarrow> 's \<Rightarrow> u32 \<Rightarrow> 's rsm option" where
  "rsm_new first me disk sob junk = do {
     c \<leftarrow> config_new first me disk;
     let r = \<lparr> rs_procs = [], rs_cfg = c, rs_sob = sob, rs_myvs = \<lparr> vs_vid = 0, vs_seqno = 1 \<rparr>,
               rs_last_myvs = \<lparr> vs_vid = 0, vs_seqno = 0 \<rparr>, rs_primary = first, rs_insync = False,
               rs_inviewchange = True, rs_vid_commit = 0, rs_vid_insync = junk, rs_backups = [],
               rs_partitioned = False, rs_dopartition = False, rs_break1 = False, rs_break2 = False \<rparr>;
     if first = me then map_option snd (commit_change r 1) else Some r }"

section \<open>Requests of clients\<close>

definition amiprimary :: "'s rsm \<Rightarrow> bool" where
  "amiprimary r = (rs_primary r = rs_me r \<and> \<not> rs_inviewchange r)"

definition client_members :: "'s rsm \<Rightarrow> u32 \<times> string list \<times> 's rsm" where
  "client_members r =
     (let (m, r) = rsm_view r (rs_vid_commit r) in (rcp_OK, m @ [rs_primary r], r))"

definition client_invoke_begin :: "'s rsm \<Rightarrow> u32 + (string list \<times> 's rsm)" where
  "client_invoke_begin r =
     (if rs_inviewchange r then Inl rcp_BUSY
      else if rs_primary r \<noteq> rs_me r then Inl rcp_NOTPRIMARY
      else Inr (rsm_view r (rs_vid_commit r)))"

text \<open>The nodes that \<open>net_repair_wo\<close> makes reachable or not, and \<open>partition1\<close>.\<close>

definition net_repair_wo :: "'s rsm \<Rightarrow> string list \<times> 's rsm" where
  "net_repair_wo r =
     (let (m, r) = rsm_view r (rs_vid_commit r) in (filter (\<lambda>x. x \<noteq> rs_me r) m, r))"

definition partition1 :: "'s rsm \<Rightarrow> string list \<times> 's rsm" where
  "partition1 r =
     (if rs_dopartition r then
        let (cut, r) = net_repair_wo r
        in (cut, r\<lparr> rs_dopartition := False, rs_partitioned := True \<rparr>)
      else ([], r))"

definition breakpoint1 :: "'s rsm \<Rightarrow> 's rsm option" where
  "breakpoint1 r = (if rs_break1 r then None else Some r)"

text \<open>The loop over the members: \<open>out m\<close> is the result of the \<open>invoke\<close> RPC to \<open>m\<close>, \<open>None\<close> when \<open>m\<close> cannot
  be bound; a failed call ends it with \<open>BUSY\<close>.\<close>

fun invoke_all :: "(string \<Rightarrow> u32 option) \<Rightarrow> string list \<Rightarrow> 's rsm \<Rightarrow> (u32 \<times> 's rsm) option" where
  "invoke_all out [] r = Some (rcp_OK, r)"
| "invoke_all out (m # ms) r =
     (if m = rs_me r then invoke_all out ms r
      else case out m of
        Some x \<Rightarrow>
          if x \<noteq> rp_OK then Some (rcp_BUSY, r)
          else Option.bind (breakpoint1 r) (\<lambda>r. invoke_all out ms (snd (partition1 r)))
      | None \<Rightarrow> Option.bind (breakpoint1 r) (\<lambda>r. invoke_all out ms (snd (partition1 r))))"

definition bump :: "'s rsm \<Rightarrow> 's rsm" where
  "bump r = r\<lparr> rs_last_myvs := rs_myvs r, rs_myvs := (rs_myvs r)\<lparr> vs_seqno := vs_seqno (rs_myvs r) + 1 \<rparr> \<rparr>"

definition rsm_execute :: "(nat \<Rightarrow> byte) \<Rightarrow> 's rsm \<Rightarrow> u32 \<Rightarrow> string \<Rightarrow> (string \<times> 's rsm) option" where
  "rsm_execute junk r procno req =
     map_option (\<lambda>(rep, sob). (rep, r\<lparr> rs_sob := sob \<rparr>)) (execute junk (rs_procs r) (rs_sob r) procno req)"

definition client_invoke_end :: "(nat \<Rightarrow> byte) \<Rightarrow> 's rsm \<Rightarrow> u32 \<Rightarrow> string \<Rightarrow> (string \<times> 's rsm) option" where
  "client_invoke_end junk r procno req =
     map_option (\<lambda>(rep, r). (rep, bump r)) (rsm_execute junk r procno req)"

text \<open>One whole request at the primary, when nothing interleaves.\<close>

definition client_invoke ::
  "(nat \<Rightarrow> byte) \<Rightarrow> 's rsm \<Rightarrow> (string \<Rightarrow> u32 option) \<Rightarrow> u32 \<Rightarrow> string \<Rightarrow> (u32 \<times> string \<times> 's rsm) option" where
  "client_invoke junk r out procno req =
     (case client_invoke_begin r of
        Inl ret \<Rightarrow> Some (ret, [], r)
      | Inr (mems, r) \<Rightarrow> do {
          (ret, r) \<leftarrow> invoke_all out mems r;
          if ret \<noteq> rcp_OK then Some (ret, [], r)
          else do { (rep, r) \<leftarrow> client_invoke_end junk r procno req; Some (ret, rep, r) } })"

text \<open>A backup: \<open>invoke\<close> checks under the mutex, then executes with the mutex released.\<close>

definition invoke_begin :: "'s rsm \<Rightarrow> viewstamp \<Rightarrow> u32 \<times> 's rsm" where
  "invoke_begin r vs =
     (if rs_inviewchange r then (rcp_ERR, r)
      else let (b, r) = rsm_ismember r (rs_me r) (rs_vid_commit r)
           in if \<not> b then (rcp_ERR, r)
              else if vs_vid vs \<noteq> vs_vid (rs_myvs r) \<or> vs_seqno vs \<noteq> vs_seqno (rs_myvs r) then (rcp_ERR, r)
              else (rp_OK, r))"

definition invoke_end :: "(nat \<Rightarrow> byte) \<Rightarrow> 's rsm \<Rightarrow> u32 \<Rightarrow> string \<Rightarrow> 's rsm option" where
  "invoke_end junk r proc req = do {
     (rep, r) \<leftarrow> rsm_execute junk r proc req;
     breakpoint1 (bump r) }"

definition invoke :: "(nat \<Rightarrow> byte) \<Rightarrow> 's rsm \<Rightarrow> u32 \<Rightarrow> viewstamp \<Rightarrow> string \<Rightarrow> (u32 \<times> 's rsm) option" where
  "invoke junk r proc vs req =
     (let (ret, r) = invoke_begin r vs
      in if ret \<noteq> rp_OK then Some (ret, r) else map_option (\<lambda>r. (rp_OK, r)) (invoke_end junk r proc req))"

section \<open>Synchronisation\<close>

text \<open>\<open>stf\<close> is the pair of the virtual methods \<open>marshal_state\<close> and \<open>unmarshal_state\<close>, if one is set.\<close>

type_synonym 's stf = "(('s \<Rightarrow> string) \<times> (string \<Rightarrow> 's \<Rightarrow> 's option)) option"

definition transferreq :: "'s stf \<Rightarrow> 's rsm \<Rightarrow> viewstamp \<Rightarrow> u32 \<Rightarrow> u32 \<times> transferres" where
  "transferreq stf r lastvs vid =
     (if \<not> rs_insync r \<or> vid \<noteq> rs_vid_insync r then (rp_BUSY, \<lparr> tr_state = [], tr_last = \<lparr> vs_vid = 0, vs_seqno = 0 \<rparr> \<rparr>)
      else
        (rp_OK, \<lparr> tr_state = (case stf of Some (ms, _) \<Rightarrow> if vs_ne lastvs (rs_last_myvs r) then ms (rs_sob r) else []
                              | None \<Rightarrow> []),
                  tr_last = rs_last_myvs r \<rparr>))"

definition transferdonereq :: "'s rsm \<Rightarrow> string \<Rightarrow> u32 \<Rightarrow> u32 \<times> bool \<times> 's rsm" where
  "transferdonereq r m vid =
     (if \<not> rs_insync r \<or> vid \<noteq> rs_vid_insync r then (rp_BUSY, False, r)
      else let r = r\<lparr> rs_backups := remove1 m (rs_backups r) \<rparr> in (rp_OK, rs_backups r = [], r))"

text \<open>The reply of \<open>transferreq\<close>, \<open>None\<close> when the primary could not be reached or was busy.\<close>

definition statetransfer :: "'s stf \<Rightarrow> 's rsm \<Rightarrow> transferres option \<Rightarrow> (bool \<times> 's rsm) option" where
  "statetransfer stf r reply =
     (case reply of
        None \<Rightarrow> Some (False, r)
      | Some t \<Rightarrow> do {
          r \<leftarrow> (case stf of
                 Some (_, us) \<Rightarrow>
                   if vs_ne (rs_last_myvs r) (tr_last t)
                   then map_option (\<lambda>sob. r\<lparr> rs_sob := sob \<rparr>) (us (tr_state t) (rs_sob r)) else Some r
               | None \<Rightarrow> Some r);
          Some (True, r\<lparr> rs_last_myvs := tr_last t \<rparr>) })"

definition statetransferdone :: "u32 \<Rightarrow> bool" where
  "statetransferdone ret = (ret = rp_OK)"

text \<open>One round of the loop of \<open>sync_with_primary\<close>: \<open>Some b\<close> when it ends with \<open>b\<close>.\<close>

definition sync_with_primary_round ::
  "'s stf \<Rightarrow> 's rsm \<Rightarrow> transferres option \<Rightarrow> u32 \<Rightarrow> (bool option \<times> 's rsm) option" where
  "sync_with_primary_round stf r reply done_ret = do {
     (b, r) \<leftarrow> statetransfer stf r reply;
     Some (if b \<and> statetransferdone done_ret then (Some True, r)
           else if rs_vid_insync r \<noteq> rs_vid_commit r then (Some False, r)
           else (None, r)) }"

text \<open>\<open>sync_with_backups\<close> up to its wait (\<open>False\<close>: it returns at once), and after it.\<close>

definition sync_with_backups_begin :: "'s rsm \<Rightarrow> bool \<times> 's rsm" where
  "sync_with_backups_begin r =
     (if rs_vid_insync r \<noteq> rs_vid_commit r then (False, r)
      else let (mems, r) = rsm_view r (rs_vid_commit r)
           in (True, r\<lparr> rs_backups := filter (\<lambda>x. x \<noteq> rs_me r) mems, rs_insync := True \<rparr>))"

definition sync_with_backups_end :: "'s rsm \<Rightarrow> bool \<times> 's rsm" where
  "sync_with_backups_end r = (rs_vid_insync r = rs_vid_commit r, r\<lparr> rs_insync := False \<rparr>)"

text \<open>The pieces of the loop of \<open>recovery\<close>: joining, the start of a synchronisation, and its end, which
  tells whether the thread goes to sleep.\<close>

definition join_end :: "'s rsm \<Rightarrow> joinres option \<Rightarrow> (bool \<times> 's rsm) option" where
  "join_end r reply =
     (case reply of
        None \<Rightarrow> Some (False, r)
      | Some j \<Rightarrow> map_option (\<lambda>c. (True, r\<lparr> rs_cfg := c \<rparr>)) (config_restore (rs_cfg r) (jr_log j)))"

definition recovery_join :: "'s rsm \<Rightarrow> joinres option \<Rightarrow> 's rsm option" where
  "recovery_join r reply = do {
     (b, r) \<leftarrow> join_end r reply;
     if b then map_option snd (commit_change_wo r (cf_myvid (rs_cfg r))) else Some r }"

definition recovery_sync :: "'s rsm \<Rightarrow> bool \<times> 's rsm" where
  "recovery_sync r = (rs_primary r = rs_me r, r\<lparr> rs_vid_insync := rs_vid_commit r \<rparr>)"

definition recovery_end :: "'s rsm \<Rightarrow> bool \<Rightarrow> bool \<times> 's rsm" where
  "recovery_end r ok =
     (if rs_vid_insync r \<noteq> rs_vid_commit r then (False, r)
      else (True, if ok then r\<lparr> rs_myvs := \<lparr> vs_vid = rs_vid_commit r, vs_seqno = 1 \<rparr>, rs_inviewchange := False \<rparr>
                  else r))"

text \<open>\<open>joinreq\<close> before and after it asks the configuration module to add the node.\<close>

definition joinreq_begin :: "'s rsm \<Rightarrow> string \<Rightarrow> (u32 \<times> joinres \<times> 's rsm) + (u32 \<times> 's rsm)" where
  "joinreq_begin r m =
     (let (b, r) = rsm_ismember r m (rs_vid_commit r)
      in if b then Inl (rp_OK, \<lparr> jr_log = acceptor_dump (cf_acc (rs_cfg r)) \<rparr>, r)
         else if rs_me r \<noteq> rs_primary r then Inl (rp_BUSY, \<lparr> jr_log = [] \<rparr>, r)
         else Inr (rs_vid_commit r, r))"

definition joinreq_end :: "'s rsm \<Rightarrow> string \<Rightarrow> u32 \<times> joinres \<times> 's rsm" where
  "joinreq_end r m =
     (let (b, r) = rsm_ismember r m (cf_myvid (rs_cfg r))
      in if b then (rp_OK, \<lparr> jr_log = acceptor_dump (cf_acc (rs_cfg r)) \<rparr>, r)
         else (rp_BUSY, \<lparr> jr_log = [] \<rparr>, r))"

section \<open>Test requests\<close>

definition test_net_repairreq :: "'s rsm \<Rightarrow> bool \<Rightarrow> u32 \<times> string list \<times> 's rsm" where
  "test_net_repairreq r heal =
     (if heal then let (ms, r) = net_repair_wo r in (rtp_OK, ms, r\<lparr> rs_partitioned := False \<rparr>)
      else (rtp_OK, [], r\<lparr> rs_dopartition := True, rs_partitioned := False \<rparr>))"

definition breakpointreq :: "'s rsm \<Rightarrow> int \<Rightarrow> u32 \<times> 's rsm" where
  "breakpointreq r b =
     (if b = 1 then (rtp_OK, r\<lparr> rs_break1 := True \<rparr>)
      else if b = 2 then (rtp_OK, r\<lparr> rs_break2 := True \<rparr>)
      else if b = 3 \<or> b = 4
      then (rtp_OK, r\<lparr> rs_cfg := (rs_cfg r)\<lparr> cf_pro := breakpoint (cf_pro (rs_cfg r)) b \<rparr> \<rparr>)
      else (rtp_ERR, r))"


section \<open>Choosing the primary\<close>

lemma rsm_view_frame [simp]:
  "rs_procs (snd (rsm_view r v)) = rs_procs r" "rs_sob (snd (rsm_view r v)) = rs_sob r"
  "rs_myvs (snd (rsm_view r v)) = rs_myvs r" "rs_last_myvs (snd (rsm_view r v)) = rs_last_myvs r"
  "rs_primary (snd (rsm_view r v)) = rs_primary r" "rs_inviewchange (snd (rsm_view r v)) = rs_inviewchange r"
  "rs_vid_commit (snd (rsm_view r v)) = rs_vid_commit r" "rs_me (snd (rsm_view r v)) = rs_me r"
  "rs_break1 (snd (rsm_view r v)) = rs_break1 r" "rs_break2 (snd (rsm_view r v)) = rs_break2 r"
  "rs_insync (snd (rsm_view r v)) = rs_insync r" "rs_vid_insync (snd (rsm_view r v)) = rs_vid_insync r"
  "rs_dopartition (snd (rsm_view r v)) = rs_dopartition r"
  "fst (rsm_view (snd (rsm_view r v)) w) = fst (rsm_view r w)"
  by (simp_all add: rsm_view_def get_view_wo_def)

lemma rsm_view_flags [simp]:
  "fst (rsm_view (r\<lparr> rs_vid_commit := x, rs_inviewchange := y \<rparr>) v) = fst (rsm_view r v)"
  "fst (rsm_view (r\<lparr> rs_primary := z \<rparr>) v) = fst (rsm_view r v)"
  by (simp_all add: rsm_view_def get_view_wo_def)

lemma rsm_ismember_eq: "rsm_ismember r m vid = (m \<in> set (fst (rsm_view r vid)), snd (rsm_view r vid))"
  by (simp add: rsm_ismember_def cfg_ismember_def rsm_view_def get_view_wo_def)

text \<open>
  The new primary.  When a view is installed that is newer than the current one, has members and
  either contains the current primary or shares a member with the view before it, the change succeeds;
  the primary is then a member of the new view: the old primary if it is still one, otherwise the
  first member of the previous view that is.  Until the next synchronisation the node is in a view
  change.
\<close>

theorem new_primary:
  assumes "rs_vid_commit r < vid" "c = fst (rsm_view r vid)" "p = fst (rsm_view r (vid - 1))" "c \<noteq> []"
    and "rs_primary r \<in> set c \<or> set p \<inter> set c \<noteq> {}" "\<not> rs_break2 r"
  shows "\<exists>r'. commit_change_wo r vid = Some (True, r') \<and> rs_vid_commit r' = vid \<and> rs_inviewchange r' \<and>
    rs_primary r' \<in> set c \<and>
    (if rs_primary r \<in> set c then rs_primary r' = rs_primary r
     else Some (rs_primary r') = find (\<lambda>x. x \<in> set c) p)"
proof -
  let ?r = "r\<lparr> rs_vid_commit := vid, rs_inviewchange := True \<rparr>"
  let ?r2 = "snd (rsm_view (snd (rsm_view ?r vid)) (vid - 1))"
  obtain x where x: "set_primary ?r vid = Some (?r2\<lparr> rs_primary := x \<rparr>)" "x \<in> set c"
      "if rs_primary r \<in> set c then x = rs_primary r else Some x = find (\<lambda>x. x \<in> set c) p"
  proof (cases "rs_primary r \<in> set c")
    case True
    have "?r2\<lparr> rs_primary := rs_primary r \<rparr> = ?r2" by (simp add: rsm_view_def get_view_wo_def)
    with True assms(2,4) show ?thesis
      by (intro that [of "rs_primary r"]) (simp_all add: set_primary_def split_beta)
  next
    case False
    then have "\<exists>x \<in> set p. x \<in> set c" using assms(5) by blast
    then obtain x where f: "find (\<lambda>x. x \<in> set c) p = Some x"
      by (cases "find (\<lambda>x. x \<in> set c) p") (auto simp: find_None_iff)
    then have "x \<in> set c" "p \<noteq> []" by (auto simp: find_Some_iff)
    with f False assms(2-4) show ?thesis
      by (intro that [of x]) (simp_all add: set_primary_def split_beta)
  qed
  then show ?thesis
    using assms(1,6) by (simp add: commit_change_wo_def rsm_ismember_eq not_le)
qed

definition rsm_demo :: "nat rsm" where
  "rsm_demo = \<lparr> rs_procs = [], rs_cfg = cfg_pair\<lparr> cf_acc := (cf_acc cfg_pair)\<lparr> a_values :=
       [(1, cfg_value [''9'', ''1'', ''2'']), (2, cfg_value [''1'', ''2''])] \<rparr> \<rparr>,
     rs_sob = 0, rs_myvs = \<lparr> vs_vid = 1, vs_seqno = 1 \<rparr>,
     rs_last_myvs = \<lparr> vs_vid = 0, vs_seqno = 0 \<rparr>, rs_primary = ''9'', rs_insync = False,
     rs_inviewchange = False, rs_vid_commit = 1, rs_vid_insync = 1, rs_backups = [],
     rs_partitioned = False, rs_dopartition = False, rs_break1 = False, rs_break2 = False \<rparr>"

theorem new_primary_witness:
  "\<exists>r'. commit_change_wo rsm_demo 2 = Some (True, r') \<and> rs_primary r' = ''1'' \<and> rs_inviewchange r'"
proof -
  have v: "fst (rsm_view rsm_demo 2) = [''1'', ''2'']" "fst (rsm_view rsm_demo (2 - 1)) = [''9'', ''1'', ''2'']"
    by (simp_all add: rsm_view_def get_view_wo_def rsm_demo_def cfg_pair_def cfg_demo_def members_value is_word_def
        is_space_def)
  have "rs_vid_commit rsm_demo < 2" "\<not> rs_break2 rsm_demo" "rs_primary rsm_demo = ''9''"
    by (simp_all add: rsm_demo_def word_less_nat_alt)
  with new_primary [of rsm_demo 2, OF _ v(1) [symmetric] v(2) [symmetric]] show ?thesis by auto
qed

section \<open>Waiting for backups\<close>

text \<open>
  A lone primary waits although nothing is missing.  In a view whose only member is the primary,
  \<open>sync_with_backups\<close> has no backup to wait for, yet it starts to wait; while it does, the node remains
  in the view change and answers every client request with \<open>BUSY\<close>, unchanged.
\<close>

theorem lone_primary_busy:
  assumes "fst (rsm_view r (rs_vid_commit r)) = [rs_me r]" "rs_vid_insync r = rs_vid_commit r" "rs_inviewchange r"
  shows "\<exists>r'. sync_with_backups_begin r = (True, r') \<and> rs_backups r' = [] \<and>
    client_invoke junk r' out procno req = Some (rcp_BUSY, [], r') \<and>
    rs_inviewchange (snd (snd (client_members r')))"
  using assms by (simp add: sync_with_backups_begin_def split_beta client_invoke_def client_invoke_begin_def
      client_members_def)

theorem lone_primary_busy_witness:
  "\<exists>(r :: nat rsm) r'. fst (rsm_view r (rs_vid_commit r)) = [rs_me r] \<and> sync_with_backups_begin r = (True, r') \<and>
     client_invoke (\<lambda>_. 0) r' (\<lambda>_. None) 1 [] = Some (rcp_BUSY, [], r')"
proof -
  let ?r = "rsm_demo\<lparr> rs_cfg := cfg_pair\<lparr> cf_acc := (cf_acc cfg_pair)\<lparr> a_values := [(1, cfg_value [''1''])] \<rparr> \<rparr>,
     rs_inviewchange := True \<rparr>"
  have v: "fst (rsm_view ?r (rs_vid_commit ?r)) = [rs_me ?r]" "rs_vid_insync ?r = rs_vid_commit ?r" "rs_inviewchange ?r"
    by (simp_all add: rsm_view_def get_view_wo_def rsm_demo_def cfg_pair_def cfg_demo_def members_value is_word_def
        is_space_def)
  show ?thesis
    using lone_primary_busy [OF v, of "\<lambda>_. 0" "\<lambda>_. None" 1 "[]"] v(1) by blast
qed

section \<open>Concurrent invocations at a backup\<close>

lemma invoke_begin_OK:
  assumes "invoke_begin r vs = (rp_OK, r1)"
  shows "rs_myvs r = vs \<and> r1 = snd (rsm_view r (rs_vid_commit r)) \<and> \<not> rs_inviewchange r \<and>
    rs_me r \<in> set (fst (rsm_view r (rs_vid_commit r)))"
proof -
  have f: "\<not> rs_inviewchange r" "rs_me r \<in> set (fst (rsm_view r (rs_vid_commit r)))"
      "r1 = snd (rsm_view r (rs_vid_commit r))"
    and e: "vs_vid vs = vs_vid (rs_myvs r)" "vs_seqno vs = vs_seqno (rs_myvs r)"
    using assms by (simp_all add: invoke_begin_def rsm_ismember_eq rsm_codes split: if_splits)
  have "rs_myvs r = vs" by (rule viewstamp.equality) (simp_all add: e)
  with f show ?thesis by simp
qed

lemma invoke_end_Some:
  "invoke_end junk r proc req = Some r' \<longleftrightarrow>
     (\<exists>rep sob. execute junk (rs_procs r) (rs_sob r) proc req = Some (rep, sob) \<and> \<not> rs_break1 r \<and>
        r' = bump (r\<lparr> rs_sob := sob \<rparr>))"
  by (auto simp: invoke_end_def rsm_execute_def breakpoint1_def bump_def split: Option.bind_splits)

lemma bump_frame [simp]:
  "rs_procs (bump r) = rs_procs r" "rs_sob (bump r) = rs_sob r" "rs_cfg (bump r) = rs_cfg r"
  "rs_inviewchange (bump r) = rs_inviewchange r" "rs_vid_commit (bump r) = rs_vid_commit r"
  "rs_last_myvs (bump r) = rs_myvs r" "vs_vid (rs_myvs (bump r)) = vs_vid (rs_myvs r)"
  "vs_seqno (rs_myvs (bump r)) = vs_seqno (rs_myvs r) + 1" "rs_primary (bump r) = rs_primary r"
  by (simp_all add: bump_def)

text \<open>
  Two requests for one viewstamp.  \<open>invoke\<close> releases the mutex between comparing the viewstamp with
  \<open>myvs\<close> and advancing \<open>myvs\<close>: a second request with the same viewstamp that arrives while the first is
  being executed passes the comparison too.  Both are executed, and \<open>myvs\<close> advances by two.
\<close>

theorem invoke_not_atomic:
  assumes "invoke_begin r vs = (rp_OK, r1)" "invoke_begin r1 vs = (rp_OK, r2)"
    and "invoke_end junk r2 pa reqa = Some r3" "invoke_end junk r3 pb reqb = Some r4"
  shows "vs_seqno (rs_myvs r4) = vs_seqno vs + 2 \<and>
    (\<exists>ra rb. execute junk (rs_procs r) (rs_sob r) pa reqa = Some (ra, rs_sob r3) \<and>
       execute junk (rs_procs r) (rs_sob r3) pb reqb = Some (rb, rs_sob r4))"
proof -
  have b: "rs_myvs r2 = vs" "rs_sob r2 = rs_sob r" "rs_procs r2 = rs_procs r"
    using invoke_begin_OK [OF assms(1)] invoke_begin_OK [OF assms(2)] by simp_all
  show ?thesis using assms(3,4) b unfolding invoke_end_Some by (auto simp: bump_def)
qed

definition count_handler :: "nat handler" where
  "count_handler n args ret = Some ((0, ret), Suc n)"

theorem invoke_not_atomic_witness:
  "\<exists>(r :: nat rsm) vs r1 r2 r3 r4. invoke_begin r vs = (rp_OK, r1) \<and> invoke_begin r1 vs = (rp_OK, r2) \<and>
     invoke_end (\<lambda>_. 0) r2 7 ''a'' = Some r3 \<and> invoke_end (\<lambda>_. 0) r3 7 ''b'' = Some r4 \<and>
     vs_seqno (rs_myvs r4) = vs_seqno vs + 2 \<and> rs_sob r = 0 \<and> rs_sob r4 = 2"
proof -
  let ?r = "rsm_demo\<lparr> rs_procs := [(7, count_handler)] \<rparr>"
  let ?r1 = "snd (rsm_view ?r 1)" and ?vs = "\<lparr> vs_vid = 1, vs_seqno = 1 \<rparr>"
  have m: "''1'' \<in> set (fst (rsm_view ?r 1))" "rs_me ?r = ''1''"
    by (simp_all add: rsm_view_def get_view_wo_def rsm_demo_def cfg_pair_def cfg_demo_def members_value is_word_def
        is_space_def)
  have d: "rs_vid_commit ?r = 1" "\<not> rs_inviewchange ?r" "rs_myvs ?r = ?vs" "\<not> rs_break1 ?r"
    "rs_procs ?r = [(7, count_handler)]" "rs_sob ?r = 0" by (simp_all add: rsm_demo_def)
  have b1: "invoke_begin ?r ?vs = (rp_OK, ?r1)"
    using m d by (simp add: invoke_begin_def rsm_ismember_eq)
  have b2: "invoke_begin ?r1 ?vs = (rp_OK, snd (rsm_view ?r1 1))"
    using m d by (simp add: invoke_begin_def rsm_ismember_eq)
  have ex: "\<exists>rep. execute (\<lambda>_. 0) [(7, count_handler)] n 7 q = Some (rep, Suc n)" for n q
    by (simp add: execute_def omap_find_def count_handler_def)
  obtain r3 where r3: "invoke_end (\<lambda>_. 0) (snd (rsm_view ?r1 1)) 7 ''a'' = Some r3" "rs_sob r3 = 1"
      "rs_procs r3 = [(7, count_handler)]" "\<not> rs_break1 r3"
    using ex [of 0 "''a''"] d by (auto simp: invoke_end_Some bump_def)
  obtain r4 where r4: "invoke_end (\<lambda>_. 0) r3 7 ''b'' = Some r4" "rs_sob r4 = 2"
    using ex [of 1 "''b''"] r3 by (auto simp: invoke_end_Some bump_def)
  show ?thesis using invoke_not_atomic [OF b1 b2 r3(1) r4(1)] b1 b2 r3 r4 d(6) by blast
qed

end
