(* ===== verification/Rsm_Replication.thy ===== *)
theory Rsm_Replication
  imports Rsm "HOL-Library.Sublist"
begin

text \<open>
  A view of the replicated state machine at work: a primary \<open>p\<close> that handles client requests one at a
  time (\<open>invoke_mutex\<close>), its backups in the order of the view, and \<open>invoke\<close> requests that are delayed,
  repeated or lost.  \<open>invoke\<close> releases \<open>rsm_mutex\<close> between the comparison of the viewstamp and the execution, so
  a backup handles a request in two steps, \<open>BeginInvoke\<close> and \<open>EndInvoke\<close>, and other steps may come between
  them.  (The execution and the update of the viewstamp after it are one step: the comparison does not
  look at the service state, nor the execution at the viewstamp, so the execution can be taken to happen
  right before the update.)  Two flags admit the branches that break the agreement of the replicas: \<open>skip\<close>
  the one of \<open>client_invoke\<close> that passes over a backup whose handle cannot be bound, \<open>ovl\<close> that a backup begins a
  request while it executes another one.

  The locale \<open>replicated_service\<close> is the contract between the state machine and the service that runs
  on it: executing a request changes an abstract view of the service state, and returns a reply with
  an abstract view, in a way that depends on the former view only.  The theorems are proved in it once and hold for every service that fulfils it.
\<close>

section \<open>The system\<close>

record 's cluster =
  cl_node :: "string \<Rightarrow> 's rsm"
  cl_cur :: "(u32 \<times> string \<times> string list) option"              \<comment> \<open>request and backups still to be asked\<close>
  cl_msgs :: "(string \<times> viewstamp \<times> u32 \<times> string) list"
  cl_busy :: "string \<Rightarrow> (viewstamp \<times> u32 \<times> string) list"       \<comment> \<open>requests between the two steps\<close>
  cl_oks :: "(string \<times> viewstamp \<times> u32 \<times> string) list"
  cl_log :: "string \<Rightarrow> (u32 \<times> string) list"                     \<comment> \<open>history: requests executed\<close>
  cl_answers :: "((u32 \<times> string) \<times> string) list"               \<comment> \<open>history: replies to clients\<close>

datatype cl_event =
    Request u32 string | SendInvoke | BeginInvoke string viewstamp u32 string | EndInvoke string viewstamp u32 string
  | GotOk | GotFail | SkipOne | Finish

abbreviation set_node :: "string \<Rightarrow> 's rsm \<Rightarrow> 's cluster \<Rightarrow> 's cluster" where
  "set_node n r s \<equiv> s\<lparr> cl_node := (cl_node s)(n := r) \<rparr>"

text \<open>After each backup the primary passes its breakpoint and partition hooks.\<close>

definition next_backup :: "string \<Rightarrow> 's cluster \<Rightarrow> 's cluster option" where
  "next_backup p s =
     (case cl_cur s of
        Some (pn, rq, b # todo) \<Rightarrow>
          map_option (\<lambda>r. (set_node p (snd (partition1 r)) s)\<lparr> cl_cur := Some (pn, rq, todo) \<rparr>)
            (breakpoint1 (cl_node s p))
      | _ \<Rightarrow> None)"

fun cl_exec :: "bool \<Rightarrow> bool \<Rightarrow> (nat \<Rightarrow> byte) \<Rightarrow> string \<Rightarrow> cl_event \<Rightarrow> 's cluster \<Rightarrow> 's cluster option" where
  "cl_exec skip ovl junk p (Request pn rq) s =
     (if cl_cur s = None then
        case client_invoke_begin (cl_node s p) of
          Inl ret \<Rightarrow> None
        | Inr (mems, r) \<Rightarrow> Some ((set_node p r s)\<lparr> cl_cur := Some (pn, rq, filter (\<lambda>x. x \<noteq> rs_me r) mems) \<rparr>)
      else None)"
| "cl_exec skip ovl junk p SendInvoke s =
     (case cl_cur s of
        Some (pn, rq, b # todo) \<Rightarrow> Some (s\<lparr> cl_msgs := (b, rs_myvs (cl_node s p), pn, rq) # cl_msgs s \<rparr>)
      | _ \<Rightarrow> None)"
| "cl_exec skip ovl junk p (BeginInvoke b vs pn rq) s =
     (if (b, vs, pn, rq) \<in> set (cl_msgs s) \<and> (ovl \<or> cl_busy s b = []) then
        let (ret, r) = invoke_begin (cl_node s b) vs
        in Some (if ret = rp_OK
                 then (set_node b r s)\<lparr> cl_busy := (cl_busy s)(b := (vs, pn, rq) # cl_busy s b) \<rparr>
                 else set_node b r s)
      else None)"
| "cl_exec skip ovl junk p (EndInvoke b vs pn rq) s =
     (if (vs, pn, rq) \<in> set (cl_busy s b) \<and> vs_seqno (rs_myvs (cl_node s b)) + 1 \<noteq> 0 then
        map_option (\<lambda>r. (set_node b r s)\<lparr> cl_busy := (cl_busy s)(b := remove1 (vs, pn, rq) (cl_busy s b)),
                         cl_oks := (b, vs, pn, rq) # cl_oks s,
                         cl_log := (cl_log s)(b := cl_log s b @ [(pn, rq)]) \<rparr>)
          (invoke_end junk (cl_node s b) pn rq)
      else None)"
| "cl_exec skip ovl junk p GotOk s =
     (case cl_cur s of
        Some (pn, rq, b # todo) \<Rightarrow>
          if (b, rs_myvs (cl_node s p), pn, rq) \<in> set (cl_oks s) then next_backup p s else None
      | _ \<Rightarrow> None)"
| "cl_exec skip ovl junk p GotFail s = (if cl_cur s = None then None else Some (s\<lparr> cl_cur := None \<rparr>))"
| "cl_exec skip ovl junk p SkipOne s = (if skip then next_backup p s else None)"
| "cl_exec skip ovl junk p Finish s =
     (case cl_cur s of
        Some (pn, rq, []) \<Rightarrow>
          if vs_seqno (rs_myvs (cl_node s p)) + 1 \<noteq> 0 then
            map_option (\<lambda>(rep, r). (set_node p r s)\<lparr> cl_cur := None,
                          cl_log := (cl_log s)(p := cl_log s p @ [(pn, rq)]),
                          cl_answers := ((pn, rq), rep) # cl_answers s \<rparr>)
              (client_invoke_end junk (cl_node s p) pn rq)
          else None
      | _ \<Rightarrow> None)"

text \<open>At the start of a view every member is synchronised: equal service states and viewstamps.\<close>

definition cl_start ::
  "(string \<Rightarrow> (u32, 's handler) omap \<Rightarrow> bool) \<Rightarrow> ('s \<Rightarrow> 'a) \<Rightarrow> string \<Rightarrow> string list \<Rightarrow> u32 \<Rightarrow> 'a \<Rightarrow> 's cluster \<Rightarrow> bool" where
  "cl_start procs_ok absf p mems v a0 s =
     (distinct mems \<and> p \<in> set mems \<and>
      (\<forall>n \<in> set mems. let r = cl_node s n in
         rs_me r = n \<and> rs_primary r = p \<and> \<not> rs_inviewchange r \<and> rs_vid_commit r = v \<and>
         fst (rsm_view r v) = mems \<and> rs_myvs r = \<lparr> vs_vid = v, vs_seqno = 1 \<rparr> \<and>
         procs_ok n (rs_procs r) \<and> absf (rs_sob r) = a0) \<and>
      cl_cur s = None \<and> cl_msgs s = [] \<and> cl_busy s = (\<lambda>_. []) \<and> cl_oks s = [] \<and> cl_log s = (\<lambda>_. []) \<and> cl_answers s = [])"

inductive cl_reach ::
  "(string \<Rightarrow> (u32, 's handler) omap \<Rightarrow> bool) \<Rightarrow> ('s \<Rightarrow> 'a) \<Rightarrow> bool \<Rightarrow> bool \<Rightarrow> (nat \<Rightarrow> byte) \<Rightarrow> string \<Rightarrow>
   string list \<Rightarrow> u32 \<Rightarrow> 'a \<Rightarrow> 's cluster \<Rightarrow> bool"
  for procs_ok absf skip ovl junk p mems v a0 where
  init: "cl_start procs_ok absf p mems v a0 s \<Longrightarrow> cl_reach procs_ok absf skip ovl junk p mems v a0 s"
| step: "cl_reach procs_ok absf skip ovl junk p mems v a0 s \<Longrightarrow> cl_exec skip ovl junk p ev s = Some s' \<Longrightarrow>
    cl_reach procs_ok absf skip ovl junk p mems v a0 s'"

section \<open>The contract of a replicated service\<close>

text \<open>The abstract state after a list of requests.\<close>

definition service_run :: "('a \<Rightarrow> u32 \<times> string \<Rightarrow> 'r \<times> 'a) \<Rightarrow> 'a \<Rightarrow> (u32 \<times> string) list \<Rightarrow> 'a" where
  "service_run nxt a reqs = foldl (\<lambda>a e. snd (nxt a e)) a reqs"

lemma service_run_simps [simp]:
  "service_run nxt a [] = a" "service_run nxt a (reqs @ [e]) = snd (nxt (service_run nxt a reqs) e)"
  by (simp_all add: service_run_def)

locale replicated_service =
  fixes absf :: "'s \<Rightarrow> 'a" and repf :: "string \<Rightarrow> 'r" and nxt :: "'a \<Rightarrow> u32 \<times> string \<Rightarrow> 'r \<times> 'a"
    and procs_ok :: "string \<Rightarrow> (u32, 's handler) omap \<Rightarrow> bool" and junk :: "nat \<Rightarrow> byte"
  assumes execute_abs: "procs_ok n ps \<Longrightarrow> execute junk ps sob pn rq = Some (rep, sob') \<Longrightarrow>
    nxt (absf sob) (pn, rq) = (repf rep, absf sob')"
begin

text \<open>
  The invariant of a view.  The backups are ordered as they are asked; a node's history is a prefix of
  that of every backup before it.
\<close>

definition node_ok :: "string \<Rightarrow> string list \<Rightarrow> u32 \<Rightarrow> 'a \<Rightarrow> 's cluster \<Rightarrow> string \<Rightarrow> bool" where
  "node_ok p mems v a0 s n =
     (let r = cl_node s n in
      rs_me r = n \<and> rs_primary r = p \<and> \<not> rs_inviewchange r \<and> rs_vid_commit r = v \<and>
      fst (rsm_view r v) = mems \<and> procs_ok n (rs_procs r) \<and> vs_vid (rs_myvs r) = v \<and>
      length (cl_log s n) + 1 = unat (vs_seqno (rs_myvs r)) \<and>
      absf (rs_sob r) = service_run nxt a0 (cl_log s n))"

definition executed :: "'s cluster \<Rightarrow> viewstamp \<Rightarrow> u32 \<times> string \<Rightarrow> string \<Rightarrow> bool" where
  "executed s vs e n =
     (0 < unat (vs_seqno vs) \<and> unat (vs_seqno vs) \<le> length (cl_log s n) \<and> cl_log s n ! (unat (vs_seqno vs) - 1) = e)"

text \<open>At most one request is being executed at a backup, and the backup has not moved on since it was accepted.\<close>

definition busy_ok :: "'s cluster \<Rightarrow> bool" where
  "busy_ok s =
     ((\<forall>b. length (cl_busy s b) \<le> 1) \<and>
      (\<forall>b vs pn rq. (vs, pn, rq) \<in> set (cl_busy s b) \<longrightarrow> (b, vs, pn, rq) \<in> set (cl_msgs s) \<and> rs_myvs (cl_node s b) = vs))"

definition cl_inv :: "string \<Rightarrow> string list \<Rightarrow> u32 \<Rightarrow> 'a \<Rightarrow> 's cluster \<Rightarrow> bool" where
  "cl_inv p mems v a0 s =
     (let bs = filter (\<lambda>x. x \<noteq> p) mems in
      distinct mems \<and> p \<in> set mems \<and> busy_ok s \<and> (\<forall>n \<in> set mems. node_ok p mems v a0 s n) \<and>
      sorted_wrt (\<lambda>x y. prefix (cl_log s y) (cl_log s x)) (bs @ [p]) \<and>
      (\<forall>b vs pn rq. (b, vs, pn, rq) \<in> set (cl_msgs s) \<longrightarrow>
         vs_vid vs = v \<and> 0 < unat (vs_seqno vs) \<and>
         (\<exists>xs ys. bs = xs @ b # ys \<and> (\<forall>x \<in> set xs. executed s vs (pn, rq) x))) \<and>
      (\<forall>b vs pn rq. (b, vs, pn, rq) \<in> set (cl_oks s) \<longrightarrow> executed s vs (pn, rq) b) \<and>
      (\<forall>pn rq todo. cl_cur s = Some (pn, rq, todo) \<longrightarrow>
         (\<exists>xs. bs = xs @ todo \<and> (\<forall>x \<in> set xs. executed s (rs_myvs (cl_node s p)) (pn, rq) x))) \<and>
      (\<forall>e rep. (e, rep) \<in> set (cl_answers s) \<longrightarrow>
         (\<exists>i < length (cl_log s p). cl_log s p ! i = e \<and> repf rep = fst (nxt (service_run nxt a0 (take i (cl_log s p))) e))))"

lemma cl_invI:
  assumes "distinct mems" "p \<in> set mems" "\<And>n. n \<in> set mems \<Longrightarrow> node_ok p mems v a0 s n"
    and "sorted_wrt (\<lambda>x y. prefix (cl_log s y) (cl_log s x)) (filter (\<lambda>x. x \<noteq> p) mems @ [p])"
    and "\<And>b vs pn rq. (b, vs, pn, rq) \<in> set (cl_msgs s) \<Longrightarrow> vs_vid vs = v \<and> 0 < unat (vs_seqno vs) \<and>
         (\<exists>xs ys. filter (\<lambda>x. x \<noteq> p) mems = xs @ b # ys \<and> (\<forall>x \<in> set xs. executed s vs (pn, rq) x))"
    and "\<And>b vs pn rq. (b, vs, pn, rq) \<in> set (cl_oks s) \<Longrightarrow> executed s vs (pn, rq) b"
    and "\<And>pn rq todo. cl_cur s = Some (pn, rq, todo) \<Longrightarrow>
         \<exists>xs. filter (\<lambda>x. x \<noteq> p) mems = xs @ todo \<and> (\<forall>x \<in> set xs. executed s (rs_myvs (cl_node s p)) (pn, rq) x)"
    and "\<And>e rep. (e, rep) \<in> set (cl_answers s) \<Longrightarrow>
         \<exists>i < length (cl_log s p). cl_log s p ! i = e \<and> repf rep = fst (nxt (service_run nxt a0 (take i (cl_log s p))) e)"
    and "busy_ok s"
  shows "cl_inv p mems v a0 s"
  using assms unfolding cl_inv_def Let_def by blast

lemma cl_invD:
  assumes "cl_inv p mems v a0 s"
  shows "distinct mems" "p \<in> set mems" "n \<in> set mems \<Longrightarrow> node_ok p mems v a0 s n"
    and "sorted_wrt (\<lambda>x y. prefix (cl_log s y) (cl_log s x)) (filter (\<lambda>x. x \<noteq> p) mems @ [p])"
    and "(b, vs, pn, rq) \<in> set (cl_msgs s) \<Longrightarrow> vs_vid vs = v \<and> 0 < unat (vs_seqno vs) \<and>
         (\<exists>xs ys. filter (\<lambda>x. x \<noteq> p) mems = xs @ b # ys \<and> (\<forall>x \<in> set xs. executed s vs (pn, rq) x))"
    and "(b, vs, pn, rq) \<in> set (cl_oks s) \<Longrightarrow> executed s vs (pn, rq) b"
    and "cl_cur s = Some (pn, rq, todo) \<Longrightarrow>
         \<exists>xs. filter (\<lambda>x. x \<noteq> p) mems = xs @ todo \<and> (\<forall>x \<in> set xs. executed s (rs_myvs (cl_node s p)) (pn, rq) x)"
    and "(e, rep) \<in> set (cl_answers s) \<Longrightarrow>
         \<exists>i < length (cl_log s p). cl_log s p ! i = e \<and> repf rep = fst (nxt (service_run nxt a0 (take i (cl_log s p))) e)"
    and "busy_ok s"
  using assms unfolding cl_inv_def Let_def by blast+

text \<open>Touching a node without executing anything.\<close>

definition same_rsm :: "'s rsm \<Rightarrow> 's rsm \<Rightarrow> bool" where
  "same_rsm r r' =
     (rs_me r' = rs_me r \<and> rs_primary r' = rs_primary r \<and> rs_inviewchange r' = rs_inviewchange r \<and>
      rs_vid_commit r' = rs_vid_commit r \<and> rs_procs r' = rs_procs r \<and> rs_myvs r' = rs_myvs r \<and>
      rs_sob r' = rs_sob r \<and> (\<forall>w. fst (rsm_view r' w) = fst (rsm_view r w)))"

lemma same_rsm_view: "same_rsm r (snd (rsm_view r w))"
  by (simp add: same_rsm_def)

lemma same_rsm_partition: "same_rsm r (snd (partition1 r))"
  by (simp add: same_rsm_def partition1_def net_repair_wo_def split_beta rsm_view_def get_view_wo_def)

lemma node_ok_same:
  assumes "node_ok p mems v a0 s n" "same_rsm (cl_node s n) (cl_node s' n)" "cl_log s' n = cl_log s n"
  shows "node_ok p mems v a0 s' n"
  using assms by (simp add: node_ok_def same_rsm_def Let_def)

lemma executed_same: "cl_log s' = cl_log s \<Longrightarrow> executed s' = executed s"
  by (simp add: executed_def fun_eq_iff)

lemma busy_touch:
  assumes "busy_ok s" "cl_busy s' = cl_busy s" "set (cl_msgs s) \<subseteq> set (cl_msgs s')"
    "\<And>n. rs_myvs (cl_node s' n) = rs_myvs (cl_node s n)"
  shows "busy_ok s'"
  using assms by (auto simp: busy_ok_def)

lemma inv_touch:
  assumes "cl_inv p mems v a0 s" "\<And>n. same_rsm (cl_node s n) (cl_node s' n)" "cl_log s' = cl_log s"
    and "cl_oks s' = cl_oks s" "cl_answers s' = cl_answers s"
    and "\<And>b vs pn rq. (b, vs, pn, rq) \<in> set (cl_msgs s') \<Longrightarrow> (b, vs, pn, rq) \<notin> set (cl_msgs s) \<Longrightarrow>
       vs_vid vs = v \<and> 0 < unat (vs_seqno vs) \<and>
       (\<exists>xs ys. filter (\<lambda>x. x \<noteq> p) mems = xs @ b # ys \<and> (\<forall>x \<in> set xs. executed s vs (pn, rq) x))"
    and "\<And>pn rq todo. cl_cur s' = Some (pn, rq, todo) \<Longrightarrow>
       \<exists>xs. filter (\<lambda>x. x \<noteq> p) mems = xs @ todo \<and> (\<forall>x \<in> set xs. executed s (rs_myvs (cl_node s p)) (pn, rq) x)"
    and "busy_ok s'"
  shows "cl_inv p mems v a0 s'"
proof -
  note D = cl_invD [OF assms(1)]
  have vs: "rs_myvs (cl_node s' p) = rs_myvs (cl_node s p)" using assms(2) by (simp add: same_rsm_def)
  show ?thesis
  proof (rule cl_invI)
    show "node_ok p mems v a0 s' n" if "n \<in> set mems" for n
      using node_ok_same [OF D(3) [OF that] assms(2)] assms(3) by simp
    show "vs_vid vs = v \<and> 0 < unat (vs_seqno vs) \<and> (\<exists>xs ys. filter (\<lambda>x. x \<noteq> p) mems = xs @ b # ys \<and>
        (\<forall>x \<in> set xs. executed s' vs (pn, rq) x))" if "(b, vs, pn, rq) \<in> set (cl_msgs s')" for b vs pn rq
      unfolding executed_same [OF assms(3)] using that assms(6) D(5) by blast
    show "\<exists>xs. filter (\<lambda>x. x \<noteq> p) mems = xs @ todo \<and>
        (\<forall>x \<in> set xs. executed s' (rs_myvs (cl_node s' p)) (pn, rq) x)" if "cl_cur s' = Some (pn, rq, todo)" for pn rq todo
      unfolding executed_same [OF assms(3)] vs by (rule assms(7) [OF that])
    show "executed s' vs (pn, rq) b" if "(b, vs, pn, rq) \<in> set (cl_oks s')" for b vs pn rq
      unfolding executed_same [OF assms(3)] using that D(6) assms(4) by simp
    show "\<exists>i<length (cl_log s' p). cl_log s' p ! i = e \<and> repf rep = fst (nxt (service_run nxt a0 (take i (cl_log s' p))) e)"
      if "(e, rep) \<in> set (cl_answers s')" for e rep
      using D(8) that assms(3,5) by simp
  qed (use D assms(3,8) in simp_all)
qed

lemma next_backup_touch:
  assumes "next_backup p s = Some s'" "cl_cur s = Some (pn, rq, b # todo)"
  shows "same_rsm (cl_node s n) (cl_node s' n)" "cl_log s' = cl_log s" "cl_oks s' = cl_oks s"
    "cl_answers s' = cl_answers s" "cl_msgs s' = cl_msgs s" "cl_busy s' = cl_busy s" "cl_cur s' = Some (pn, rq, todo)"
  using assms same_rsm_partition [of "cl_node s p"]
  by (auto simp: next_backup_def breakpoint1_def same_rsm_def split: if_splits)

text \<open>Executing the next request at a node.\<close>

lemma prefix_snoc_nth:
  assumes "prefix l m" "length l < length m" "m ! length l = e"
  shows "prefix (l @ [e]) m"
proof -
  obtain zs where "m = l @ zs" using assms(1) by (auto simp: prefix_def)
  then show ?thesis using assms(2,3) by (cases zs) (auto simp: prefix_def)
qed

lemma sorted_logs_append:
  assumes "sorted_wrt (\<lambda>x y. prefix (L y) (L x)) (xs @ b # ys)" "distinct (xs @ b # ys)"
    and "\<And>x. x \<in> set xs \<Longrightarrow> length (L b) < length (L x) \<and> L x ! length (L b) = e"
  shows "sorted_wrt (\<lambda>x y. prefix ((L(b := L b @ [e])) y) ((L(b := L b @ [e])) x)) (xs @ b # ys)"
proof -
  let ?L = "L(b := L b @ [e])"
  have same: "sorted_wrt (\<lambda>x y. prefix (?L y) (?L x)) zs = sorted_wrt (\<lambda>x y. prefix (L y) (L x)) zs"
    if "b \<notin> set zs" for zs
    using that by (induction zs) auto
  have n: "b \<notin> set xs" "b \<notin> set ys" using assms(2) by auto
  have "prefix (L b @ [e]) (L x)" if "x \<in> set xs" for x
    using assms(1,3) that by (intro prefix_snoc_nth) (auto simp: sorted_wrt_append)
  then show ?thesis
    using assms(1) n same [of xs] same [of ys] by (simp add: sorted_wrt_append del: fun_upd_apply) auto
qed

lemma node_ok_bump:
  assumes "node_ok p mems v a0 s n" "execute junk (rs_procs (cl_node s n)) (rs_sob (cl_node s n)) pn rq = Some (rep, sob)"
    and "vs_seqno (rs_myvs (cl_node s n)) + 1 \<noteq> 0"
    and "same_rsm (cl_node s n) r" "cl_node s' n = bump (r\<lparr> rs_sob := sob \<rparr>)" "cl_log s' n = cl_log s n @ [(pn, rq)]"
  shows "node_ok p mems v a0 s' n" "repf rep = fst (nxt (service_run nxt a0 (cl_log s n)) (pn, rq))"
proof -
  have e: "nxt (service_run nxt a0 (cl_log s n)) (pn, rq) = (repf rep, absf sob)"
    using execute_abs [OF _ assms(2), of n] assms(1) by (simp add: node_ok_def Let_def)
  have view: "fst (rsm_view (bump (r\<lparr> rs_sob := sob \<rparr>)) w) = fst (rsm_view r w)" for w
    by (simp add: rsm_view_def get_view_wo_def bump_def)
  have nowrap: "unat (vs_seqno (rs_myvs (cl_node s n)) + 1) = Suc (unat (vs_seqno (rs_myvs (cl_node s n))))"
    using assms(3) unatSuc [of "vs_seqno (rs_myvs (cl_node s n))"] by (simp add: add.commute)
  show "node_ok p mems v a0 s' n"
    using assms e view nowrap by (simp add: node_ok_def Let_def same_rsm_def)
  show "repf rep = fst (nxt (service_run nxt a0 (cl_log s n)) (pn, rq))" by (simp add: e)
qed

lemma executed_mono:
  assumes "executed s vs e x" "prefix (cl_log s x) (cl_log s' x)"
  shows "executed s' vs e x"
  using assms by (auto simp: executed_def prefix_def nth_append)

lemma inv_exec:
  assumes inv: "cl_inv p mems v a0 s" and C: "filter (\<lambda>x. x \<noteq> p) mems @ [p] = xs @ n # ys"
    and before: "\<And>x. x \<in> set xs \<Longrightarrow> executed s (rs_myvs (cl_node s n)) (pn, rq) x"
    and ex: "execute junk (rs_procs (cl_node s n)) (rs_sob (cl_node s n)) pn rq = Some (rep, sob)"
    and nz: "vs_seqno (rs_myvs (cl_node s n)) + 1 \<noteq> 0" and r: "same_rsm (cl_node s n) r"
    and s': "cl_node s' = (cl_node s)(n := bump (r\<lparr> rs_sob := sob \<rparr>))" "cl_msgs s' = cl_msgs s"
      "cl_log s' = (cl_log s)(n := cl_log s n @ [(pn, rq)])"
    and oks: "set (cl_oks s') \<subseteq> insert (n, rs_myvs (cl_node s n), pn, rq) (set (cl_oks s))"
    and ans: "set (cl_answers s') \<subseteq> (if n = p then {((pn, rq), rep)} else {}) \<union> set (cl_answers s)"
    and cur: "cl_cur s' = None \<or> cl_cur s' = cl_cur s \<and> n \<noteq> p" and busy: "busy_ok s'"
  shows "cl_inv p mems v a0 s'"
proof -
  note D = cl_invD [OF inv]
  have dC: "distinct (xs @ n # ys)" unfolding C [symmetric] using D(1) by simp
  have "set (filter (\<lambda>x. x \<noteq> p) mems @ [p]) = set mems" using D(2) by auto
  then have n: "n \<in> set mems" unfolding C by auto
  have len: "length (cl_log s x) + 1 = unat (vs_seqno (rs_myvs (cl_node s x)))" if "x \<in> set mems" for x
    using D(3) [OF that] by (simp add: node_ok_def Let_def)
  have pre: "prefix (cl_log s x) (cl_log s' x)" for x by (simp add: s')
  have mono: "executed s vs e x \<Longrightarrow> executed s' vs e x" for vs e x
    using executed_mono pre by blast
  have new: "executed s' (rs_myvs (cl_node s n)) (pn, rq) n"
    using len [OF n, symmetric] by (simp add: executed_def s')
  show ?thesis
  proof (rule cl_invI)
    show "node_ok p mems v a0 s' x" if "x \<in> set mems" for x
    proof (cases "x = n")
      case True
      then show ?thesis using node_ok_bump(1) [OF D(3) [OF n] ex nz r] s' by simp
    next
      case False
      then show ?thesis using D(3) [OF that] by (simp add: node_ok_def s')
    qed
    show "sorted_wrt (\<lambda>x y. prefix (cl_log s' y) (cl_log s' x)) (filter (\<lambda>x. x \<noteq> p) mems @ [p])"
      unfolding C s' using D(4) dC unfolding C
    proof (rule sorted_logs_append)
      fix x assume "x \<in> set xs"
      from before [OF this] len [OF n, symmetric]
      show "length (cl_log s n) < length (cl_log s x) \<and> cl_log s x ! length (cl_log s n) = (pn, rq)"
        by (simp add: executed_def)
    qed
    show "vs_vid vs = v \<and> 0 < unat (vs_seqno vs) \<and> (\<exists>xs ys. filter (\<lambda>x. x \<noteq> p) mems = xs @ b # ys \<and>
        (\<forall>x \<in> set xs. executed s' vs (a, q) x))" if "(b, vs, a, q) \<in> set (cl_msgs s')" for b vs a q
      using D(5) [OF that [unfolded s'(2)]] mono by (metis (no_types, lifting))
    show "executed s' vs (a, q) b" if "(b, vs, a, q) \<in> set (cl_oks s')" for b vs a q
      using that oks new mono D(6) by fastforce
    show "\<exists>xs. filter (\<lambda>x. x \<noteq> p) mems = xs @ todo \<and>
        (\<forall>x \<in> set xs. executed s' (rs_myvs (cl_node s' p)) (a, q) x)" if "cl_cur s' = Some (a, q, todo)" for a q todo
    proof -
      have c: "cl_cur s = Some (a, q, todo)" and e: "cl_node s' p = cl_node s p" using that cur s'(1) by auto
      show ?thesis using D(7) [OF c] mono unfolding e by blast
    qed
    show "\<exists>i<length (cl_log s' p). cl_log s' p ! i = e \<and> repf re = fst (nxt (service_run nxt a0 (take i (cl_log s' p))) e)"
      if "(e, re) \<in> set (cl_answers s')" for e re
    proof (cases "(e, re) \<in> set (cl_answers s)")
      case True
      then obtain i where "i < length (cl_log s p)" "cl_log s p ! i = e"
        "repf re = fst (nxt (service_run nxt a0 (take i (cl_log s p))) e)" using D(8) by blast
      then show ?thesis by (intro exI [of _ i]) (auto simp: s' nth_append)
    next
      case False
      then have "n = p" "e = (pn, rq)" "re = rep" using that ans by (auto split: if_splits)
      then show ?thesis using node_ok_bump(2) [OF D(3) [OF n] ex nz r _ _, of s'] s'
        by (intro exI [of _ "length (cl_log s p)"]) simp
    qed
  qed (use D busy in simp_all)
qed

lemma invoke_begin_same: "same_rsm r (snd (invoke_begin r vs))"
  using same_rsm_view [of r] by (simp add: invoke_begin_def rsm_ismember_eq) (simp add: same_rsm_def)

lemma inv_step:
  assumes "cl_inv p mems v a0 s" "cl_exec False False junk p ev s = Some s'"
  shows "cl_inv p mems v a0 s'"
proof -
  note D = cl_invD [OF assms(1)]
  have refl: "same_rsm r r" for r :: "'s rsm" by (simp add: same_rsm_def)
  note np = D(3) [OF D(2)]
  show ?thesis
  proof (cases ev)
    case (Request pn rq)
    then have s': "cl_node s' = (cl_node s)(p := snd (rsm_view (cl_node s p) v))" "cl_log s' = cl_log s"
      "cl_oks s' = cl_oks s" "cl_answers s' = cl_answers s" "cl_msgs s' = cl_msgs s" "cl_busy s' = cl_busy s"
      "cl_cur s' = Some (pn, rq, filter (\<lambda>x. x \<noteq> p) mems)"
      using assms(2) np by (auto simp: client_invoke_begin_def node_ok_def Let_def split_beta split: if_splits)
    have "busy_ok s'" by (rule busy_touch [OF D(9)]) (use s' in auto)
    then show ?thesis by (intro inv_touch [OF assms(1)]) (use s' same_rsm_view refl in auto)
  next
    case SendInvoke
    then obtain pn rq b todo where c: "cl_cur s = Some (pn, rq, b # todo)"
      and s': "s' = s\<lparr> cl_msgs := (b, rs_myvs (cl_node s p), pn, rq) # cl_msgs s \<rparr>"
      using assms(2) by (auto split: option.splits list.splits)
    have "vs_vid (rs_myvs (cl_node s p)) = v" "0 < unat (vs_seqno (rs_myvs (cl_node s p)))"
      using np by (auto simp: node_ok_def Let_def)
    moreover have "busy_ok s'" by (rule busy_touch [OF D(9)]) (auto simp: s')
    ultimately show ?thesis using D(7) [OF c] D(7)
      by (intro inv_touch [OF assms(1)]) (auto simp: s' refl)
  next
    case (BeginInvoke b vs pn rq)
    obtain ret r where i: "invoke_begin (cl_node s b) vs = (ret, r)" by fastforce
    then have m: "(b, vs, pn, rq) \<in> set (cl_msgs s)" and free: "cl_busy s b = []"
      and s': "s' = (if ret = rp_OK then (set_node b r s)\<lparr> cl_busy := (cl_busy s)(b := [(vs, pn, rq)]) \<rparr> else set_node b r s)"
      using assms(2) BeginInvoke by (auto split: if_splits)
    have r: "same_rsm (cl_node s b) r" using invoke_begin_same [of "cl_node s b" vs] i by simp
    have vs: "rs_myvs (cl_node s b) = vs" if "ret = rp_OK" using invoke_begin_OK [of "cl_node s b" vs r] i that by simp
    have busy: "busy_ok s'" using D(9) m vs r unfolding busy_ok_def by (auto simp: s' same_rsm_def)
    have f: "cl_node s' = (cl_node s)(b := r)" "cl_log s' = cl_log s" "cl_oks s' = cl_oks s" "cl_answers s' = cl_answers s"
      "cl_msgs s' = cl_msgs s" "cl_cur s' = cl_cur s" by (auto simp: s')
    show ?thesis by (rule inv_touch [OF assms(1)]) (use D(7) r busy in \<open>auto simp: f refl\<close>)
  next
    case (EndInvoke b vs pn rq)
    then obtain r where bz: "(vs, pn, rq) \<in> set (cl_busy s b)" and nz: "vs_seqno (rs_myvs (cl_node s b)) + 1 \<noteq> 0"
      and e: "invoke_end junk (cl_node s b) pn rq = Some r"
      and s': "s' = (set_node b r s)\<lparr> cl_busy := (cl_busy s)(b := remove1 (vs, pn, rq) (cl_busy s b)),
                         cl_oks := (b, vs, pn, rq) # cl_oks s, cl_log := (cl_log s)(b := cl_log s b @ [(pn, rq)]) \<rparr>"
      using assms(2) by (auto split: if_splits)
    have m: "(b, vs, pn, rq) \<in> set (cl_msgs s)" "rs_myvs (cl_node s b) = vs" using D(9) bz by (auto simp: busy_ok_def)
    have one: "remove1 (vs, pn, rq) (cl_busy s b) = []"
    proof -
      have "length (cl_busy s b) \<le> 1" using D(9) by (simp add: busy_ok_def)
      then show ?thesis using bz by (cases "cl_busy s b") auto
    qed
    from D(5) [OF m(1)] obtain xs ys where bs: "filter (\<lambda>x. x \<noteq> p) mems = xs @ b # ys"
      and before: "\<forall>x \<in> set xs. executed s vs (pn, rq) x" by blast
    have "b \<in> set (filter (\<lambda>x. x \<noteq> p) mems)" unfolding bs by simp
    then have "b \<noteq> p" by simp
    obtain rep sob where ex: "execute junk (rs_procs (cl_node s b)) (rs_sob (cl_node s b)) pn rq = Some (rep, sob)"
      and r: "r = bump ((cl_node s b)\<lparr> rs_sob := sob \<rparr>)" using e by (auto simp: invoke_end_Some)
    have busy: "busy_ok s'" using D(9) one unfolding busy_ok_def by (auto simp: s')
    show ?thesis
      by (rule inv_exec [OF assms(1) _ _ ex nz refl, of xs "ys @ [p]"])
        (use m before \<open>b \<noteq> p\<close> bs r busy in \<open>auto simp: s'\<close>)
  next
    case GotOk
    then obtain pn rq b todo where c: "cl_cur s = Some (pn, rq, b # todo)"
      and ok: "(b, rs_myvs (cl_node s p), pn, rq) \<in> set (cl_oks s)" and nb: "next_backup p s = Some s'"
      using assms(2) by (auto split: option.splits list.splits if_splits)
    note t = next_backup_touch [OF nb c]
    from D(7) [OF c] obtain xs where "filter (\<lambda>x. x \<noteq> p) mems = (xs @ [b]) @ todo"
      "\<forall>x \<in> set (xs @ [b]). executed s (rs_myvs (cl_node s p)) (pn, rq) x" using D(6) [OF ok] by auto
    moreover have "busy_ok s'" by (rule busy_touch [OF D(9)]) (use t in \<open>auto simp: same_rsm_def\<close>)
    ultimately show ?thesis by (intro inv_touch [OF assms(1)]) (use t in auto)
  next
    case GotFail
    then have s': "s' = s\<lparr> cl_cur := None \<rparr>" using assms(2) by (auto split: if_splits)
    have "busy_ok s'" by (rule busy_touch [OF D(9)]) (auto simp: s')
    then show ?thesis by (intro inv_touch [OF assms(1)]) (auto simp: refl s')
  next
    case SkipOne
    then show ?thesis using assms(2) by simp
  next
    case Finish
    then obtain pn rq rep r where c: "cl_cur s = Some (pn, rq, [])" and nz: "vs_seqno (rs_myvs (cl_node s p)) + 1 \<noteq> 0"
      and e: "client_invoke_end junk (cl_node s p) pn rq = Some (rep, r)"
      and s': "s' = (set_node p r s)\<lparr> cl_cur := None, cl_log := (cl_log s)(p := cl_log s p @ [(pn, rq)]),
                          cl_answers := ((pn, rq), rep) # cl_answers s \<rparr>"
      using assms(2) by (auto split: option.splits list.splits if_splits)
    obtain sob where ex: "execute junk (rs_procs (cl_node s p)) (rs_sob (cl_node s p)) pn rq = Some (rep, sob)"
      and r: "r = bump ((cl_node s p)\<lparr> rs_sob := sob \<rparr>)"
      using e by (auto simp: client_invoke_end_def rsm_execute_def bump_def)
    have "cl_busy s p = []"
    proof (rule ccontr)
      assume "cl_busy s p \<noteq> []"
      then obtain vs a q where "(vs, a, q) \<in> set (cl_busy s p)" by (cases "cl_busy s p") auto
      then have "(p, vs, a, q) \<in> set (cl_msgs s)" using D(9) by (auto simp: busy_ok_def)
      then obtain xs ys where "filter (\<lambda>x. x \<noteq> p) mems = xs @ p # ys" using D(5) by blast
      then have "p \<in> set (filter (\<lambda>x. x \<noteq> p) mems)" by simp
      then show False by simp
    qed
    then have "busy_ok s'" using D(9) unfolding busy_ok_def by (auto simp: s')
    then show ?thesis
      by (intro inv_exec [OF assms(1) _ _ ex nz refl, of "filter (\<lambda>x. x \<noteq> p) mems" "[]"])
        (use D(7) [OF c] in \<open>auto simp: s' r\<close>)
  qed
qed

lemma inv_reach: "cl_reach procs_ok absf False False junk p mems v a0 s \<Longrightarrow> cl_inv p mems v a0 s"
proof (induction rule: cl_reach.induct)
  case (init s)
  then have "distinct mems" "p \<in> set mems" "\<And>n. n \<in> set mems \<Longrightarrow> node_ok p mems v a0 s n"
    by (auto simp: cl_start_def node_ok_def Let_def)
  moreover have "sorted_wrt (\<lambda>x y. True) xs" for xs :: "string list" by (induction xs) auto
  ultimately show ?case using init by (intro cl_invI) (auto simp: cl_start_def busy_ok_def)
qed (use inv_step in blast)

text \<open>What a view guarantees to the clients and among the replicas.\<close>

lemma prefix_total:
  assumes "cl_inv p mems v a0 s" "x \<in> set mems" "y \<in> set mems"
  shows "prefix (cl_log s x) (cl_log s y) \<or> prefix (cl_log s y) (cl_log s x)"
proof -
  let ?C = "filter (\<lambda>x. x \<noteq> p) mems @ [p]"
  have "set ?C = set mems" using cl_invD(2) [OF assms(1)] by auto
  then obtain i j where ij: "i < length ?C" "j < length ?C" "?C ! i = x" "?C ! j = y"
    using assms(2,3) by (metis in_set_conv_nth)
  with cl_invD(4) [OF assms(1)] show ?thesis
    unfolding sorted_wrt_iff_nth_less by (metis linorder_neqE_nat prefix_order.refl)
qed

lemma same_viewstamp:
  assumes "cl_reach procs_ok absf False False junk p mems v a0 s" "x \<in> set mems" "y \<in> set mems"
    and "vs_seqno (rs_myvs (cl_node s x)) = vs_seqno (rs_myvs (cl_node s y))"
  shows "cl_log s x = cl_log s y \<and> absf (rs_sob (cl_node s x)) = absf (rs_sob (cl_node s y))"
proof -
  note inv = inv_reach [OF assms(1)]
  note ok = cl_invD(3) [OF inv assms(2)] cl_invD(3) [OF inv assms(3)]
  have "length (cl_log s x) = length (cl_log s y)" using ok assms(4) by (simp add: node_ok_def Let_def)
  then have "cl_log s x = cl_log s y" using prefix_total [OF inv assms(2,3)] by (auto simp: prefix_def)
  with ok show ?thesis by (simp add: node_ok_def Let_def)
qed

lemma answered_everywhere:
  assumes "cl_reach procs_ok absf False False junk p mems v a0 s" "(e, rep) \<in> set (cl_answers s)" "x \<in> set mems"
  shows "\<exists>i < length (cl_log s x). cl_log s x ! i = e \<and>
    repf rep = fst (nxt (service_run nxt a0 (take i (cl_log s x))) e)"
proof -
  note inv = inv_reach [OF assms(1)]
  obtain i where i: "i < length (cl_log s p)" "cl_log s p ! i = e"
    "repf rep = fst (nxt (service_run nxt a0 (take i (cl_log s p))) e)" using cl_invD(8) [OF inv assms(2)] by blast
  have "prefix (cl_log s p) (cl_log s x)"
    using cl_invD(2,4) [OF inv] assms(3) by (cases "x = p") (auto simp: sorted_wrt_append)
  with i show ?thesis by (intro exI [of _ i]) (auto simp: prefix_def nth_append)
qed

end

section \<open>The contract of a state transfer\<close>

text \<open>
  What \<open>rsm::statetransfer\<close> needs of \<open>marshal_state\<close> and \<open>unmarshal_state\<close>: loading a state into a replica
  gives that state, up to the view \<open>absf\<close> of it, for the pairs of states where \<open>fits\<close> holds.
\<close>

locale transferable_service =
  fixes ms :: "'s \<Rightarrow> string" and us :: "string \<Rightarrow> 's \<Rightarrow> 's option" and absf :: "'s \<Rightarrow> 'a" and fits :: "'s \<Rightarrow> 's \<Rightarrow> bool"
  assumes transfer: "fits src dst \<Longrightarrow> \<exists>dst'. us (ms src) dst = Some dst' \<and> absf dst' = absf src"
begin

lemma synchronised:
  assumes "rs_insync r" "rs_vid_insync r = rs_vid_insync b" "fits (rs_sob r) (rs_sob b)"
    and "rs_last_myvs b = rs_last_myvs r \<Longrightarrow> absf (rs_sob b) = absf (rs_sob r)"
    and "transferreq (Some (ms, us)) r (rs_last_myvs b) (rs_vid_insync b) = (ret, t)"
  shows "ret = rp_OK \<and> (\<exists>b'. statetransfer (Some (ms, us)) b (Some t) = Some (True, b') \<and>
    absf (rs_sob b') = absf (rs_sob r) \<and> rs_last_myvs b' = rs_last_myvs r)"
proof -
  obtain d where "us (ms (rs_sob r)) (rs_sob b) = Some d" "absf d = absf (rs_sob r)"
    using transfer [OF assms(3)] by blast
  then show ?thesis
    using assms by (auto simp: transferreq_def statetransfer_def)
qed

end

end
