(* ===== verification/Lock_Server_Rsm.thy ===== *)
theory Lock_Server_Rsm
  imports Lock_Protocol Fifo_Pool Rsm_Replication
begin

text \<open>
  The replicated lock server (\<open>lock_server_cache_rsm.cc\<close>, \<open>lock_server_cache_rsm.h\<close>): the methods that the
  state machine executes, the revoker and retryer threads of the primary, and the state transfer.

  \<open>None\<close> is a crash: a failed \<open>assert\<close> or the use of an uninitialised pointer.  The answer of
  \<open>rsm->amiprimary()\<close> is the argument \<open>prim\<close>; the condition variables are the guards of the steps that
  wait on them.
\<close>

section \<open>State\<close>

record client_info =
  ci_cid :: string
  ci_xid :: u64
  ci_available :: bool
  ci_waited :: "string list"

record lock_server_rsm =
  ls_nacquire :: u32
  ls_revoker :: "u64 fifo"
  ls_retryer :: "u64 fifo"
  ls_clients :: "(u64, client_info) omap"

definition lock_server_rsm_new :: "u32 \<Rightarrow> lock_server_rsm" where
  "lock_server_rsm_new junk =
     \<lparr> ls_nacquire = junk, ls_revoker = fifo_new 0, ls_retryer = fifo_new 0, ls_clients = [] \<rparr>"

abbreviation set_ci :: "u64 \<Rightarrow> client_info \<Rightarrow> lock_server_rsm \<Rightarrow> lock_server_rsm" where
  "set_ci lid ci s \<equiv> s\<lparr> ls_clients := omap_set lid ci (ls_clients s) \<rparr>"

definition enq_revoker :: "bool \<Rightarrow> u64 \<Rightarrow> lock_server_rsm \<Rightarrow> lock_server_rsm option" where
  "enq_revoker prim lid s =
     (if prim then map_option (\<lambda>(b, q). s\<lparr> ls_revoker := q \<rparr>) (enq (ls_revoker s) lid True) else Some s)"

section \<open>Operations\<close>

text \<open>The duplicate path jumps to \<open>clear_and_notify\<close> before \<open>waited_clts\<close> is set: it dereferences an
  uninitialised pointer.\<close>

definition lsr_acquire ::
  "bool \<Rightarrow> lock_server_rsm \<Rightarrow> u64 \<Rightarrow> string \<Rightarrow> u64 \<Rightarrow> (u32 \<times> lock_server_rsm) option" where
  "lsr_acquire prim s lid cid xid =
     (case omap_find (ls_clients s) lid of
        None \<Rightarrow> Some (lk_OK, set_ci lid \<lparr> ci_cid = cid, ci_xid = xid, ci_available = False, ci_waited = [] \<rparr> s)
      | Some ci \<Rightarrow>
          if cid = ci_cid ci \<and> xid = ci_xid ci then None
          else if ci_waited ci \<noteq> [] \<and> cid \<notin> set (ci_waited ci)
          then Some (lk_RETRY, set_ci lid (ci\<lparr> ci_waited := oset_insert cid (ci_waited ci) \<rparr>) s)
          else if \<not> ci_available ci then
            if cid \<notin> set (ci_waited ci)
            then map_option (Pair lk_RETRY)
                   (enq_revoker prim lid (set_ci lid (ci\<lparr> ci_waited := oset_insert cid (ci_waited ci) \<rparr>) s))
            else Some (lk_RETRY, s)
          else
            let ci = ci\<lparr> ci_cid := cid, ci_xid := xid, ci_available := False,
                         ci_waited := oset_erase cid (ci_waited ci) \<rparr>;
                s = set_ci lid ci s
            in map_option (Pair lk_OK) (if ci_waited ci \<noteq> [] then enq_revoker prim lid s else Some s))"

definition lsr_release :: "lock_server_rsm \<Rightarrow> u64 \<Rightarrow> string \<Rightarrow> u64 \<Rightarrow> u32 \<times> u32 \<times> lock_server_rsm" where
  "lsr_release s lid cid xid =
     (lk_OK, ucast lid,
      case omap_find (ls_clients s) lid of
        None \<Rightarrow> s
      | Some ci \<Rightarrow> if ci_cid ci = cid then set_ci lid (ci\<lparr> ci_available := True \<rparr>) s else s)"

definition lsr_stat :: "lock_server_rsm \<Rightarrow> u64 \<Rightarrow> u32 \<times> u32 \<times> lock_server_rsm" where
  "lsr_stat s lid = (lk_OK, ls_nacquire s, s)"

text \<open>A round of the revoker: it takes a lock (\<open>None\<close>: it waits), reads whom to revoke it from (the null
  pointer of an unknown lock crashes), and queues the lock for the retryer after the client's answer.\<close>

definition revoker_take :: "lock_server_rsm \<Rightarrow> (u64 \<times> lock_server_rsm) option" where
  "revoker_take s = map_option (\<lambda>(lid, q). (lid, s\<lparr> ls_revoker := q \<rparr>)) (deq (ls_revoker s))"

definition revoker_target :: "lock_server_rsm \<Rightarrow> u64 \<Rightarrow> (string \<times> u64) option" where
  "revoker_target s lid = map_option (\<lambda>ci. (ci_cid ci, ci_xid ci)) (omap_find (ls_clients s) lid)"

definition call_client_rpc :: "u32 option \<Rightarrow> u32" where
  "call_client_rpc r = (case r of None \<Rightarrow> rl_RPCERR | Some ret \<Rightarrow> if ret \<noteq> rl_OK then rl_RPCERR else ret)"

definition revoker_end :: "lock_server_rsm \<Rightarrow> u64 \<Rightarrow> u32 option \<Rightarrow> lock_server_rsm option" where
  "revoker_end s lid r =
     (if call_client_rpc r \<noteq> rl_OK then None
      else map_option (\<lambda>(b, q). s\<lparr> ls_retryer := q \<rparr>) (enq (ls_retryer s) lid True))"

text \<open>The retryer takes a lock, waits until it is available, and picks the first waiting client.\<close>

definition retryer_take :: "lock_server_rsm \<Rightarrow> (u64 \<times> lock_server_rsm) option" where
  "retryer_take s = map_option (\<lambda>(lid, q). (lid, s\<lparr> ls_retryer := q \<rparr>)) (deq (ls_retryer s))"

definition retryer_wakes :: "lock_server_rsm \<Rightarrow> u64 \<Rightarrow> bool option" where
  "retryer_wakes s lid = map_option ci_available (omap_find (ls_clients s) lid)"

definition retryer_pick :: "lock_server_rsm \<Rightarrow> u64 \<Rightarrow> string option" where
  "retryer_pick s lid = do {
     ci \<leftarrow> omap_find (ls_clients s) lid;
     if ci_waited ci = [] then None else Some (hd (ci_waited ci)) }"

section \<open>State transfer\<close>

definition m_client_info :: "marshall \<Rightarrow> client_info \<Rightarrow> marshall" where
  "m_client_info m ci =
     (let m = m_string m (ci_cid ci);
          m = m_ulonglong m (ci_xid ci);
          m = m_bool m (ci_available ci);
          m = m_uint m (of_nat (length (ci_waited ci)))
      in foldl m_string m (ci_waited ci))"

fun u_waited :: "nat \<Rightarrow> string list \<Rightarrow> unmarshall \<Rightarrow> (string list \<times> unmarshall) option" where
  "u_waited 0 w u = Some (w, u)"
| "u_waited (Suc n) w u = do { (clt, u) \<leftarrow> u_string u; u_waited n (oset_insert clt w) u }"

definition u_client_info :: "unmarshall \<Rightarrow> (client_info \<times> unmarshall) option" where
  "u_client_info u = do {
     (cid, u) \<leftarrow> u_string u;
     (xid, u) \<leftarrow> u_ulonglong u;
     (avail, u) \<leftarrow> u_bool u;
     (wclt_size, u) \<leftarrow> u_int u;
     (w, u) \<leftarrow> u_waited (nat (sint wclt_size)) [] u;
     Some (\<lparr> ci_cid = cid, ci_xid = xid, ci_available = avail, ci_waited = w \<rparr>, u) }"

definition marshal_state :: "(nat \<Rightarrow> byte) \<Rightarrow> lock_server_rsm \<Rightarrow> string" where
  "marshal_state junk s =
     m_get_content (foldl (\<lambda>m (lid, ci). m_client_info (m_ulonglong m lid) ci)
       (m_uint (marshall_new junk) (of_nat (length (ls_clients s)))) (ls_clients s))"

fun unmarshal_locks :: "nat \<Rightarrow> (u64, client_info) omap \<Rightarrow> unmarshall \<Rightarrow> ((u64, client_info) omap \<times> unmarshall) option" where
  "unmarshal_locks 0 m u = Some (m, u)"
| "unmarshal_locks (Suc n) m u = do {
     (lid, u) \<leftarrow> u_ulonglong u;
     (ci, u) \<leftarrow> u_client_info u;
     unmarshal_locks n (omap_set lid ci m) u }"

text \<open>The locks read are added to those the server has; none is removed.\<close>

definition unmarshal_state :: "(nat \<Rightarrow> byte) \<Rightarrow> string \<Rightarrow> lock_server_rsm \<Rightarrow> lock_server_rsm option" where
  "unmarshal_state junk st s = do {
     (locks_size, u) \<leftarrow> u_uint (unmarshall_of_string junk st);
     (m, u) \<leftarrow> unmarshal_locks (unat locks_size) (ls_clients s) u;
     Some (s\<lparr> ls_clients := m \<rparr>) }"

text \<open>What \<open>main\<close> registers.  \<open>acquire\<close> does not set its result, which the handler returns uninitialised.\<close>

definition lock_procs :: "(lock_server_rsm \<Rightarrow> u32) \<Rightarrow> bool \<Rightarrow> (u32, lock_server_rsm handler) omap" where
  "lock_procs junk prim =
     omap_set lk_stat (rsm_fn1 u_ulonglong m_int (\<lambda>s lid. Some (lsr_stat s lid)))
      (omap_set lk_release (rsm_fn3 u_ulonglong u_string u_ulonglong m_int
           (\<lambda>s lid cid xid. Some (lsr_release s lid cid xid)))
      (omap_set lk_acquire (rsm_fn3 u_ulonglong u_string u_ulonglong m_int
           (\<lambda>s lid cid xid. map_option (\<lambda>(b, s'). (b, junk s, s')) (lsr_acquire prim s lid cid xid))) []))"

section \<open>What the operations do\<close>

text \<open>The table of locks after a request, and its status.\<close>

definition granted :: "client_info \<Rightarrow> string \<Rightarrow> bool" where
  "granted ci cid = (ci_available ci \<and> (ci_waited ci = [] \<or> cid \<in> set (ci_waited ci)))"

definition acq_spec ::
  "(u64, client_info) omap \<Rightarrow> u64 \<Rightarrow> string \<Rightarrow> u64 \<Rightarrow> u32 \<times> (u64, client_info) omap" where
  "acq_spec m lid cid xid =
     (case omap_find m lid of
        None \<Rightarrow> (lk_OK, omap_set lid \<lparr> ci_cid = cid, ci_xid = xid, ci_available = False, ci_waited = [] \<rparr> m)
      | Some ci \<Rightarrow>
          if granted ci cid
          then (lk_OK, omap_set lid \<lparr> ci_cid = cid, ci_xid = xid, ci_available = False,
                                     ci_waited = oset_erase cid (ci_waited ci) \<rparr> m)
          else if cid \<in> set (ci_waited ci) then (lk_RETRY, m)
          else (lk_RETRY, omap_set lid (ci\<lparr> ci_waited := oset_insert cid (ci_waited ci) \<rparr>) m))"

definition rel_spec :: "(u64, client_info) omap \<Rightarrow> u64 \<Rightarrow> string \<Rightarrow> (u64, client_info) omap" where
  "rel_spec m lid cid =
     (case omap_find m lid of
        None \<Rightarrow> m
      | Some ci \<Rightarrow> if ci_cid ci = cid then omap_set lid (ci\<lparr> ci_available := True \<rparr>) m else m)"

definition duplicate :: "(u64, client_info) omap \<Rightarrow> u64 \<Rightarrow> string \<Rightarrow> u64 \<Rightarrow> bool" where
  "duplicate m lid cid xid = (case omap_find m lid of None \<Rightarrow> False | Some ci \<Rightarrow> cid = ci_cid ci \<and> xid = ci_xid ci)"

lemma enq_revoker_clients: "enq_revoker prim lid s = Some s' \<Longrightarrow> ls_clients s' = ls_clients s"
  by (auto simp: enq_revoker_def split: if_splits)

lemma acquire_spec:
  assumes "lsr_acquire prim s lid cid xid = Some (b, s')"
  shows "acq_spec (ls_clients s) lid cid xid = (b, ls_clients s') \<and> \<not> duplicate (ls_clients s) lid cid xid"
proof (cases "omap_find (ls_clients s) lid")
  case None
  then show ?thesis using assms by (auto simp: lsr_acquire_def acq_spec_def duplicate_def)
next
  case (Some ci)
  have u: "ci\<lparr> ci_cid := cid, ci_xid := xid, ci_available := False, ci_waited := w \<rparr> =
      \<lparr> ci_cid = cid, ci_xid = xid, ci_available = False, ci_waited = w \<rparr>" for w by simp
  from Some show ?thesis
    using assms enq_revoker_clients
    by (auto simp: lsr_acquire_def acq_spec_def duplicate_def granted_def u Let_def split: if_splits dest!: enq_revoker_clients)
qed

lemma release_spec: "ls_clients (snd (snd (lsr_release s lid cid xid))) = rel_spec (ls_clients s) lid cid"
  by (simp add: lsr_release_def rel_spec_def split: option.splits)

text \<open>
  C31: When a client gets a lock, and who is told.  With the unbounded queue the server creates,
  \<open>acquire\<close> crashes exactly on a repetition of the request that obtained the lock.  Otherwise it grants
  the lock iff nobody ever had it, or it is available and nobody waits for it or the requester is among
  those waiting; any other requester joins the waiting clients.  The primary queues the lock for
  revocation iff clients wait and it was granted just now or had no waiting client before.
\<close>

theorem acquire_behaviour:
  assumes "ff_max (ls_revoker s) = 0"
  shows "case lsr_acquire prim s lid cid xid of
      None \<Rightarrow> duplicate (ls_clients s) lid cid xid
    | Some (b, s') \<Rightarrow>
        (b, ls_clients s') = acq_spec (ls_clients s) lid cid xid \<and> \<not> duplicate (ls_clients s) lid cid xid \<and>
        ls_retryer s' = ls_retryer s \<and>
        ff_q (ls_revoker s') = ff_q (ls_revoker s) @
          (case (omap_find (ls_clients s) lid, omap_find (ls_clients s') lid) of
             (Some ci, Some ci') \<Rightarrow>
               if prim \<and> ci_waited ci' \<noteq> [] \<and> (b = lk_OK \<or> ci_waited ci = []) then [lid] else []
           | _ \<Rightarrow> [])"
proof (cases "lsr_acquire prim s lid cid xid")
  case None
  then show ?thesis using assms
    by (auto simp: lsr_acquire_def duplicate_def enq_revoker_def enq_def Let_def split: option.splits if_splits)
next
  case (Some r)
  then obtain b s' where r: "r = (b, s')" by fastforce
  have "set (oset_insert cid w) \<noteq> {}" for w by simp
  then have i: "oset_insert cid w \<noteq> []" for w by fastforce
  have "ls_retryer s' = ls_retryer s \<and> ff_q (ls_revoker s') = ff_q (ls_revoker s) @
          (case (omap_find (ls_clients s) lid, omap_find (ls_clients s') lid) of
             (Some ci, Some ci') \<Rightarrow>
               if prim \<and> ci_waited ci' \<noteq> [] \<and> (b = lk_OK \<or> ci_waited ci = []) then [lid] else []
           | _ \<Rightarrow> [])"
    using Some assms i unfolding r
    by (auto simp: lsr_acquire_def enq_revoker_def enq_def omap_find_set lock_codes Let_def split: option.splits if_splits)
  then show ?thesis using acquire_spec [of prim s lid cid xid b s'] Some by (simp add: r)
qed

theorem acquire_behaviour_witness:
  "\<exists>s. ls_clients s = [(5, \<lparr> ci_cid = ''a'', ci_xid = 1, ci_available = False, ci_waited = [] \<rparr>)] \<and>
     (\<exists>s'. lsr_acquire True s 5 ''b'' 9 = Some (lk_RETRY, s') \<and> ff_q (ls_revoker s') = [5]) \<and>
     lsr_acquire True s 5 ''a'' 1 = None \<and> duplicate (ls_clients s) 5 ''a'' 1"
proof -
  let ?s = "(lock_server_rsm_new 0)\<lparr> ls_clients :=
      [(5, \<lparr> ci_cid = ''a'', ci_xid = 1, ci_available = False, ci_waited = [] \<rparr>)] \<rparr>"
  have m: "ff_max (ls_revoker ?s) = 0" by (simp add: lock_server_rsm_new_def fifo_new_def)
  have a: "lsr_acquire True ?s 5 ''a'' 1 = None" by (simp add: lsr_acquire_def omap_find_def)
  obtain s' where b: "lsr_acquire True ?s 5 ''b'' 9 = Some (lk_RETRY, s')"
    by (simp add: lsr_acquire_def omap_find_def enq_revoker_def enq_def lock_server_rsm_new_def fifo_new_def)
  have q: "ff_q (ls_revoker s') = [5]"
    using acquire_behaviour [OF m, where prim = True and lid = 5 and cid = "''b''" and xid = 9] b
    by (auto simp: acq_spec_def granted_def omap_find_def lock_server_rsm_new_def fifo_new_def lock_codes)
  from acquire_behaviour [OF m, where prim = True and lid = 5 and cid = "''a''" and xid = 1] a b q show ?thesis
    by (intro exI [of _ ?s]) (simp add: lock_server_rsm_new_def)
qed

section \<open>The wire format of the lock table\<close>

lemma u_waited_eq: "u_waited n w u = map_option (\<lambda>(xs, u). (fold oset_insert xs w, u)) (u_repeat u_string n u)"
  by (induction n arbitrary: w u) (auto split: bind_splits)

definition u_waiters :: "unmarshall \<Rightarrow> (string list \<times> unmarshall) option" where
  "u_waiters u = do { (n, u) \<leftarrow> u_int u; u_waited (nat (sint n)) [] u }"

lemma nat_sint_of_nat: "k < 2 ^ 31 \<Longrightarrow> nat (sint (of_nat k :: u32)) = k"
  by (simp add: sint_uint uint_nat unat_of_nat signed_take_bit_int_eq_self)

interpretation waiters: codec "m_vector m_string" u_waiters "enc_vector enc_string" oset_ok
proof (rule codec_via [OF str.codec_counted [of "\<lambda>n. nat (sint n)"], where g = "\<lambda>w. w"
      and f = "\<lambda>w. fold oset_insert w []"])
  show "u_waiters u = map_option (\<lambda>(y, u). (fold oset_insert y [], u)) (str.u_counted (\<lambda>n. nat (sint n)) u)" for u
    by (simp add: u_waiters_def str.u_counted_def u_waited_eq signed_as_unsigned u_uint_unpack split: prod.splits)
qed (auto simp: nat_sint_of_nat oset_rebuild list_all_iff)

definition enc_client_info :: "client_info \<Rightarrow> byte list" where
  "enc_client_info ci = enc_string (ci_cid ci) @ enc_ulonglong (ci_xid ci) @ enc_bool (ci_available ci) @
     enc_vector enc_string (ci_waited ci)"

interpretation client_info: codec m_client_info u_client_info enc_client_info "\<lambda>ci. oset_ok (ci_waited ci)"
proof (rule codec_via [OF codec_pair [OF str.codec_axioms codec_pair [OF ulonglong.codec_axioms
        codec_pair [OF bool.codec_axioms waiters.codec_axioms]]],
      where g = "\<lambda>ci. (ci_cid ci, ci_xid ci, ci_available ci, ci_waited ci)"
        and f = "\<lambda>(c, x, a, w). \<lparr> ci_cid = c, ci_xid = x, ci_available = a, ci_waited = w \<rparr>"])
  show "u_client_info u = map_option (\<lambda>(y, u). ((\<lambda>(c, x, a, w). \<lparr> ci_cid = c, ci_xid = x, ci_available = a,
      ci_waited = w \<rparr>) y, u)) (u_pair u_string (u_pair u_ulonglong (u_pair u_bool u_waiters)) u)" for u
    by (auto simp: u_client_info_def u_pair_def u_waiters_def split: bind_splits)
qed (simp_all add: m_client_info_def m_pair_def m_vector_def enc_client_info_def enc_pair_def Let_def)

definition table_ok :: "(u64, client_info) omap \<Rightarrow> bool" where
  "table_ok m = (omap_ok m \<and> list_all (\<lambda>(lid, ci). oset_ok (ci_waited ci)) m)"

definition enc_table :: "(u64, client_info) omap \<Rightarrow> byte list" where
  "enc_table = enc_vector (enc_pair enc_ulonglong enc_client_info)"

lemma unmarshal_locks_eq:
  "unmarshal_locks n m u = map_option (\<lambda>(xs, u). (fold (\<lambda>(k, v) d. omap_set k v d) xs m, u))
     (u_repeat (u_pair u_ulonglong u_client_info) n u)"
proof -
  have "unmarshal_locks n m u = u_map_loop u_ulonglong u_client_info n m u"
    by (induction n arbitrary: m u) (auto split: bind_splits)
  then show ?thesis by (simp add: u_map_loop_eq)
qed

lemma unmarshal_marshal:
  assumes "table_ok (ls_clients s)" "length (enc_table (ls_clients s)) + RPC_HEADER_SZ \<le> MSG_LIMIT"
  shows "unmarshal_state junk (marshal_state junk' s) d =
    Some (d\<lparr> ls_clients := fold (\<lambda>(k, v) m. omap_set k v m) (ls_clients s) (ls_clients d) \<rparr>)"
proof -
  note c = codec.codec_vector [OF codec_pair [OF ulonglong.codec_axioms client_info.codec_axioms]]
  have m: "marshal_state junk' s = m_get_content (m_vector (m_pair m_ulonglong m_client_info) (marshall_new junk') (ls_clients s))"
    by (simp add: marshal_state_def m_vector_def m_pair_def case_prod_unfold)
  have "list_all (\<lambda>(x, y). True \<and> oset_ok (ci_waited y)) (ls_clients s)" using assms(1) by (simp add: table_ok_def)
  from string_message [OF c this, of junk junk'] assms(2)
  obtain u where "u_vector (u_pair u_ulonglong u_client_info) (unmarshall_of_string junk (marshal_state junk' s)) =
      Some (ls_clients s, u)" by (auto simp: m enc_table_def)
  then show ?thesis
    by (auto simp: unmarshal_state_def unmarshal_locks_eq u_vector_def split: bind_splits)
qed

lemma find_loaded:
  "omap_find (fold (\<lambda>(k, v) m. omap_set k v m) m m0) k =
     (case omap_find m k of None \<Rightarrow> omap_find m0 k | Some v \<Rightarrow> Some v)" if "omap_ok m"
proof -
  have "distinct (map fst m)" using that omap.entries_sorted sorted_wrt_less_distinct by blast
  then have "map_of (rev m) = map_of m" by (subst map_of_inject_set) (simp_all flip: rev_map)
  then show ?thesis using omap.find_fold_ins [of m m0 k] omap.find_entries [of m k] by simp
qed

text \<open>The transfer works into a server whose locks the sender knows as well.\<close>

definition fits :: "lock_server_rsm \<Rightarrow> lock_server_rsm \<Rightarrow> bool" where
  "fits s d =
     (table_ok (ls_clients s) \<and> length (enc_table (ls_clients s)) + RPC_HEADER_SZ \<le> MSG_LIMIT \<and>
      omap_ok (ls_clients d) \<and> fst ` set (ls_clients d) \<subseteq> fst ` set (ls_clients s))"

lemma loaded_eq:
  assumes "fits src dst"
  shows "fold (\<lambda>(k, v) m. omap_set k v m) (ls_clients src) (ls_clients dst) = ls_clients src"
proof (rule omap.dictionary_ext)
  have ok: "omap_ok (ls_clients src)" "omap_ok (ls_clients dst)" using assms by (simp_all add: fits_def table_ok_def)
  show "omap_find (fold (\<lambda>(k, v) m. omap_set k v m) (ls_clients src) (ls_clients dst)) k = omap_find (ls_clients src) k" for k
  proof (cases "omap_find (ls_clients src) k")
    case None
    then have "k \<notin> fst ` set (ls_clients dst)" using assms by (auto simp: fits_def omap_find_def map_of_eq_None_iff)
    then have "omap_find (ls_clients dst) k = None" by (simp add: omap_find_def map_of_eq_None_iff)
    then show ?thesis using None by (simp add: find_loaded [OF ok(1)])
  qed (simp add: find_loaded [OF ok(1)])
qed (use assms omap.invar_fold_ins in \<open>auto simp: fits_def table_ok_def\<close>)

interpretation lock_transfer: transferable_service "marshal_state junk" "unmarshal_state junk'" ls_clients fits
  for junk junk'
  by unfold_locales (auto simp: fits_def unmarshal_marshal loaded_eq)


text \<open>
  A lock the primary does not know survives the transfer.  \<open>unmarshal_state\<close> adds the locks it reads to
  those the backup has: whatever the backup recorded for a lock that the primary has no entry for is
  still there afterwards, so the two lock tables differ although the transfer succeeded.
\<close>

theorem transfer_keeps_stale_locks:
  assumes "table_ok (ls_clients s)" "length (enc_table (ls_clients s)) + RPC_HEADER_SZ \<le> MSG_LIMIT"
    and "omap_find (ls_clients s) lid = None" "omap_find (ls_clients d) lid = Some ci"
  shows "\<exists>d'. unmarshal_state junk (marshal_state junk' s) d = Some d' \<and>
    omap_find (ls_clients d') lid = Some ci \<and> ls_clients d' \<noteq> ls_clients s"
proof -
  have "omap_ok (ls_clients s)" using assms(1) by (simp add: table_ok_def)
  from find_loaded [OF this, of "ls_clients d" lid] assms(3,4) show ?thesis
    unfolding unmarshal_marshal [OF assms(1,2)] by auto
qed

definition lock_a :: "(u64, client_info) omap" where
  "lock_a = [(5, \<lparr> ci_cid = ''a'', ci_xid = 1, ci_available = False, ci_waited = [''b'', ''c''] \<rparr>)]"

lemma lock_a_ok: "table_ok lock_a" "table_ok []"
  "length (enc_table lock_a) + RPC_HEADER_SZ \<le> MSG_LIMIT" "length (enc_table []) + RPC_HEADER_SZ \<le> MSG_LIMIT"
  by (simp_all add: lock_a_def table_ok_def omap_ok_def enc_table_def enc_vector_def enc_pair_def enc_client_info_def
      enc_string_def enc_ulonglong_def enc_bool_def RPC_HEADER_SZ_24 limits)

theorem transfer_keeps_stale_locks_witness:
  "\<exists>d'. unmarshal_state (\<lambda>_. 0) (marshal_state (\<lambda>_. 0) (lock_server_rsm_new 0))
      ((lock_server_rsm_new 0)\<lparr> ls_clients := lock_a \<rparr>) = Some d' \<and>
    omap_find (ls_clients d') 5 = Some \<lparr> ci_cid = ''a'', ci_xid = 1, ci_available = False, ci_waited = [''b'', ''c''] \<rparr> \<and>
    ls_clients d' \<noteq> []"
  using transfer_keeps_stale_locks [of "lock_server_rsm_new 0" 5 "(lock_server_rsm_new 0)\<lparr> ls_clients := lock_a \<rparr>"
      "\<lparr> ci_cid = ''a'', ci_xid = 1, ci_available = False, ci_waited = [''b'', ''c''] \<rparr>" "\<lambda>_. 0" "\<lambda>_. 0"] lock_a_ok(2,4)
  by (simp add: lock_server_rsm_new_def omap_find_def lock_a_def)

definition lock_rsm :: "(u64, client_info) omap \<Rightarrow> lock_server_rsm rsm" where
  "lock_rsm m = \<lparr> rs_procs = [], rs_cfg = cfg_pair, rs_sob = (lock_server_rsm_new 0)\<lparr> ls_clients := m \<rparr>,
     rs_myvs = \<lparr> vs_vid = 1, vs_seqno = 1 \<rparr>,
     rs_last_myvs = (if m = [] then \<lparr> vs_vid = 0, vs_seqno = 0 \<rparr> else \<lparr> vs_vid = 1, vs_seqno = 3 \<rparr>), rs_primary = ''1'',
     rs_insync = True, rs_inviewchange = True, rs_vid_commit = 2, rs_vid_insync = 2, rs_backups = [''2''],
     rs_partitioned = False, rs_dopartition = False, rs_break1 = False, rs_break2 = False \<rparr>"


end
