(* ===== verification/Lock_Replicas.thy ===== *)
theory Lock_Replicas
  imports Lock_Server_Rsm
begin

text \<open>
  The lock server on the replicated state machine: it fulfils the contract \<open>replicated_service\<close>, so that
  the replicas of a view agree; and what goes wrong when the primary passes over a backup.
\<close>

section \<open>The lock service\<close>

definition lock_args :: "(nat \<Rightarrow> byte) \<Rightarrow> string \<Rightarrow> (u64 \<times> string \<times> u64) option" where
  "lock_args junk rq =
     map_option fst (u_pair u_ulonglong (u_pair u_string u_ulonglong) (unmarshall_of_string junk rq))"

text \<open>The lock table after a request, and the status sent back.\<close>

definition lock_next ::
  "(nat \<Rightarrow> byte) \<Rightarrow> (u64, client_info) omap \<Rightarrow> u32 \<times> string \<Rightarrow> u32 option \<times> (u64, client_info) omap" where
  "lock_next junk m = (\<lambda>(pn, rq).
     if pn = lk_stat then (Some lk_OK, m)
     else case lock_args junk rq of
       None \<Rightarrow> (None, m)
     | Some (lid, cid, xid) \<Rightarrow>
         if pn = lk_acquire then let (b, m') = acq_spec m lid cid xid in (Some b, m')
         else if pn = lk_release then (Some lk_OK, rel_spec m lid cid)
         else (None, m))"

definition reply_status :: "(nat \<Rightarrow> byte) \<Rightarrow> string \<Rightarrow> u32 option" where
  "reply_status junk rep = map_option fst (u_int (unmarshall_of_string junk rep))"

text \<open>What a node may have registered: its role and the uninitialised results are arbitrary.\<close>

definition runs_locks :: "string \<Rightarrow> (u32, lock_server_rsm handler) omap \<Rightarrow> bool" where
  "runs_locks n ps = (\<exists>rjunk prim. ps = lock_procs rjunk prim)"

lemma status_of_reply:
  "reply_status junk (m_get_content (m_string (m_int (marshall_new junk) b) (m_get_content (m_int (marshall_new junk) r)))) = Some b"
proof -
  let ?r = "m_get_content (m_int (marshall_new junk) r)"
  let ?s = "m_get_content (m_string (m_int (marshall_new junk) b) ?r)"
  have r: "length ?r = 4"
    using new_message(2) [OF cint.codec_axioms, of r junk] by (simp add: get_content_eq RPC_HEADER_SZ_24 limits)
  have s: "bytes_of_string ?s = enc_uint b @ enc_string ?r"
    using new_message(2) [OF codec_pair [OF cint.codec_axioms str.codec_axioms], of "(b, ?r)" junk] r
    by (simp add: get_content_eq m_pair_def enc_pair_def enc_string_def RPC_HEADER_SZ_24 limits)
  have "length ?s + RPC_HEADER_SZ < 2 ^ 31"
    using arg_cong [OF s, of length] r by (simp add: enc_string_def RPC_HEADER_SZ_24)
  note w = of_string [OF this, of junk]
  show ?thesis
    using cint.read_back [OF w(1,2), of b "enc_string ?r"] w(3) s by (auto simp: reply_status_def)
qed

lemma lock_execute:
  assumes "execute junk (lock_procs rj prim) sob pn rq = Some (rep, sob')"
  shows "lock_next junk (ls_clients sob) (pn, rq) = (reply_status junk rep, ls_clients sob')"
proof -
  have find: "omap_find (lock_procs rj prim) k =
     (if k = lk_stat then Some (rsm_fn1 u_ulonglong m_int (\<lambda>s lid. Some (lsr_stat s lid)))
      else if k = lk_release then Some (rsm_fn3 u_ulonglong u_string u_ulonglong m_int
           (\<lambda>s lid cid xid. Some (lsr_release s lid cid xid)))
      else if k = lk_acquire then Some (rsm_fn3 u_ulonglong u_string u_ulonglong m_int
           (\<lambda>s lid cid xid. map_option (\<lambda>(b, s'). (b, rj s, s')) (lsr_acquire prim s lid cid xid)))
      else None)" for k
    by (simp add: lock_procs_def omap_find_set) (simp add: omap_find_def)
  consider (st) "pn = lk_stat" | (rl) "pn = lk_release" | (aq) "pn = lk_acquire"
    using assms find by (cases "pn = lk_stat \<or> pn = lk_release \<or> pn = lk_acquire") (auto simp: execute_def)
  then show ?thesis
  proof cases
    case st
    then show ?thesis
      using assms by (auto simp: execute_def find rsm_fn1_def lock_next_def lsr_stat_def status_of_reply
          split: bind_splits if_splits)
  next
    case rl
    have n: "lk_release \<noteq> lk_stat" "lk_release \<noteq> lk_acquire" by (simp_all add: lock_codes)
    from rl show ?thesis
      using assms n release_spec
      by (auto simp: execute_def find rsm_fn_pair rsm_fn1_def lock_next_def lock_args_def lsr_release_def rel_spec_def
          status_of_reply split: bind_splits if_splits option.splits)
  next
    case aq
    have n: "lk_acquire \<noteq> lk_stat" "lk_acquire \<noteq> lk_release" by (simp_all add: lock_codes)
    from aq show ?thesis
      using assms n acquire_spec
      by (fastforce simp: execute_def find rsm_fn_pair rsm_fn1_def lock_next_def lock_args_def status_of_reply
          split: bind_splits if_splits)
  qed
qed

interpretation locks: replicated_service ls_clients "reply_status junk" "lock_next junk" runs_locks junk for junk
  by unfold_locales (auto simp: runs_locks_def dest: lock_execute)


section \<open>Runs of three replicas\<close>

text \<open>A member of the view \<open>p\<close>, \<open>q\<close>, \<open>r\<close> that executed nothing, or one acquisition of lock 5.\<close>

definition member :: "string \<Rightarrow> lock_server_rsm rsm" where
  "member n = \<lparr> rs_procs = lock_procs (\<lambda>_. 0) (n = ''p''),
     rs_cfg = cfg_demo\<lparr> cf_me := n, cf_acc := (cf_acc cfg_demo)\<lparr> a_values := [(1, cfg_value [''p'', ''q'', ''r''])] \<rparr> \<rparr>,
     rs_sob = lock_server_rsm_new 0, rs_myvs = \<lparr> vs_vid = 1, vs_seqno = 1 \<rparr>,
     rs_last_myvs = \<lparr> vs_vid = 0, vs_seqno = 0 \<rparr>, rs_primary = ''p'', rs_insync = False,
     rs_inviewchange = False, rs_vid_commit = 1, rs_vid_insync = 1, rs_backups = [],
     rs_partitioned = False, rs_dopartition = False, rs_break1 = False, rs_break2 = False \<rparr>"

definition held_by :: "string \<Rightarrow> (u64, client_info) omap" where
  "held_by c = [(5, \<lparr> ci_cid = c, ci_xid = 1, ci_available = False, ci_waited = [] \<rparr>)]"

definition did :: "string \<Rightarrow> string \<Rightarrow> lock_server_rsm rsm" where
  "did c n = bump ((member n)\<lparr> rs_sob := (lock_server_rsm_new 0)\<lparr> ls_clients := held_by c \<rparr> \<rparr>)"

definition acq :: "string \<Rightarrow> string" where
  "acq c = rsm_call3 m_ulonglong m_string m_ulonglong (\<lambda>_. 0) 5 c 1"

abbreviation vs1 :: viewstamp where
  "vs1 \<equiv> \<lparr> vs_vid = 1, vs_seqno = 1 \<rparr>"

lemma member_view: "rsm_view (member n) 1 = ([''p'', ''q'', ''r''], member n)"
  by (simp add: rsm_view_def get_view_wo_def member_def members_value is_word_def is_space_def omap_get_def
      omap_touch_def omap_find_def)

lemma member_fields [simp]:
  "rs_me (member n) = n" "rs_primary (member n) = ''p''" "\<not> rs_inviewchange (member n)" "rs_vid_commit (member n) = 1"
  "rs_myvs (member n) = vs1" "\<not> rs_break1 (member n)" "\<not> rs_dopartition (member n)"
  "rs_procs (member n) = lock_procs (\<lambda>_. 0) (n = ''p'')" "rs_sob (member n) = lock_server_rsm_new 0"
  by (simp_all add: member_def cfg_demo_def)

lemma exec_acq:
  assumes "length c < 2 ^ 20"
  shows "\<exists>rep. execute (\<lambda>_. 0) (lock_procs (\<lambda>_. 0) prim) (lock_server_rsm_new 0) lk_acquire (acq c) =
    Some (rep, (lock_server_rsm_new 0)\<lparr> ls_clients := held_by c \<rparr>)"
proof -
  have "omap_find (lock_procs (\<lambda>_. 0) prim) lk_acquire = Some (rsm_fn3 u_ulonglong u_string u_ulonglong m_int
      (\<lambda>s lid cid xid. map_option (\<lambda>(b, s'). (b, 0, s')) (lsr_acquire prim s lid cid xid)))"
    by (simp add: lock_procs_def omap_find_def lock_codes)
  note f = this [unfolded rsm_fn_pair]
  note c3 = codec_pair [OF ulonglong.codec_axioms codec_pair [OF str.codec_axioms ulonglong.codec_axioms]]
  have "call_gives (\<lambda>_. 0, \<lambda>_. 0) (lock_procs (\<lambda>_. 0) prim) (lock_server_rsm_new 0) lk_acquire (acq c) u_int
      (lk_OK, 0, (lock_server_rsm_new 0)\<lparr> ls_clients := held_by c \<rparr>)"
    unfolding acq_def rsm_call_pair
    by (rule execute_call [OF c3 _ _ cint.codec_axioms _ _ f]) (use assms in \<open>simp_all add: enc_pair_def enc_string_def
        enc_ulonglong_def RPC_HEADER_SZ_24 limits lsr_acquire_def lock_server_rsm_new_def omap_find_def held_by_def lock_codes\<close>)
  then show ?thesis by (auto simp: call_gives_def split: option.splits)
qed

lemma invoke_acq:
  assumes "length c < 2 ^ 20" "n \<in> {''p'', ''q'', ''r''}"
  shows "invoke_begin (member n) vs1 = (rp_OK, member n)" "invoke_end (\<lambda>_. 0) (member n) lk_acquire (acq c) = Some (did c n)"
proof -
  show "invoke_begin (member n) vs1 = (rp_OK, member n)"
    using assms(2) by (auto simp: invoke_begin_def rsm_ismember_eq member_view)
  show "invoke_end (\<lambda>_. 0) (member n) lk_acquire (acq c) = Some (did c n)"
    using exec_acq [OF assms(1), of "n = ''p''"] by (auto simp: invoke_end_Some did_def)
qed

lemma finish_acq:
  assumes "length c < 2 ^ 20"
  shows "\<exists>rep. client_invoke_end (\<lambda>_. 0) (member n) lk_acquire (acq c) = Some (rep, did c n)"
  using exec_acq [OF assms, of "n = ''p''"] by (auto simp: client_invoke_end_def rsm_execute_def did_def bump_def)

text \<open>The state of the system: the members, the current request and what was sent and answered.\<close>

definition sys where
  "sys nodes cur msgs busy oks lg ans = \<lparr> cl_node = nodes, cl_cur = cur, cl_msgs = msgs, cl_busy = busy, cl_oks = oks,
     cl_log = lg, cl_answers = ans \<rparr>" for nodes :: "string \<Rightarrow> lock_server_rsm rsm"

lemma sys_start:
  "cl_start runs_locks ls_clients ''p'' [''p'', ''q'', ''r''] 1 [] (sys member None [] (\<lambda>_. []) [] (\<lambda>_. []) [])"
  by (auto simp: cl_start_def sys_def member_view runs_locks_def lock_server_rsm_new_def)

text \<open>The steps of these runs.\<close>

lemma sys_request:
  "nodes ''p'' = member ''p'' \<Longrightarrow> cl_exec skip False junk ''p'' (Request pn rq) (sys nodes None msgs bz oks lg ans) =
     Some (sys nodes (Some (pn, rq, [''q'', ''r''])) msgs bz oks lg ans)"
  by (simp add: sys_def client_invoke_begin_def member_view fun_upd_idem)

lemma sys_send:
  "nodes ''p'' = member ''p'' \<Longrightarrow> cl_exec skip False junk ''p'' SendInvoke (sys nodes (Some (pn, rq, b # bs)) msgs bz oks lg ans) =
     Some (sys nodes (Some (pn, rq, b # bs)) ((b, vs1, pn, rq) # msgs) bz oks lg ans)"
  by (simp add: sys_def)

lemma sys_begin:
  "nodes b = member b \<Longrightarrow> b \<in> {''p'', ''q'', ''r''} \<Longrightarrow> length c < 2 ^ 20 \<Longrightarrow>
   cl_exec skip False junk ''p'' (BeginInvoke b vs1 lk_acquire (acq c))
     (sys nodes cur ((b, vs1, lk_acquire, acq c) # msgs) (\<lambda>_. []) oks lg ans) =
     Some (sys nodes cur ((b, vs1, lk_acquire, acq c) # msgs) ((\<lambda>_. [])(b := [(vs1, lk_acquire, acq c)])) oks lg ans)"
  using invoke_acq(1) [of c b] by (auto simp: sys_def fun_upd_idem)

lemma sys_end:
  "nodes b = member b \<Longrightarrow> b \<in> {''p'', ''q'', ''r''} \<Longrightarrow> length c < 2 ^ 20 \<Longrightarrow>
   cl_exec skip False (\<lambda>_. 0) ''p'' (EndInvoke b vs1 lk_acquire (acq c))
     (sys nodes cur msgs ((\<lambda>_. [])(b := [(vs1, lk_acquire, acq c)])) oks lg ans) =
     Some (sys (nodes(b := did c b)) cur msgs (\<lambda>_. []) ((b, vs1, lk_acquire, acq c) # oks)
       (lg(b := lg b @ [(lk_acquire, acq c)])) ans)"
  using invoke_acq(2) [of c b] by (auto simp: sys_def fun_eq_iff)

lemma sys_next:
  "nodes ''p'' = member ''p'' \<Longrightarrow> next_backup ''p'' (sys nodes (Some (pn, rq, b # bs)) msgs bz oks lg ans) =
     Some (sys nodes (Some (pn, rq, bs)) msgs bz oks lg ans)"
  by (simp add: sys_def next_backup_def breakpoint1_def partition1_def fun_upd_idem)

lemma sys_ok:
  "nodes ''p'' = member ''p'' \<Longrightarrow>
   cl_exec skip False junk ''p'' GotOk (sys nodes (Some (pn, rq, b # bs)) msgs bz ((b, vs1, pn, rq) # oks) lg ans) =
     Some (sys nodes (Some (pn, rq, bs)) msgs bz ((b, vs1, pn, rq) # oks) lg ans)"
  using sys_next [of nodes] by (simp add: sys_def)

lemma sys_finish:
  assumes "nodes ''p'' = member ''p''" "length c < 2 ^ 20"
  obtains rep where "cl_exec skip False (\<lambda>_. 0) ''p'' Finish (sys nodes (Some (lk_acquire, acq c, [])) msgs bz oks lg ans) =
     Some (sys (nodes(''p'' := did c ''p'')) None msgs bz oks (lg(''p'' := lg ''p'' @ [(lk_acquire, acq c)]))
       (((lk_acquire, acq c), rep) # ans))"
  using finish_acq [OF assms(2), of "''p''"] assms(1) by (auto simp: sys_def)

text \<open>The request of \<open>c\<close>, executed by the first backup.\<close>

lemma first_backup:
  assumes "length c < 2 ^ 20"
  shows "cl_reach runs_locks ls_clients skip False (\<lambda>_. 0) ''p'' [''p'', ''q'', ''r''] 1 []
    (sys (member(''q'' := did c ''q'')) (Some (lk_acquire, acq c, [''r''])) [(''q'', vs1, lk_acquire, acq c)]
       (\<lambda>_. []) [(''q'', vs1, lk_acquire, acq c)] ((\<lambda>_. [])(''q'' := [(lk_acquire, acq c)])) [])"
proof -
  let ?R = "cl_reach runs_locks ls_clients skip False (\<lambda>_. 0) ''p'' [''p'', ''q'', ''r''] 1 []"
  have 0: "?R (sys member None [] (\<lambda>_. []) [] (\<lambda>_. []) [])" by (rule cl_reach.init [OF sys_start])
  note 1 = cl_reach.step [OF 0 sys_request, of lk_acquire "acq c"]
  note 2 = cl_reach.step [OF 1 sys_send]
  note 3 = cl_reach.step [OF cl_reach.step [OF 2 sys_begin] sys_end]
  note 4 = cl_reach.step [OF 3 sys_ok]
  from 4 show ?thesis using assms by simp
qed


text \<open>
  C36: Passing over a backup lets the replicas diverge.  \<open>client_invoke\<close> goes on when a backup's handle
  cannot be bound.  There is a run of three replicas in which the first backup executes a request of
  \<open>a\<close> that is then abandoned because the second backup fails, and is passed over for the request of \<open>b\<close>
  that follows: afterwards primary and backup have the same viewstamp, one holds lock 5 for \<open>b\<close>, which was
  told so, and the other for \<open>a\<close>.
\<close>

theorem lock_replicas_diverge:
  "\<exists>s rep. cl_reach runs_locks ls_clients True False (\<lambda>_. 0) ''p'' [''p'', ''q'', ''r''] 1 [] s \<and>
     rs_myvs (cl_node s ''q'') = rs_myvs (cl_node s ''p'') \<and> rs_last_myvs (cl_node s ''q'') = rs_last_myvs (cl_node s ''p'') \<and>
     ls_clients (rs_sob (cl_node s ''q'')) = held_by ''a'' \<and> ls_clients (rs_sob (cl_node s ''p'')) = held_by ''b'' \<and>
     cl_answers s = [((lk_acquire, acq ''b''), rep)]"
proof -
  let ?R = "cl_reach runs_locks ls_clients True False (\<lambda>_. 0) ''p'' [''p'', ''q'', ''r''] 1 []"
  have fail: "cl_exec True False (\<lambda>_. 0) ''p'' GotFail (sys n (Some c) m bz oks lg ans) = Some (sys n None m bz oks lg ans)"
    for n c m bz oks lg ans by (simp add: sys_def)
  have skip: "n ''p'' = member ''p'' \<Longrightarrow> cl_exec True False (\<lambda>_. 0) ''p'' SkipOne (sys n (Some (pn, rq, b # bs)) m bz oks lg ans) =
      Some (sys n (Some (pn, rq, bs)) m bz oks lg ans)" for n pn rq b bs m bz oks lg ans
    using sys_next [of n] by simp
  note 4 = first_backup [of "''a''" True]
  note 5 = cl_reach.step [OF 4 fail]
  note 6 = cl_reach.step [OF 5 sys_request, of lk_acquire "acq ''b''"]
  note 7 = cl_reach.step [OF 6 skip]
  note 8 = cl_reach.step [OF 7 sys_send]
  note 9 = cl_reach.step [OF cl_reach.step [OF 8 sys_begin] sys_end]
  note 10 = cl_reach.step [OF 9 sys_ok]
  define M where "M = [(''r'', vs1, lk_acquire, acq ''b''), (''q'', vs1, lk_acquire, acq ''a'')]"
  define N where "N = member(''q'' := did ''a'' ''q'', ''r'' := did ''b'' ''r'')"
  define L where "L = (\<lambda>_. [])(''q'' := [(lk_acquire, acq ''a'')], ''r'' := [(lk_acquire, acq ''b'')])"
  have f: "?R (sys N (Some (lk_acquire, acq ''b'', [])) M (\<lambda>_. []) M L [])"
    using 10 by (simp add: M_def N_def L_def)
  have "N ''p'' = member ''p''" by (simp add: N_def)
  from this sys_finish [of N "''b''" True M "\<lambda>_. []" M L "[]"] obtain rep where
    "cl_exec True False (\<lambda>_. 0) ''p'' Finish (sys N (Some (lk_acquire, acq ''b'', [])) M (\<lambda>_. []) M L []) =
       Some (sys (N(''p'' := did ''b'' ''p'')) None M (\<lambda>_. []) M (L(''p'' := L ''p'' @ [(lk_acquire, acq ''b'')]))
         [((lk_acquire, acq ''b''), rep)])" (is "_ = Some ?s") by auto
  note 11 = cl_reach.step [OF f this]
  from 11 show ?thesis by (intro exI [of _ ?s] exI [of _ rep]) (simp add: sys_def did_def bump_def N_def)
qed

end
