(* ===== verification/Lock_Client_Rsm.thy ===== *)
theory Lock_Client_Rsm
  imports Lock_Protocol Containers "HOL-Library.Monad_Syntax"
begin

text \<open>
  The lock client with a cache (\<open>lock_client_cache_rsm.cc\<close>, \<open>lock_client_cache_rsm.h\<close>).  Its methods release
  their mutex around each RPC, so each is split there: a part before the call, which says what the
  thread does next, and a part after it.  \<open>None\<close> is a failed \<open>assert\<close> or \<open>VERIFY\<close>.
\<close>

datatype lc_status = LC_NONE | LC_ACQUIRING | LC_LOCKED | LC_RELEASING | LC_FREE

record lock_info =
  li_revoked :: bool
  li_stat :: lc_status
  li_retry :: bool

definition lock_info_new :: lock_info where
  "lock_info_new = \<lparr> li_revoked = False, li_stat = LC_NONE, li_retry = False \<rparr>"

record lock_client_rsm =
  lc_id :: string
  lc_xid :: u64
  lc_locks :: "(u64, lock_info) omap"

definition lock_client_rsm_new :: "string \<Rightarrow> lock_client_rsm" where
  "lock_client_rsm_new me = \<lparr> lc_id = me, lc_xid = 0, lc_locks = [] \<rparr>"

text \<open>\<open>locks[lid]\<close>, which creates a missing entry.\<close>

definition lc_info :: "lock_client_rsm \<Rightarrow> u64 \<Rightarrow> lock_info" where
  "lc_info c lid = omap_get lock_info_new (lc_locks c) lid"

definition lc_touch :: "u64 \<Rightarrow> lock_client_rsm \<Rightarrow> lock_client_rsm" where
  "lc_touch lid c = c\<lparr> lc_locks := omap_touch lock_info_new lid (lc_locks c) \<rparr>"

definition lc_put :: "u64 \<Rightarrow> lock_info \<Rightarrow> lock_client_rsm \<Rightarrow> lock_client_rsm" where
  "lc_put lid i c = c\<lparr> lc_locks := omap_set lid i (lc_locks c) \<rparr>"

text \<open>What a thread does after the first part of a method: call the server, wait for \<open>lcond\<close>, or return.\<close>

datatype lc_next = CallServer | WaitLock | Return

definition lc_acquire_begin :: "lock_client_rsm \<Rightarrow> u64 \<Rightarrow> lc_next \<times> lock_client_rsm" where
  "lc_acquire_begin c lid =
     (let c = lc_touch lid c; i = lc_info c lid
      in case li_stat i of
           LC_NONE \<Rightarrow> (CallServer, (lc_put lid (i\<lparr> li_stat := LC_ACQUIRING \<rparr>) c)\<lparr> lc_xid := lc_xid c + 1 \<rparr>)
         | LC_FREE \<Rightarrow> (Return, lc_put lid (i\<lparr> li_stat := LC_LOCKED \<rparr>) c)
         | _ \<Rightarrow> (WaitLock, c))"

text \<open>The arguments of the call are read when it is made, with the mutex released.\<close>

definition lc_args :: "lock_client_rsm \<Rightarrow> u64 \<Rightarrow> u64 \<times> string \<times> u64" where
  "lc_args c lid = (lid, lc_id c, lc_xid c)"

text \<open>After \<open>RETRY\<close>: the thread waits for a retry message or for three seconds, and calls again.\<close>

definition lc_acquire_retry :: "lock_client_rsm \<Rightarrow> u64 \<Rightarrow> bool \<Rightarrow> lock_client_rsm option" where
  "lc_acquire_retry c lid timeout =
     (let i = lc_info c lid
      in if li_retry i \<or> timeout then Some (lc_put lid (i\<lparr> li_retry := False \<rparr>) c) else None)"

definition lc_acquire_end :: "lock_client_rsm \<Rightarrow> u64 \<Rightarrow> u32 \<Rightarrow> lock_client_rsm option" where
  "lc_acquire_end c lid ret =
     (if ret \<noteq> lk_OK then None else Some (lc_put lid ((lc_info c lid)\<lparr> li_stat := LC_LOCKED \<rparr>) c))"

definition lc_release_begin :: "lock_client_rsm \<Rightarrow> u64 \<Rightarrow> (lc_next \<times> lock_client_rsm) option" where
  "lc_release_begin c lid =
     (let c = lc_touch lid c; i = lc_info c lid
      in if li_stat i = LC_NONE then Some (Return, c)
         else if \<not> (li_stat i = LC_LOCKED \<or> li_stat i = LC_FREE) then None
         else if \<not> li_revoked i then Some (Return, lc_put lid (i\<lparr> li_stat := LC_FREE \<rparr>) c)
         else Some (CallServer, lc_put lid (i\<lparr> li_stat := LC_RELEASING \<rparr>) c))"

definition lc_release_end :: "lock_client_rsm \<Rightarrow> u64 \<Rightarrow> u32 \<Rightarrow> lock_client_rsm option" where
  "lc_release_end c lid ret =
     (if ret \<noteq> lk_OK then None
      else Some (lc_put lid ((lc_info c lid)\<lparr> li_stat := LC_NONE, li_revoked := False \<rparr>) c))"

definition lc_revoke_begin :: "lock_client_rsm \<Rightarrow> u64 \<Rightarrow> lc_next \<times> lock_client_rsm" where
  "lc_revoke_begin c lid =
     (let i = (lc_info c lid)\<lparr> li_revoked := True \<rparr>
      in if li_stat i = LC_FREE then (CallServer, lc_put lid (i\<lparr> li_stat := LC_RELEASING \<rparr>) c)
         else (Return, lc_put lid i c))"

definition lc_revoke_end :: "lock_client_rsm \<Rightarrow> u64 \<Rightarrow> u32 \<Rightarrow> lock_client_rsm option" where
  "lc_revoke_end c lid ret =
     (if ret \<noteq> lk_OK then None
      else Some (lc_put lid ((lc_info c lid)\<lparr> li_stat := LC_NONE, li_revoked := False \<rparr>) c))"

definition lc_retry_handler :: "lock_client_rsm \<Rightarrow> u64 \<Rightarrow> lock_client_rsm" where
  "lc_retry_handler c lid = lc_put lid ((lc_info c lid)\<lparr> li_retry := True \<rparr>) c"

text \<open>Reading back what was written.\<close>

lemma lc_simps [simp]:
  "lc_info (lc_put lid i c) lid' = (if lid' = lid then i else lc_info c lid')" "lc_info (lc_touch lid c) = lc_info c"
  "lc_info (c\<lparr> lc_xid := x \<rparr>) = lc_info c"
  "lc_id (lc_put lid i c) = lc_id c" "lc_id (lc_touch lid c) = lc_id c"
  "lc_xid (lc_put lid i c) = lc_xid c" "lc_xid (lc_touch lid c) = lc_xid c"
  by (auto simp: lc_info_def lc_put_def lc_touch_def omap_get_set fun_eq_iff)

end
