(* ===== verification/Lock_Exclusion.thy ===== *)
theory Lock_Exclusion
  imports Lock_Server_Rsm Lock_Client_Rsm
begin

text \<open>
  The caching clients and the lock server together.  The server is one copy of the replicated table: a
  request takes effect in one step, the replies travel separately, and revoke and retry messages reach any
  client at any time.  The theorems are about the locks that threads hold between the return of
  \<open>acquire\<close> and their call of \<open>release\<close>.
\<close>

section \<open>The system\<close>

text \<open>Where the thread that talks to the server about a lock stands.\<close>

datatype lpc = Idle | ACall | AGot u32 | RCall | RGot u32

record lsys =
  sy_srv :: lock_server_rsm
  sy_cl :: "string \<Rightarrow> lock_client_rsm"
  sy_pc :: "string \<Rightarrow> u64 \<Rightarrow> lpc"
  sy_held :: "string \<Rightarrow> u64 \<Rightarrow> nat"                \<comment> \<open>history: threads that hold the lock\<close>
  sy_sent :: "(u64 \<times> string \<times> u64) list"          \<comment> \<open>history: release requests executed\<close>

datatype levent =
    EAcq string u64 | ECallA string u64 | EGotA string u64 bool | ERel string u64 | ECallR string u64
  | EGotR string u64 | ERevoke string u64 | ERetry string u64 | ESrvRevoke | ESrvRevoked u64 | ESrvRetry
  | EDupRel u64 string u64

abbreviation set_cl :: "string \<Rightarrow> lock_client_rsm \<Rightarrow> lsys \<Rightarrow> lsys" where
  "set_cl c x s \<equiv> s\<lparr> sy_cl := (sy_cl s)(c := x) \<rparr>"

abbreviation set_pc :: "string \<Rightarrow> u64 \<Rightarrow> lpc \<Rightarrow> lsys \<Rightarrow> lsys" where
  "set_pc c lid q s \<equiv> s\<lparr> sy_pc := (sy_pc s)(c := (sy_pc s c)(lid := q)) \<rparr>"

abbreviation set_held :: "string \<Rightarrow> u64 \<Rightarrow> nat \<Rightarrow> lsys \<Rightarrow> lsys" where
  "set_held c lid n s \<equiv> s\<lparr> sy_held := (sy_held s)(c := (sy_held s c)(lid := n)) \<rparr>"

text \<open>\<open>dup\<close> admits a further execution of a release request that was executed before.\<close>

fun l_exec :: "bool \<Rightarrow> levent \<Rightarrow> lsys \<Rightarrow> lsys option" where
  "l_exec dup (EAcq c lid) s =
     (if lc_xid (sy_cl s c) + 1 = 0 then None
      else case lc_acquire_begin (sy_cl s c) lid of
        (CallServer, x) \<Rightarrow> Some (set_pc c lid ACall (set_cl c x s))
      | (Return, x) \<Rightarrow> Some (set_held c lid (sy_held s c lid + 1) (set_cl c x s))
      | (WaitLock, x) \<Rightarrow> None)"
| "l_exec dup (ECallA c lid) s =
     (if sy_pc s c lid = ACall then
        let (l, me, xid) = lc_args (sy_cl s c) lid
        in map_option (\<lambda>(b, srv). set_pc c lid (AGot b) (s\<lparr> sy_srv := srv \<rparr>)) (lsr_acquire True (sy_srv s) l me xid)
      else None)"
| "l_exec dup (EGotA c lid timeout) s =
     (case sy_pc s c lid of
        AGot b \<Rightarrow>
          if b = lk_RETRY
          then map_option (\<lambda>x. set_pc c lid ACall (set_cl c x s)) (lc_acquire_retry (sy_cl s c) lid timeout)
          else map_option (\<lambda>x. set_held c lid (sy_held s c lid + 1) (set_pc c lid Idle (set_cl c x s)))
                 (lc_acquire_end (sy_cl s c) lid b)
      | _ \<Rightarrow> None)"
| "l_exec dup (ERel c lid) s =
     (if sy_held s c lid = 0 then None
      else case lc_release_begin (sy_cl s c) lid of
        None \<Rightarrow> None
      | Some (n, x) \<Rightarrow>
          let s = set_held c lid (sy_held s c lid - 1) (set_cl c x s)
          in Some (if n = CallServer then set_pc c lid RCall s else s))"
| "l_exec dup (ECallR c lid) s =
     (if sy_pc s c lid = RCall then
        let (l, me, xid) = lc_args (sy_cl s c) lid; (b, r, srv) = lsr_release (sy_srv s) l me xid
        in Some (set_pc c lid (RGot b) (s\<lparr> sy_srv := srv, sy_sent := (l, me, xid) # sy_sent s \<rparr>))
      else None)"
| "l_exec dup (EGotR c lid) s =
     (case sy_pc s c lid of
        RGot b \<Rightarrow> map_option (\<lambda>x. set_pc c lid Idle (set_cl c x s)) (lc_release_end (sy_cl s c) lid b)
      | _ \<Rightarrow> None)"
| "l_exec dup (ERevoke c lid) s =
     (let (n, x) = lc_revoke_begin (sy_cl s c) lid; s = set_cl c x s
      in Some (if n = CallServer then set_pc c lid RCall s else s))"
| "l_exec dup (ERetry c lid) s = Some (set_cl c (lc_retry_handler (sy_cl s c) lid) s)"
| "l_exec dup ESrvRevoke s = map_option (\<lambda>(lid, srv). s\<lparr> sy_srv := srv \<rparr>) (revoker_take (sy_srv s))"
| "l_exec dup (ESrvRevoked lid) s = map_option (\<lambda>srv. s\<lparr> sy_srv := srv \<rparr>) (revoker_end (sy_srv s) lid (Some rl_OK))"
| "l_exec dup ESrvRetry s = map_option (\<lambda>(lid, srv). s\<lparr> sy_srv := srv \<rparr>) (retryer_take (sy_srv s))"
| "l_exec dup (EDupRel lid c xid) s =
     (if dup \<and> (lid, c, xid) \<in> set (sy_sent s)
      then let (b, r, srv) = lsr_release (sy_srv s) lid c xid in Some (s\<lparr> sy_srv := srv \<rparr>)
      else None)"

definition l_start :: lsys where
  "l_start = \<lparr> sy_srv = lock_server_rsm_new 0, sy_cl = lock_client_rsm_new, sy_pc = (\<lambda>_ _. Idle),
     sy_held = (\<lambda>_ _. 0), sy_sent = [] \<rparr>"

inductive l_reach :: "bool \<Rightarrow> lsys \<Rightarrow> bool" for dup where
  init: "l_reach dup l_start"
| step: "l_reach dup s \<Longrightarrow> l_exec dup ev s = Some s' \<Longrightarrow> l_reach dup s'"

section \<open>The invariant\<close>

abbreviation sy_stat :: "lsys \<Rightarrow> string \<Rightarrow> u64 \<Rightarrow> lc_status" where
  "sy_stat s c lid \<equiv> li_stat (lc_info (sy_cl s c) lid)"

text \<open>What the place of the thread says about the status of the lock at the client.\<close>

fun pc_stat :: "lpc \<Rightarrow> lc_status set" where
  "pc_stat Idle = {LC_NONE, LC_LOCKED, LC_FREE}"
| "pc_stat ACall = {LC_ACQUIRING}"
| "pc_stat (AGot b) = (if b = lk_OK \<or> b = lk_RETRY then {LC_ACQUIRING} else {})"
| "pc_stat RCall = {LC_RELEASING}"
| "pc_stat (RGot b) = (if b = lk_OK then {LC_RELEASING} else {})"

text \<open>The client has the lock, as far as it knows or will know from the reply on its way.\<close>

definition owner :: "lsys \<Rightarrow> string \<Rightarrow> u64 \<Rightarrow> bool" where
  "owner s c lid = (sy_stat s c lid \<in> {LC_LOCKED, LC_FREE} \<or> sy_pc s c lid \<in> {AGot lk_OK, RCall})"

definition trying :: "lsys \<Rightarrow> string \<Rightarrow> u64 \<Rightarrow> bool" where
  "trying s c lid = (sy_pc s c lid \<in> {ACall, AGot lk_RETRY})"

text \<open>Holder, availability and request number of a lock at the server.\<close>

definition entry :: "lock_server_rsm \<Rightarrow> u64 \<Rightarrow> (string \<times> bool \<times> u64) option" where
  "entry srv lid = map_option (\<lambda>ci. (ci_cid ci, ci_available ci, ci_xid ci)) (omap_find (ls_clients srv) lid)"

definition cl_ok :: "lsys \<Rightarrow> string \<Rightarrow> u64 \<Rightarrow> bool" where
  "cl_ok s c lid =
     (lc_id (sy_cl s c) = c \<and> sy_stat s c lid \<in> pc_stat (sy_pc s c lid) \<and>
      sy_held s c lid = (if sy_stat s c lid = LC_LOCKED then 1 else 0) \<and>
      (owner s c lid \<longrightarrow> (\<exists>x. entry (sy_srv s) lid = Some (c, False, x))) \<and>
      (\<forall>a x. entry (sy_srv s) lid = Some (c, a, x) \<longrightarrow>
         x \<le> lc_xid (sy_cl s c) \<and> (trying s c lid \<longrightarrow> x < lc_xid (sy_cl s c))))"

definition l_inv :: "lsys \<Rightarrow> bool" where
  "l_inv s =
     (ff_max (ls_revoker (sy_srv s)) = 0 \<and> ff_max (ls_retryer (sy_srv s)) = 0 \<and> (\<forall>c lid. cl_ok s c lid))"

lemma l_invD:
  assumes "l_inv s"
  shows "ff_max (ls_revoker (sy_srv s)) = 0" "ff_max (ls_retryer (sy_srv s)) = 0" "cl_ok s c lid"
  using assms by (simp_all add: l_inv_def)

lemma cl_ok_owner: "cl_ok s c lid \<Longrightarrow> owner s c lid \<Longrightarrow> \<exists>x. entry (sy_srv s) lid = Some (c, False, x)"
  by (simp add: cl_ok_def)

lemma cl_ok_frame:
  assumes "cl_ok s c lid" "lc_id (sy_cl s' c) = lc_id (sy_cl s c)" "sy_stat s' c lid = sy_stat s c lid"
    and "lc_xid (sy_cl s c) \<le> lc_xid (sy_cl s' c)" "sy_pc s' c lid = sy_pc s c lid" "sy_held s' c lid = sy_held s c lid"
    and "entry (sy_srv s') lid = entry (sy_srv s) lid"
  shows "cl_ok s' c lid"
  using assms unfolding cl_ok_def owner_def trying_def by (auto intro: order_trans less_le_trans)

text \<open>The requests at the server.\<close>

lemma acquire_entry:
  assumes "lsr_acquire prim srv lid c xid = Some (b, srv')"
  shows "(b = lk_OK \<and> entry srv' lid = Some (c, False, xid) \<and> (\<forall>c' x. entry srv lid \<noteq> Some (c', False, x)) \<or>
      b = lk_RETRY \<and> entry srv' lid = entry srv lid)"
    and "l \<noteq> lid \<Longrightarrow> entry srv' l = entry srv l"
    and "ff_max (ls_revoker srv') = ff_max (ls_revoker srv)" "ls_retryer srv' = ls_retryer srv"
proof -
  have e: "enq_revoker prim lid t = Some t' \<Longrightarrow> ff_max (ls_revoker t') = ff_max (ls_revoker t) \<and> ls_retryer t' = ls_retryer t"
    for t t' by (auto simp: enq_revoker_def enq_def split: if_splits)
  show "ff_max (ls_revoker srv') = ff_max (ls_revoker srv)" "ls_retryer srv' = ls_retryer srv"
    using assms by (auto simp: lsr_acquire_def Let_def split: option.splits if_splits dest!: e)
  have a: "acq_spec (ls_clients srv) lid c xid = (b, ls_clients srv')" using acquire_spec [OF assms] by simp
  show "(b = lk_OK \<and> entry srv' lid = Some (c, False, xid) \<and> (\<forall>c' x. entry srv lid \<noteq> Some (c', False, x)) \<or>
      b = lk_RETRY \<and> entry srv' lid = entry srv lid)"
  proof (cases "omap_find (ls_clients srv) lid")
    case None
    then have "b = lk_OK" "ls_clients srv' =
        omap_set lid \<lparr> ci_cid = c, ci_xid = xid, ci_available = False, ci_waited = [] \<rparr> (ls_clients srv)"
      using a by (simp_all add: acq_spec_def)
    then show ?thesis by (simp add: entry_def omap_find_set None)
  next
    case (Some ci)
    show ?thesis
    proof (cases "granted ci c")
      case True
      then have "b = lk_OK" "ls_clients srv' = omap_set lid \<lparr> ci_cid = c, ci_xid = xid, ci_available = False,
          ci_waited = oset_erase c (ci_waited ci) \<rparr> (ls_clients srv)"
        using a Some by (simp_all add: acq_spec_def)
      then show ?thesis using True by (simp add: entry_def omap_find_set Some granted_def)
    next
      case False
      then have "b = lk_RETRY" "ls_clients srv' = ls_clients srv \<or>
          ls_clients srv' = omap_set lid (ci\<lparr> ci_waited := oset_insert c (ci_waited ci) \<rparr>) (ls_clients srv)"
        using a Some by (auto simp: acq_spec_def split: if_splits)
      then show ?thesis by (auto simp: entry_def omap_find_set Some)
    qed
  qed
  have "ls_clients srv' = snd (acq_spec (ls_clients srv) lid c xid)" by (simp add: a)
  then show "l \<noteq> lid \<Longrightarrow> entry srv' l = entry srv l"
    by (auto simp: acq_spec_def entry_def omap_find_set split: option.splits if_splits)
qed

lemma acquire_crash:
  "lsr_acquire prim srv lid c xid = None \<Longrightarrow> ff_max (ls_revoker srv) = 0 \<Longrightarrow> \<exists>a. entry srv lid = Some (c, a, xid)"
  by (auto simp: lsr_acquire_def entry_def enq_revoker_def enq_def Let_def split: option.splits if_splits)

lemma release_entry:
  assumes "lsr_release srv lid c xid = (b, r, srv')"
  shows "b = lk_OK" "entry srv' l =
    (case entry srv l of Some (c', a, x) \<Rightarrow> Some (c', a \<or> l = lid \<and> c' = c, x) | None \<Rightarrow> None)"
    and "ls_revoker srv' = ls_revoker srv" "ls_retryer srv' = ls_retryer srv"
  using assms by (auto simp: lsr_release_def entry_def omap_find_set split: option.splits if_splits)

section \<open>Every step keeps it\<close>

lemma less_Suc_word: "(x :: u64) + 1 \<noteq> 0 \<Longrightarrow> x < x + 1"
  using unatSuc [of x] by (simp add: word_less_nat_alt add.commute)

text \<open>A step of client \<open>c\<close> on lock \<open>lid\<close> that leaves the server alone.\<close>

lemma inv_client:
  assumes "l_inv s" "sy_srv s' = sy_srv s" "cl_ok s' c lid"
    and "sy_cl s' = (sy_cl s)(c := x)" "lc_id x = lc_id (sy_cl s c)" "lc_xid (sy_cl s c) \<le> lc_xid x"
    and "\<And>l. l \<noteq> lid \<Longrightarrow> lc_info x l = lc_info (sy_cl s c) l"
    and "\<And>c' l. (c', l) \<noteq> (c, lid) \<Longrightarrow> sy_pc s' c' l = sy_pc s c' l"
    and "\<And>c' l. (c', l) \<noteq> (c, lid) \<Longrightarrow> sy_held s' c' l = sy_held s c' l"
  shows "l_inv s'"
proof -
  have "cl_ok s' c' l" for c' l
  proof (cases "(c', l) = (c, lid)")
    case False
    show ?thesis by (rule cl_ok_frame [OF l_invD(3) [OF assms(1)]]) (use assms False in auto)
  qed (use assms(3) in simp)
  then show ?thesis using l_invD(1,2) [OF assms(1)] by (simp add: l_inv_def assms(2))
qed

lemma inv_acq:
  assumes "l_inv s" "l_exec dup (EAcq c lid) s = Some s'"
  shows "l_inv s'"
proof -
  have ok: "cl_ok s c lid" by (rule l_invD(3) [OF assms(1)])
  have x: "lc_xid (sy_cl s c) < lc_xid (sy_cl s c) + 1" using assms(2) by (auto intro: less_Suc_word split: if_splits)
  consider (call) "sy_stat s c lid = LC_NONE" | (free) "sy_stat s c lid = LC_FREE"
    using assms(2) by (cases "sy_stat s c lid") (auto simp: lc_acquire_begin_def Let_def split: if_splits)
  then show ?thesis
  proof cases
    case call
    then have pc: "sy_pc s c lid = Idle" using ok by (cases "sy_pc s c lid") (auto simp: cl_ok_def split: if_splits)
    show ?thesis
      by (rule inv_client [OF assms(1), where c = c and lid = lid and x = "snd (lc_acquire_begin (sy_cl s c) lid)"])
        (use assms(2) ok x call pc in \<open>auto simp: lc_acquire_begin_def Let_def cl_ok_def owner_def trying_def split: if_splits\<close>)
  next
    case free
    then have pc: "sy_pc s c lid = Idle" using ok by (cases "sy_pc s c lid") (auto simp: cl_ok_def split: if_splits)
    show ?thesis
      by (rule inv_client [OF assms(1), where c = c and lid = lid and x = "snd (lc_acquire_begin (sy_cl s c) lid)"])
        (use assms(2) ok free pc in \<open>auto simp: lc_acquire_begin_def Let_def cl_ok_def owner_def trying_def split: if_splits\<close>)
  qed
qed

lemma inv_got_acquire:
  assumes "l_inv s" "l_exec dup (EGotA c lid timeout) s = Some s'"
  shows "l_inv s'"
proof -
  have ok: "cl_ok s c lid" by (rule l_invD(3) [OF assms(1)])
  obtain b where pc: "sy_pc s c lid = AGot b" using assms(2) by (cases "sy_pc s c lid") auto
  then have "sy_stat s c lid = LC_ACQUIRING" "b = lk_OK \<or> b = lk_RETRY" using ok by (auto simp: cl_ok_def split: if_splits)
  then consider (ok) "b = lk_OK" "b \<noteq> lk_RETRY" | (retry) "b = lk_RETRY" by (auto simp: lock_codes)
  then show ?thesis
  proof cases
    case ok
    then have x: "lc_acquire_end (sy_cl s c) lid b = Some (lc_put lid ((lc_info (sy_cl s c) lid)\<lparr> li_stat := LC_LOCKED \<rparr>) (sy_cl s c))"
      by (simp add: lc_acquire_end_def)
    show ?thesis
      by (rule inv_client [OF assms(1), where c = c and lid = lid and
            x = "lc_put lid ((lc_info (sy_cl s c) lid)\<lparr> li_stat := LC_LOCKED \<rparr>) (sy_cl s c)"])
        (use assms(2) \<open>cl_ok s c lid\<close> ok pc \<open>sy_stat s c lid = LC_ACQUIRING\<close> x in
          \<open>auto simp: cl_ok_def owner_def trying_def lock_codes split: if_splits\<close>)
  next
    case retry
    then have s': "s' = set_pc c lid ACall (set_cl c
        (lc_put lid ((lc_info (sy_cl s c) lid)\<lparr> li_retry := False \<rparr>) (sy_cl s c)) s)"
      using assms(2) pc by (auto simp: lc_acquire_retry_def Let_def split: if_splits)
    show ?thesis
      by (rule inv_client [OF assms(1), where c = c and lid = lid and
            x = "lc_put lid ((lc_info (sy_cl s c) lid)\<lparr> li_retry := False \<rparr>) (sy_cl s c)"])
        (use ok pc retry \<open>sy_stat s c lid = LC_ACQUIRING\<close> in
          \<open>auto simp: s' cl_ok_def owner_def trying_def split: if_splits\<close>)
  qed
qed

lemma inv_release:
  assumes "l_inv s" "l_exec dup (ERel c lid) s = Some s'"
  shows "l_inv s'"
proof -
  have ok: "cl_ok s c lid" by (rule l_invD(3) [OF assms(1)])
  have st: "sy_stat s c lid = LC_LOCKED" using assms(2) ok by (auto simp: cl_ok_def split: if_splits)
  then have pc: "sy_pc s c lid = Idle" using ok by (cases "sy_pc s c lid") (auto simp: cl_ok_def split: if_splits)
  obtain n x where r: "lc_release_begin (sy_cl s c) lid = Some (n, x)"
    using st by (cases "li_revoked (lc_info (sy_cl s c) lid)") (auto simp: lc_release_begin_def Let_def)
  show ?thesis
    by (rule inv_client [OF assms(1), where c = c and lid = lid and x = x])
      (use assms(2) r ok st pc in \<open>auto simp: lc_release_begin_def Let_def cl_ok_def owner_def trying_def split: if_splits\<close>)
qed

lemma inv_got_release:
  assumes "l_inv s" "l_exec dup (EGotR c lid) s = Some s'"
  shows "l_inv s'"
proof -
  have ok: "cl_ok s c lid" by (rule l_invD(3) [OF assms(1)])
  obtain b where pc: "sy_pc s c lid = RGot b" using assms(2) by (cases "sy_pc s c lid") auto
  then have st: "sy_stat s c lid = LC_RELEASING" "b = lk_OK" using ok by (auto simp: cl_ok_def split: if_splits)
  show ?thesis
    by (rule inv_client [OF assms(1), where c = c and lid = lid and
          x = "lc_put lid ((lc_info (sy_cl s c) lid)\<lparr> li_stat := LC_NONE, li_revoked := False \<rparr>) (sy_cl s c)"])
      (use assms(2) ok st pc in \<open>auto simp: lc_release_end_def cl_ok_def owner_def trying_def split: if_splits\<close>)
qed

lemma inv_revoke:
  assumes "l_inv s" "l_exec dup (ERevoke c lid) s = Some s'"
  shows "l_inv s'"
proof -
  have ok: "cl_ok s c lid" by (rule l_invD(3) [OF assms(1)])
  show ?thesis
  proof (cases "sy_stat s c lid = LC_FREE")
    case True
    then have pc: "sy_pc s c lid = Idle" using ok by (cases "sy_pc s c lid") (auto simp: cl_ok_def split: if_splits)
    let ?x = "lc_put lid ((lc_info (sy_cl s c) lid)\<lparr> li_revoked := True, li_stat := LC_RELEASING \<rparr>) (sy_cl s c)"
    have s': "s' = set_pc c lid RCall (set_cl c ?x s)" using assms(2) True by (auto simp: lc_revoke_begin_def Let_def)
    have k: "cl_ok s' c lid" using ok True pc by (auto simp: s' cl_ok_def owner_def trying_def)
    show ?thesis by (rule inv_client [OF assms(1) _ k, where x = ?x]) (auto simp: s')
  next
    case False
    let ?x = "lc_put lid ((lc_info (sy_cl s c) lid)\<lparr> li_revoked := True \<rparr>) (sy_cl s c)"
    have s': "s' = set_cl c ?x s" using assms(2) False by (auto simp: lc_revoke_begin_def Let_def)
    have k: "cl_ok s' c lid" by (rule cl_ok_frame [OF ok]) (simp_all add: s')
    show ?thesis by (rule inv_client [OF assms(1) _ k, where x = ?x]) (auto simp: s')
  qed
qed

lemma inv_retry:
  assumes "l_inv s" "l_exec dup (ERetry c lid) s = Some s'"
  shows "l_inv s'"
proof -
  let ?x = "lc_put lid ((lc_info (sy_cl s c) lid)\<lparr> li_retry := True \<rparr>) (sy_cl s c)"
  have s': "s' = set_cl c ?x s" using assms(2) by (auto simp: lc_retry_handler_def)
  have k: "cl_ok s' c lid" by (rule cl_ok_frame [OF l_invD(3) [OF assms(1)]]) (simp_all add: s')
  show ?thesis by (rule inv_client [OF assms(1) _ k, where x = ?x]) (auto simp: s')
qed

lemma inv_call_acquire:
  assumes "l_inv s" "l_exec dup (ECallA c lid) s = Some s'"
  shows "l_inv s'"
proof -
  note ok = l_invD(3) [OF assms(1)]
  have pc: "sy_pc s c lid = ACall" using assms(2) by (auto split: if_splits)
  have me: "lc_id (sy_cl s c) = c" "sy_stat s c lid = LC_ACQUIRING" using ok [of c lid] pc by (auto simp: cl_ok_def)
  obtain b srv where a: "lsr_acquire True (sy_srv s) lid c (lc_xid (sy_cl s c)) = Some (b, srv)"
    and s': "s' = set_pc c lid (AGot b) (s\<lparr> sy_srv := srv \<rparr>)"
    using assms(2) pc me by (auto simp: lc_args_def)
  note e = acquire_entry [OF a]
  have "cl_ok s' c' l" for c' l
  proof (cases "l = lid \<and> (c' = c \<or> b = lk_OK)")
    case False
    then have "entry srv l = entry (sy_srv s) l" using e(1,2) by (cases "l = lid") (auto simp: lock_codes)
    with False show ?thesis by (intro cl_ok_frame [OF ok [of c' l]]) (auto simp: s')
  next
    case True
    from e(1) show ?thesis
    proof (elim disjE conjE)
      assume g: "b = lk_OK" "entry srv lid = Some (c, False, lc_xid (sy_cl s c))"
        "\<forall>c' x. entry (sy_srv s) lid \<noteq> Some (c', False, x)"
      then have no: "\<not> owner s c' lid" using cl_ok_owner [OF ok [of c' lid]] by blast
      show ?thesis
        using ok [of c' lid] True g no me by (auto simp: s' cl_ok_def owner_def trying_def lock_codes)
    next
      assume g: "b = lk_RETRY" "entry srv lid = entry (sy_srv s) lid"
      then show ?thesis
        using ok [of c lid] True me pc by (auto simp: s' cl_ok_def owner_def trying_def lock_codes)
    qed
  qed
  then show ?thesis using e(3,4) l_invD(1,2) [OF assms(1)] by (simp add: l_inv_def s')
qed

lemma inv_call_release:
  assumes "l_inv s" "l_exec dup (ECallR c lid) s = Some s'"
  shows "l_inv s'"
proof -
  note ok = l_invD(3) [OF assms(1)]
  have pc: "sy_pc s c lid = RCall" using assms(2) by (auto split: if_splits)
  have me: "lc_id (sy_cl s c) = c" "sy_stat s c lid = LC_RELEASING" using ok [of c lid] pc by (auto simp: cl_ok_def)
  obtain b r srv where a: "lsr_release (sy_srv s) lid c (lc_xid (sy_cl s c)) = (b, r, srv)" by (metis prod_cases3)
  have s': "s' = set_pc c lid (RGot b) (s\<lparr> sy_srv := srv, sy_sent := (lid, c, lc_xid (sy_cl s c)) # sy_sent s \<rparr>)"
    using assms(2) pc me a by (auto simp: lc_args_def)
  note e = release_entry [OF a]
  obtain x where x: "entry (sy_srv s) lid = Some (c, False, x)"
    using ok [of c lid] pc by (auto simp: cl_ok_def owner_def)
  have "cl_ok s' c' l" for c' l
  proof (cases "l = lid")
    case False
    then have "entry srv l = entry (sy_srv s) l" by (auto simp: e(2) split: option.split)
    with False show ?thesis by (intro cl_ok_frame [OF ok [of c' l]]) (auto simp: s')
  next
    case True
    have x': "entry srv lid = Some (c, True, x)" by (simp add: e(2) x)
    show ?thesis
    proof (cases "c' = c")
      case True
      then show ?thesis
        using ok [of c lid] \<open>l = lid\<close> x x' me pc e(1) by (auto simp: s' cl_ok_def owner_def trying_def)
    next
      case False
      then have "\<not> owner s c' lid" using cl_ok_owner [OF ok [of c' lid]] x by auto
      then show ?thesis
        using ok [of c' lid] \<open>l = lid\<close> x' False by (simp add: s' cl_ok_def owner_def trying_def)
    qed
  qed
  then show ?thesis using e(3,4) l_invD(1,2) [OF assms(1)] by (simp add: l_inv_def s')
qed

lemma inv_queues:
  assumes "l_inv s" "sy_cl s' = sy_cl s" "sy_pc s' = sy_pc s" "sy_held s' = sy_held s"
    and "ls_clients (sy_srv s') = ls_clients (sy_srv s)"
    and "ff_max (ls_revoker (sy_srv s')) = 0" "ff_max (ls_retryer (sy_srv s')) = 0"
  shows "l_inv s'"
proof -
  have "cl_ok s' c l" for c l
    by (rule cl_ok_frame [OF l_invD(3) [OF assms(1)]]) (use assms in \<open>auto simp: entry_def\<close>)
  then show ?thesis using assms(6,7) by (simp add: l_inv_def)
qed

lemma l_inv_step:
  assumes "l_inv s" "l_exec False ev s = Some s'"
  shows "l_inv s'"
proof (cases ev)
  case ESrvRevoke
  then show ?thesis
    using assms by (auto simp: revoker_take_def deq_def l_invD split: list.splits intro!: inv_queues [where s = s])
next
  case (ESrvRevoked lid)
  then show ?thesis
    using assms by (auto simp: revoker_end_def enq_def l_invD split: if_splits intro!: inv_queues [where s = s])
next
  case ESrvRetry
  then show ?thesis
    using assms by (auto simp: retryer_take_def deq_def l_invD split: list.splits intro!: inv_queues [where s = s])
next
  case (EDupRel lid c xid)
  then show ?thesis using assms(2) by simp
next
  case (EAcq c lid)
  show ?thesis by (rule inv_acq [OF assms(1) assms(2) [unfolded EAcq]])
next
  case (ECallA c lid)
  show ?thesis by (rule inv_call_acquire [OF assms(1) assms(2) [unfolded ECallA]])
next
  case (EGotA c lid t)
  show ?thesis by (rule inv_got_acquire [OF assms(1) assms(2) [unfolded EGotA]])
next
  case (ERel c lid)
  show ?thesis by (rule inv_release [OF assms(1) assms(2) [unfolded ERel]])
next
  case (ECallR c lid)
  show ?thesis by (rule inv_call_release [OF assms(1) assms(2) [unfolded ECallR]])
next
  case (EGotR c lid)
  show ?thesis by (rule inv_got_release [OF assms(1) assms(2) [unfolded EGotR]])
next
  case (ERevoke c lid)
  show ?thesis by (rule inv_revoke [OF assms(1) assms(2) [unfolded ERevoke]])
next
  case (ERetry c lid)
  show ?thesis by (rule inv_retry [OF assms(1) assms(2) [unfolded ERetry]])
qed

lemma l_inv_reach: "l_reach False s \<Longrightarrow> l_inv s"
proof (induction rule: l_reach.induct)
  case init
  show ?case
    by (simp add: l_inv_def cl_ok_def l_start_def owner_def trying_def entry_def lock_client_rsm_new_def
        lock_server_rsm_new_def fifo_new_def lc_info_def omap_get_def omap_find_def lock_info_new_def)
qed (use l_inv_step in blast)

section \<open>Properties\<close>

text \<open>
  C2: Mutual exclusion.  When every request is executed once, at most one thread of one client holds a
  lock at any time, whatever the order of calls, replies, revocations and retry messages.
\<close>

theorem mutual_exclusion:
  assumes "l_reach False s" "0 < sy_held s c lid" "0 < sy_held s d lid"
  shows "c = d \<and> sy_held s c lid = 1"
proof -
  note inv = l_inv_reach [OF assms(1)]
  have "sy_stat s c lid = LC_LOCKED" "sy_stat s d lid = LC_LOCKED" "sy_held s c lid = 1"
    using assms(2,3) l_invD(3) [OF inv, of c lid] l_invD(3) [OF inv, of d lid] by (auto simp: cl_ok_def split: if_splits)
  then show ?thesis
    using cl_ok_owner [OF l_invD(3) [OF inv], of c lid] cl_ok_owner [OF l_invD(3) [OF inv], of d lid]
    by (auto simp: owner_def)
qed

text \<open>
  No check fails.  When every request is executed once, the server never takes the path of a repeated
  request, which uses an uninitialised pointer; the clients' \<open>VERIFY\<close> of the replies holds; and so does the
  \<open>assert\<close> on the status of a lock that a thread releases.
\<close>

theorem no_check_fails:
  assumes "l_reach False s"
  shows "(sy_pc s c lid = ACall \<longrightarrow> l_exec False (ECallA c lid) s \<noteq> None) \<and>
    (\<forall>b. sy_pc s c lid = AGot b \<longrightarrow> l_exec False (EGotA c lid True) s \<noteq> None) \<and>
    (\<forall>b. sy_pc s c lid = RGot b \<longrightarrow> l_exec False (EGotR c lid) s \<noteq> None) \<and>
    (0 < sy_held s c lid \<longrightarrow> l_exec False (ERel c lid) s \<noteq> None)"
proof (intro conjI impI allI)
  note inv = l_inv_reach [OF assms]
  note ok = l_invD(3) [OF inv, of c lid]
  show "l_exec False (ECallA c lid) s \<noteq> None" if pc: "sy_pc s c lid = ACall"
  proof
    assume "l_exec False (ECallA c lid) s = None"
    then have "lsr_acquire True (sy_srv s) lid c (lc_xid (sy_cl s c)) = None"
      using pc ok by (simp add: lc_args_def cl_ok_def)
    from acquire_crash [OF this l_invD(1) [OF inv]] pc ok show False by (auto simp: cl_ok_def trying_def)
  qed
  show "l_exec False (EGotA c lid True) s \<noteq> None" if "sy_pc s c lid = AGot b" for b
    using that ok by (auto simp: cl_ok_def lc_acquire_retry_def lc_acquire_end_def Let_def split: if_splits)
  show "l_exec False (EGotR c lid) s \<noteq> None" if "sy_pc s c lid = RGot b" for b
    using that ok by (auto simp: cl_ok_def lc_release_end_def split: if_splits)
  show "l_exec False (ERel c lid) s \<noteq> None" if "0 < sy_held s c lid"
    using that ok by (auto simp: cl_ok_def lc_release_begin_def Let_def split: if_splits option.splits)
qed

text \<open>Runs by a list of events.\<close>

fun l_run :: "bool \<Rightarrow> levent list \<Rightarrow> lsys \<Rightarrow> lsys option" where
  "l_run dup [] s = Some s"
| "l_run dup (ev # evs) s = Option.bind (l_exec dup ev s) (l_run dup evs)"

lemma l_run_reach: "l_run dup evs s = Some s' \<Longrightarrow> l_reach dup s \<Longrightarrow> l_reach dup s'"
  by (induction evs arbitrary: s) (auto split: bind_splits intro: l_reach.step)

definition one_holder :: "levent list" where
  "one_holder = [EAcq ''a'' 5, ECallA ''a'' 5, EGotA ''a'' 5 False]"

text \<open>The first client releases the lock when asked to, acquires it again, and then its first release
  request takes effect once more.\<close>

definition late_release :: "levent list" where
  "late_release = one_holder @ [ERevoke ''a'' 5, ERel ''a'' 5, ECallR ''a'' 5, EGotR ''a'' 5,
     EAcq ''a'' 5, ECallA ''a'' 5, EGotA ''a'' 5 False, EDupRel 5 ''a'' 1, EAcq ''b'' 5, ECallA ''b'' 5, EGotA ''b'' 5 False]"

definition held_after :: "bool \<Rightarrow> levent list \<Rightarrow> (nat \<times> nat) option" where
  "held_after dup evs = map_option (\<lambda>s. (sy_held s ''a'' 5, sy_held s ''b'' 5)) (l_run dup evs l_start)"

lemma held_one: "held_after False one_holder = Some (1, 0)"
  by code_simp

lemma held_two: "held_after True late_release = Some (1, 1)"
  by code_simp

theorem mutual_exclusion_witness:
  "\<exists>s. l_reach False s \<and> 0 < sy_held s ''a'' 5 \<and> sy_held s ''a'' 5 = 1 \<and> sy_held s ''b'' 5 = 0"
proof -
  obtain s where s: "l_run False one_holder l_start = Some s" "sy_held s ''a'' 5 = 1" "sy_held s ''b'' 5 = 0"
    using held_one by (auto simp: held_after_def)
  then have r: "l_reach False s" using l_run_reach l_reach.init by blast
  show ?thesis using mutual_exclusion [OF r, of "''a''" 5 "''a''"] r s by auto
qed

theorem no_check_fails_witness:
  "\<exists>s. l_reach False s \<and> 0 < sy_held s ''a'' 5 \<and> l_exec False (ERel ''a'' 5) s \<noteq> None"
proof -
  obtain s where s: "l_run False one_holder l_start = Some s" "sy_held s ''a'' 5 = 1"
    using held_one by (auto simp: held_after_def)
  then have r: "l_reach False s" using l_run_reach l_reach.init by blast
  have "l_exec False (ERel ''a'' 5) s \<noteq> None"
    using no_check_fails [OF r, of "''a''" 5] s(2) by (simp del: l_exec.simps)
  with r s(2) show ?thesis by (intro exI [of _ s]) (simp del: l_exec.simps)
qed

text \<open>
  C34: A repeated release breaks mutual exclusion.  \<open>release\<close> does not look at the request number: when a
  release request that was executed before takes effect once more, after the client has acquired the lock
  again, the server gives the lock to another client, and both hold it.
\<close>

theorem repeated_release_breaks_exclusion:
  "\<exists>s. l_reach True s \<and> sy_held s ''a'' 5 = 1 \<and> sy_held s ''b'' 5 = 1"
proof -
  obtain s where s: "l_run True late_release l_start = Some s" "sy_held s ''a'' 5 = 1" "sy_held s ''b'' 5 = 1"
    using held_two by (auto simp: held_after_def)
  then show ?thesis using l_run_reach l_reach.init by blast
qed

end
