(* ===== verification/Lock_Plain.thy ===== *)
theory Lock_Plain
  imports Lock_Protocol "HOL-Library.Monad_Syntax"
begin

text \<open>
  The first lock server and its client (\<open>lock_server.cc\<close>, \<open>lock_client.cc\<close>), without caching.  The table of
  locks is a \<open>map<int, int>\<close>: the 64-bit lock identifiers are cut to 32 bits.
\<close>

section \<open>Server and client\<close>

record lock_server =
  lk_nacquire :: u32
  lk_clients :: "(u32, u32) omap"

definition lock_server_new :: lock_server where
  "lock_server_new = \<lparr> lk_nacquire = 0, lk_clients = [] \<rparr>"

definition lk_stat_req :: "lock_server \<Rightarrow> u32 \<Rightarrow> u64 \<Rightarrow> u32 \<times> u32 \<times> lock_server" where
  "lk_stat_req s clt lid = (lk_OK, lk_nacquire s, s)"

text \<open>\<open>acquire\<close> past its loop; \<open>None\<close>: the lock is taken and the thread waits on \<open>lock_clients_cond\<close>.\<close>

definition lk_acquire_req :: "lock_server \<Rightarrow> u32 \<Rightarrow> u64 \<Rightarrow> (u32 \<times> u32 \<times> lock_server) option" where
  "lk_acquire_req s clt lid =
     (if omap_find (lk_clients s) (ucast lid) \<noteq> None then None
      else Some (lk_OK, ucast lid, s\<lparr> lk_clients := omap_set (ucast lid) clt (lk_clients s) \<rparr>))"

text \<open>The flag tells whether the condition variable is signalled.\<close>

definition lk_release_req :: "lock_server \<Rightarrow> u32 \<Rightarrow> u64 \<Rightarrow> bool \<times> u32 \<times> u32 \<times> lock_server" where
  "lk_release_req s clt lid =
     (if omap_find (lk_clients s) (ucast lid) = Some clt
      then (True, lk_OK, ucast lid, s\<lparr> lk_clients := omap_erase (ucast lid) (lk_clients s) \<rparr>)
      else (False, lk_OK, ucast lid, s))"

text \<open>The stubs of \<open>lock_client\<close> check the status and return the result \<open>r\<close>.\<close>

definition lock_client_result :: "u32 \<Rightarrow> u32 \<Rightarrow> u32 option" where
  "lock_client_result ret r = (if ret \<noteq> lk_OK then None else Some r)"

section \<open>Threads at the server\<close>

text \<open>Threads that wait on the one condition variable of the server, threads that were woken and have not
  run yet, and the locks granted.  \<open>pthread_cond_signal\<close> wakes one of the waiting threads, here \<open>w\<close>.\<close>

type_synonym thr = "u32 \<times> u64"

record lk_sys =
  lk_srv :: lock_server
  lk_waiting :: "thr list"
  lk_woken :: "thr list"
  lk_granted :: "thr list"

datatype lk_event = LAcq thr | LRel thr "thr option" | LRun thr

definition lk_try :: "thr \<Rightarrow> lk_sys \<Rightarrow> lk_sys" where
  "lk_try t s =
     (case lk_acquire_req (lk_srv s) (fst t) (snd t) of
        None \<Rightarrow> s\<lparr> lk_waiting := t # lk_waiting s \<rparr>
      | Some (b, r, srv) \<Rightarrow> s\<lparr> lk_srv := srv, lk_granted := t # lk_granted s \<rparr>)"

fun lk_exec :: "lk_event \<Rightarrow> lk_sys \<Rightarrow> lk_sys option" where
  "lk_exec (LAcq t) s = Some (lk_try t s)"
| "lk_exec (LRel t w) s =
     (if t \<in> set (lk_granted s) then
        let (sig, b, r, srv) = lk_release_req (lk_srv s) (fst t) (snd t);
            s = s\<lparr> lk_srv := srv, lk_granted := remove1 t (lk_granted s) \<rparr>
        in case w of
             None \<Rightarrow> if sig \<and> lk_waiting s \<noteq> [] then None else Some s
           | Some x \<Rightarrow> if sig \<and> x \<in> set (lk_waiting s)
                        then Some (s\<lparr> lk_waiting := remove1 x (lk_waiting s), lk_woken := x # lk_woken s \<rparr>) else None
      else None)"
| "lk_exec (LRun t) s = (if t \<in> set (lk_woken s) then Some (lk_try t (s\<lparr> lk_woken := remove1 t (lk_woken s) \<rparr>)) else None)"

fun lk_run :: "lk_event list \<Rightarrow> lk_sys \<Rightarrow> lk_sys option" where
  "lk_run [] s = Some s"
| "lk_run (e # es) s = Option.bind (lk_exec e s) (lk_run es)"

definition lk_start :: lk_sys where
  "lk_start = \<lparr> lk_srv = lock_server_new, lk_waiting = [], lk_woken = [], lk_granted = [] \<rparr>"

section \<open>Properties\<close>

definition lk_inv :: "lk_sys \<Rightarrow> bool" where
  "lk_inv s =
     (distinct (map (\<lambda>t. ucast (snd t) :: u32) (lk_granted s)) \<and>
      (\<forall>t \<in> set (lk_granted s). omap_find (lk_clients (lk_srv s)) (ucast (snd t)) = Some (fst t)))"

lemma lk_inv_frame: "lk_inv s \<Longrightarrow> lk_srv s' = lk_srv s \<Longrightarrow> lk_granted s' = lk_granted s \<Longrightarrow> lk_inv s'"
  by (simp add: lk_inv_def)

lemma lk_inv_try:
  assumes "lk_inv s"
  shows "lk_inv (lk_try t s)"
proof (cases "omap_find (lk_clients (lk_srv s)) (ucast (snd t))")
  case None
  then have "ucast (snd t) \<noteq> (ucast (snd x) :: u32)" if "x \<in> set (lk_granted s)" for x
    using assms that by (auto simp: lk_inv_def)
  with None assms show ?thesis by (auto simp: lk_inv_def lk_try_def lk_acquire_req_def omap_find_set)
qed (use assms in \<open>auto simp: lk_inv_def lk_try_def lk_acquire_req_def\<close>)

lemma lk_inv_rel:
  assumes "lk_inv s" "t \<in> set (lk_granted s)"
  shows "lk_inv (s\<lparr> lk_srv := snd (snd (snd (lk_release_req (lk_srv s) (fst t) (snd t)))), lk_granted := remove1 t (lk_granted s) \<rparr>)"
proof -
  have d: "distinct (map (\<lambda>t. ucast (snd t) :: u32) (remove1 t (lk_granted s)))"
    using assms(1) by (auto simp: lk_inv_def distinct_map inj_on_def)
  have n: "ucast (snd x) \<noteq> (ucast (snd t) :: u32)" if "x \<in> set (remove1 t (lk_granted s))" for x
  proof -
    have "distinct (lk_granted s)" "inj_on (\<lambda>t. ucast (snd t) :: u32) (set (lk_granted s))"
      using assms(1) by (auto simp: lk_inv_def distinct_map)
    then show ?thesis using that assms(2) by (auto simp: inj_on_def)
  qed
  show ?thesis
    using assms d n notin_set_remove1 [of _ "lk_granted s" t]
    by (auto simp: lk_inv_def lk_release_req_def omap_find_erase)
qed

lemma lk_inv_step: "lk_inv s \<Longrightarrow> lk_exec e s = Some s' \<Longrightarrow> lk_inv s'"
proof (cases e)
  case (LRel t w)
  assume a: "lk_inv s" "lk_exec e s = Some s'"
  obtain sig b r srv where q: "lk_release_req (lk_srv s) (fst t) (snd t) = (sig, b, r, srv)" by (metis prod_cases4)
  have t: "t \<in> set (lk_granted s)" using a(2) LRel by (auto split: if_splits)
  have "lk_inv (s\<lparr> lk_srv := srv, lk_granted := remove1 t (lk_granted s) \<rparr>)" using lk_inv_rel [OF a(1) t] q by simp
  then show ?thesis by (rule lk_inv_frame) (use a(2) LRel t q in \<open>auto simp: Let_def split: option.splits if_splits\<close>)
next
  case (LRun t)
  assume "lk_inv s" "lk_exec e s = Some s'"
  then show ?thesis using LRun lk_inv_try [of "s\<lparr> lk_woken := remove1 t (lk_woken s) \<rparr>" t]
    by (auto simp: lk_inv_def split: if_splits)
qed (auto simp: lk_inv_try)

lemma lk_inv_run: "lk_run es s = Some s' \<Longrightarrow> lk_inv s \<Longrightarrow> lk_inv s'"
  by (induction es arbitrary: s) (auto split: bind_splits dest: lk_inv_step)

text \<open>
  C19: The plain lock server excludes.  In every run of threads that acquire and release locks, two grants
  that are held at the same time are for locks whose identifiers differ in their low 32 bits.
\<close>

theorem plain_server_excludes:
  assumes "lk_run es lk_start = Some s" "lk_granted s = xs @ (c, l) # ys @ (d, k) # zs"
  shows "(ucast l :: u32) \<noteq> ucast k"
proof -
  have "lk_inv lk_start" by (simp add: lk_inv_def lk_start_def)
  with lk_inv_run [OF assms(1)] assms(2) show ?thesis by (simp add: lk_inv_def)
qed

text \<open>
  Identifiers that differ only above bit 31 are one lock.  A client that holds a lock blocks every
  other request for an identifier with the same low 32 bits.
\<close>

theorem truncated_ids_collide:
  assumes "lk_acquire_req s clt lid = Some (b, r, s')" "(ucast lid :: u32) = ucast lid'"
  shows "lk_acquire_req s' clt' lid' = None"
  using assms by (auto simp: lk_acquire_req_def omap_find_set split: if_splits)

theorem truncated_ids_collide_witness:
  "\<exists>b r s'. lk_acquire_req lock_server_new 1 7 = Some (b, r, s') \<and> lk_acquire_req s' 2 0x100000007 = None"
proof -
  obtain b r s' where a: "lk_acquire_req lock_server_new 1 7 = Some (b, r, s')"
    by (simp add: lk_acquire_req_def lock_server_new_def omap_find_def)
  have "(ucast (7 :: u64) :: u32) = ucast (0x100000007 :: u64)" by simp
  from truncated_ids_collide [OF a this] a show ?thesis by blast
qed

text \<open>A run: clients 1 and 2 hold locks 1 and 2; clients 3 and 4 wait for them; lock 1 is released, and
  the signal reaches the thread that waits for lock 2.\<close>

definition lost_run :: "lk_event list" where
  "lost_run = [LAcq (1, 1), LAcq (2, 2), LAcq (3, 1), LAcq (4, 2), LRel (1, 1) (Some (4, 2)), LRun (4, 2)]"

definition lost_state :: "lk_event list \<Rightarrow> (bool \<times> thr list \<times> thr list \<times> thr list) option" where
  "lost_state es = map_option (\<lambda>s. (omap_find (lk_clients (lk_srv s)) 1 = None, lk_waiting s, lk_woken s, lk_granted s))
     (lk_run es lk_start)"

text \<open>
  A wake-up can be lost.  All threads wait on one condition variable, and a release signals only one of
  them.  There is a run after which lock 1 is free and no thread has been woken, yet a thread still waits
  for lock 1.
\<close>

theorem wakeup_lost:
  "lost_state lost_run = Some (True, [(4, 2), (3, 1)], [], [(2, 2)])"
  by code_simp

theorem plain_server_excludes_witness:
  "\<exists>s. lk_run [LAcq (1, 1), LAcq (2, 2)] lk_start = Some s \<and> lk_granted s = [(2, 2), (1, 1)] \<and>
     (ucast (2 :: u64) :: u32) \<noteq> ucast (1 :: u64)"
proof -
  have "map_option lk_granted (lk_run [LAcq (1, 1), LAcq (2, 2)] lk_start) = Some [(2, 2), (1, 1)]" by code_simp
  then obtain s where s: "lk_run [LAcq (1, 1), LAcq (2, 2)] lk_start = Some s" "lk_granted s = [(2, 2), (1, 1)]" by auto
  from plain_server_excludes [OF s(1), of "[]" 2 2 "[]" 1 1 "[]"] s show ?thesis by simp
qed

end
