(* ===== verification/Lock_Cache.thy ===== *)
theory Lock_Cache
  imports Lock_Client_Rsm
begin

text \<open>
  The caching lock server and client before replication (\<open>lock_server_cache.cc\<close>, \<open>lock_client_cache.cc\<close>).
  The server's \<open>acquire\<close> blocks inside the RPC until the holder has released the lock; it is split at the
  points where it releases its mutex.  The client differs from \<open>Lock_Client_Rsm\<close> in its revoke handler.
\<close>

section \<open>Server\<close>

record cache_info =
  cc_cid :: string
  cc_available :: bool
  cc_waiting :: bool
  cc_waited :: "string list"

type_synonym lock_server_cache = "(u64, cache_info) omap"

text \<open>What the thread does next: take the lock, revoke it from its holder and wait, or answer.\<close>

datatype lsc_next = Take | RevokeWait string | Answer u32

definition lsc_acquire_begin :: "lock_server_cache \<Rightarrow> u64 \<Rightarrow> string \<Rightarrow> lsc_next \<times> lock_server_cache" where
  "lsc_acquire_begin s lid me =
     (case omap_find s lid of
        None \<Rightarrow> (Take, s)
      | Some ci \<Rightarrow>
          if cc_available ci \<and> cc_waited ci = [] then (Take, s)
          else if \<not> cc_available ci \<and> \<not> cc_waiting ci \<and> (cc_waited ci = [] \<or> me \<in> set (cc_waited ci))
          then (RevokeWait (cc_cid ci),
                omap_set lid (ci\<lparr> cc_waiting := True,
                  cc_waited := if cc_waited ci = [] then oset_insert me (cc_waited ci) else cc_waited ci \<rparr>) s)
          else (Answer lk_RETRY, omap_set lid (ci\<lparr> cc_waited := oset_insert me (cc_waited ci) \<rparr>) s))"

text \<open>The wait ends when the lock is available.\<close>

definition lsc_acquire_wake :: "lock_server_cache \<Rightarrow> u64 \<Rightarrow> lock_server_cache option" where
  "lsc_acquire_wake s lid =
     (case omap_find s lid of
        Some ci \<Rightarrow> if cc_available ci then Some (omap_set lid (ci\<lparr> cc_waiting := False \<rparr>) s) else None
      | None \<Rightarrow> None)"

text \<open>Taking the lock: \<open>None\<close> when the \<open>assert\<close> fails; else the client to send a retry message to.\<close>

definition lsc_acquire_end :: "lock_server_cache \<Rightarrow> u64 \<Rightarrow> string \<Rightarrow> (string option \<times> lock_server_cache) option" where
  "lsc_acquire_end s lid me =
     (case omap_find s lid of
        None \<Rightarrow> Some (None, omap_set lid \<lparr> cc_cid = me, cc_available = False, cc_waiting = False, cc_waited = [] \<rparr> s)
      | Some ci \<Rightarrow>
          if \<not> cc_available ci then None
          else let w = oset_erase me (cc_waited ci)
               in Some (if w = [] then None else Some (hd w),
                        omap_set lid (ci\<lparr> cc_available := False, cc_cid := me, cc_waited := w \<rparr>) s))"

definition lsc_release :: "lock_server_cache \<Rightarrow> u64 \<Rightarrow> string \<Rightarrow> u32 \<times> u32 \<times> lock_server_cache" where
  "lsc_release s lid me =
     (lk_OK, ucast lid,
      case omap_find s lid of
        Some ci \<Rightarrow> if cc_cid ci = me then omap_set lid (ci\<lparr> cc_available := True \<rparr>) s else s
      | None \<Rightarrow> s)"

definition lsc_call_client_rpc :: "u32 option \<Rightarrow> u32" where
  "lsc_call_client_rpc r = (case r of None \<Rightarrow> rl_RPCERR | Some ret \<Rightarrow> if ret \<noteq> rl_OK then rl_RPCERR else ret)"

definition lsc_stat :: "u32 \<Rightarrow> lock_server_cache \<Rightarrow> u64 \<Rightarrow> u32 \<times> u32" where
  "lsc_stat nacquire s lid = (lk_OK, nacquire)"

section \<open>Client\<close>

record lock_client_cache =
  lcc_id :: string
  lcc_locks :: "(u64, lock_info) omap"

definition lock_client_cache_new :: "string \<Rightarrow> lock_client_cache" where
  "lock_client_cache_new me = \<lparr> lcc_id = me, lcc_locks = [] \<rparr>"

definition lcc_info :: "lock_client_cache \<Rightarrow> u64 \<Rightarrow> lock_info" where
  "lcc_info c lid = omap_get lock_info_new (lcc_locks c) lid"

definition lcc_put :: "u64 \<Rightarrow> lock_info \<Rightarrow> lock_client_cache \<Rightarrow> lock_client_cache" where
  "lcc_put lid i c = c\<lparr> lcc_locks := omap_set lid i (lcc_locks c) \<rparr>"

definition lcc_acquire_begin :: "lock_client_cache \<Rightarrow> u64 \<Rightarrow> lc_next \<times> lock_client_cache" where
  "lcc_acquire_begin c lid =
     (let i = lcc_info c lid
      in case li_stat i of
           LC_NONE \<Rightarrow> (CallServer, lcc_put lid (i\<lparr> li_stat := LC_ACQUIRING \<rparr>) c)
         | LC_FREE \<Rightarrow> (Return, lcc_put lid (i\<lparr> li_stat := LC_LOCKED \<rparr>) c)
         | _ \<Rightarrow> (WaitLock, lcc_put lid i c))"

text \<open>After \<open>RETRY\<close> the thread waits for the retry message; the flag is never reset.\<close>

definition lcc_may_retry :: "lock_client_cache \<Rightarrow> u64 \<Rightarrow> bool" where
  "lcc_may_retry c lid = li_retry (lcc_info c lid)"

definition lcc_acquire_end :: "lock_client_cache \<Rightarrow> u64 \<Rightarrow> u32 \<Rightarrow> lock_client_cache option" where
  "lcc_acquire_end c lid ret =
     (if ret \<noteq> lk_OK then None else Some (lcc_put lid ((lcc_info c lid)\<lparr> li_stat := LC_LOCKED \<rparr>) c))"

definition lcc_release_begin :: "lock_client_cache \<Rightarrow> u64 \<Rightarrow> (lc_next \<times> lock_client_cache) option" where
  "lcc_release_begin c lid =
     (let i = lcc_info c lid
      in if li_stat i = LC_NONE then Some (Return, lcc_put lid i c)
         else if \<not> (li_stat i = LC_LOCKED \<or> li_stat i = LC_FREE) then None
         else if \<not> li_revoked i then Some (Return, lcc_put lid (i\<lparr> li_stat := LC_FREE \<rparr>) c)
         else Some (CallServer, lcc_put lid (i\<lparr> li_stat := LC_RELEASING \<rparr>) c))"

definition lcc_release_end :: "lock_client_cache \<Rightarrow> u64 \<Rightarrow> u32 \<Rightarrow> lock_client_cache option" where
  "lcc_release_end c lid ret =
     (if ret \<noteq> lk_OK then None
      else Some (lcc_put lid ((lcc_info c lid)\<lparr> li_stat := LC_NONE, li_revoked := False \<rparr>) c))"

text \<open>The status stays \<open>FREE\<close> while the handler calls the server with the mutex released.\<close>

definition lcc_revoke_begin :: "lock_client_cache \<Rightarrow> u64 \<Rightarrow> lc_next \<times> lock_client_cache" where
  "lcc_revoke_begin c lid =
     (let i = (lcc_info c lid)\<lparr> li_revoked := True \<rparr>
      in (if li_stat i = LC_FREE then CallServer else Return, lcc_put lid i c))"

definition lcc_revoke_end :: "lock_client_cache \<Rightarrow> u64 \<Rightarrow> u32 \<Rightarrow> lock_client_cache option" where
  "lcc_revoke_end c lid ret =
     (if ret \<noteq> lk_OK then None
      else Some (lcc_put lid ((lcc_info c lid)\<lparr> li_stat := LC_NONE, li_revoked := False \<rparr>) c))"

definition lcc_retry_handler :: "lock_client_cache \<Rightarrow> u64 \<Rightarrow> lock_client_cache" where
  "lcc_retry_handler c lid = lcc_put lid ((lcc_info c lid)\<lparr> li_retry := True \<rparr>) c"

section \<open>Together\<close>

text \<open>The thread of a client that acquires a lock, and the one that returns it to the server.\<close>

datatype apc = AIdle | ASend | ABlocked | AReply u32
datatype rpc = RIdle | RSend | RReply u32

record csys =
  cs_srv :: lock_server_cache
  cs_cl :: "string \<Rightarrow> lock_client_cache"
  cs_apc :: "string \<Rightarrow> apc"
  cs_rpc :: "string \<Rightarrow> rpc"
  cs_held :: "string \<Rightarrow> nat"                 \<comment> \<open>history: threads that hold the lock\<close>

datatype cevent =
    CAcq string | CServe string | CWake string | CReply string | CRel string | CRevoke string | CReturn string
  | CReturned string | CRetry string

text \<open>All steps are about one lock, \<open>lid\<close>.  A revoke message reaches any client at any time.\<close>

definition cs_take :: "u64 \<Rightarrow> string \<Rightarrow> csys \<Rightarrow> csys option" where
  "cs_take lid c s =
     map_option (\<lambda>(t, srv). s\<lparr> cs_srv := srv, cs_apc := (cs_apc s)(c := AReply lk_OK) \<rparr>) (lsc_acquire_end (cs_srv s) lid c)"

fun c_exec :: "u64 \<Rightarrow> cevent \<Rightarrow> csys \<Rightarrow> csys option" where
  "c_exec lid (CAcq c) s =
     (case lcc_acquire_begin (cs_cl s c) lid of
        (CallServer, x) \<Rightarrow> Some (s\<lparr> cs_cl := (cs_cl s)(c := x), cs_apc := (cs_apc s)(c := ASend) \<rparr>)
      | (Return, x) \<Rightarrow> Some (s\<lparr> cs_cl := (cs_cl s)(c := x), cs_held := (cs_held s)(c := cs_held s c + 1) \<rparr>)
      | (WaitLock, x) \<Rightarrow> None)"
| "c_exec lid (CServe c) s =
     (if cs_apc s c = ASend then
        case lsc_acquire_begin (cs_srv s) lid c of
          (Take, srv) \<Rightarrow> cs_take lid c (s\<lparr> cs_srv := srv \<rparr>)
        | (RevokeWait h, srv) \<Rightarrow> Some (s\<lparr> cs_srv := srv, cs_apc := (cs_apc s)(c := ABlocked) \<rparr>)
        | (Answer b, srv) \<Rightarrow> Some (s\<lparr> cs_srv := srv, cs_apc := (cs_apc s)(c := AReply b) \<rparr>)
      else None)"
| "c_exec lid (CWake c) s =
     (if cs_apc s c = ABlocked then
        Option.bind (lsc_acquire_wake (cs_srv s) lid) (\<lambda>srv. cs_take lid c (s\<lparr> cs_srv := srv \<rparr>))
      else None)"
| "c_exec lid (CReply c) s =
     (case cs_apc s c of
        AReply b \<Rightarrow>
          if b = lk_RETRY then
            if lcc_may_retry (cs_cl s c) lid then Some (s\<lparr> cs_apc := (cs_apc s)(c := ASend) \<rparr>) else None
          else map_option (\<lambda>x. s\<lparr> cs_cl := (cs_cl s)(c := x), cs_apc := (cs_apc s)(c := AIdle),
                                 cs_held := (cs_held s)(c := cs_held s c + 1) \<rparr>)
                 (lcc_acquire_end (cs_cl s c) lid b)
      | _ \<Rightarrow> None)"
| "c_exec lid (CRel c) s =
     (if cs_held s c = 0 then None
      else map_option (\<lambda>(n, x). s\<lparr> cs_cl := (cs_cl s)(c := x), cs_held := (cs_held s)(c := cs_held s c - 1),
               cs_rpc := (if n = CallServer then (cs_rpc s)(c := RSend) else cs_rpc s) \<rparr>)
             (lcc_release_begin (cs_cl s c) lid))"
| "c_exec lid (CRevoke c) s =
     (let (n, x) = lcc_revoke_begin (cs_cl s c) lid
      in Some (s\<lparr> cs_cl := (cs_cl s)(c := x), cs_rpc := (if n = CallServer then (cs_rpc s)(c := RSend) else cs_rpc s) \<rparr>))"
| "c_exec lid (CReturn c) s =
     (if cs_rpc s c = RSend then
        let (b, r, srv) = lsc_release (cs_srv s) lid c
        in Some (s\<lparr> cs_srv := srv, cs_rpc := (cs_rpc s)(c := RReply b) \<rparr>)
      else None)"
| "c_exec lid (CReturned c) s =
     (case cs_rpc s c of
        RReply b \<Rightarrow> map_option (\<lambda>x. s\<lparr> cs_cl := (cs_cl s)(c := x), cs_rpc := (cs_rpc s)(c := RIdle) \<rparr>)
                      (lcc_release_end (cs_cl s c) lid b)
      | _ \<Rightarrow> None)"
| "c_exec lid (CRetry c) s = Some (s\<lparr> cs_cl := (cs_cl s)(c := lcc_retry_handler (cs_cl s c) lid) \<rparr>)"

fun c_run :: "u64 \<Rightarrow> cevent list \<Rightarrow> csys \<Rightarrow> csys option" where
  "c_run lid [] s = Some s"
| "c_run lid (e # es) s = Option.bind (c_exec lid e s) (c_run lid es)"

definition c_start :: csys where
  "c_start = \<lparr> cs_srv = [], cs_cl = lock_client_cache_new, cs_apc = (\<lambda>_. AIdle), cs_rpc = (\<lambda>_. RIdle), cs_held = (\<lambda>_. 0) \<rparr>"

text \<open>Client \<open>a\<close> has the lock cached; \<open>b\<close> asks for it; while \<open>a\<close>'s revoke handler is on its way to the
  server, a thread of \<open>a\<close> takes the cached lock.\<close>

definition race :: "cevent list" where
  "race = [CAcq ''a'', CServe ''a'', CReply ''a'', CRel ''a'', CAcq ''b'', CServe ''b'', CRevoke ''a'', CAcq ''a'',
     CReturn ''a'', CWake ''b'', CReply ''b'']"

definition holders :: "cevent list \<Rightarrow> (nat \<times> nat \<times> lc_status) option" where
  "holders es = map_option (\<lambda>s. (cs_held s ''a'', cs_held s ''b'', li_stat (lcc_info (cs_cl s ''a'') 5)))
     (c_run 5 es c_start)"


end
