(* ===== verification/Rsm_Client.thy ===== *)
theory Rsm_Client
  imports Rsm
begin

text \<open>
  The client of the replicated state machine (\<open>rsm_client.cc\<close>): finding the primary and retrying until a
  request is answered.  The network is an argument: \<open>ask k m\<close> is what the \<open>k\<close>-th RPC of the client, to
  node \<open>m\<close>, returns.  \<open>None\<close> is a handle that cannot be bound.
\<close>

record rsm_client =
  cl_primary :: string
  cl_known :: "string list"
  cl_time :: nat                              \<comment> \<open>number of RPCs made\<close>

text \<open>The result of the \<open>members\<close> RPC, and of \<open>invoke\<close>.\<close>

record net =
  net_members :: "nat \<Rightarrow> string \<Rightarrow> (u32 \<times> string list) option"
  net_invoke :: "nat \<Rightarrow> string \<Rightarrow> u32 \<Rightarrow> string \<Rightarrow> (u32 \<times> string) option"

text \<open>An empty view aborts the client: the outer \<open>None\<close>.\<close>

definition init_members :: "net \<Rightarrow> rsm_client \<Rightarrow> (bool \<times> rsm_client) option" where
  "init_members net c =
     (let r = net_members net (cl_time c) (cl_primary c); c = c\<lparr> cl_time := cl_time c + 1 \<rparr>
      in case r of
           None \<Rightarrow> Some (False, c)
         | Some (ret, new_view) \<Rightarrow>
             if ret \<noteq> rp_OK then Some (False, c)
             else if length new_view < 1 then None
             else Some (True, c\<lparr> cl_known := butlast new_view, cl_primary := last new_view \<rparr>))"

definition rsm_client_new :: "net \<Rightarrow> string \<Rightarrow> rsm_client option" where
  "rsm_client_new net dst =
     (case init_members net \<lparr> cl_primary = dst, cl_known = [], cl_time = 0 \<rparr> of
        Some (True, c) \<Rightarrow> Some c | _ \<Rightarrow> None)"

text \<open>The loop of \<open>primary_failure\<close> over the positions of \<open>known_mems\<close>, which \<open>init_members\<close> replaces only
  when the loop ends.\<close>

fun primary_failure_from :: "net \<Rightarrow> string list \<Rightarrow> rsm_client \<Rightarrow> rsm_client option" where
  "primary_failure_from net [] c = Some c"
| "primary_failure_from net (m # ms) c =
     (if m \<noteq> cl_primary c then
        Option.bind (init_members net (c\<lparr> cl_primary := m \<rparr>))
          (\<lambda>(b, c). if b then Some c else primary_failure_from net ms c)
      else primary_failure_from net ms c)"

definition primary_failure :: "net \<Rightarrow> rsm_client \<Rightarrow> rsm_client option" where
  "primary_failure net c = primary_failure_from net (cl_known c) c"

text \<open>One round of the loop of \<open>invoke\<close>: the reply, or another round.\<close>

definition invoke_round :: "net \<Rightarrow> u32 \<Rightarrow> string \<Rightarrow> rsm_client \<Rightarrow> (string option \<times> rsm_client) option" where
  "invoke_round net proc req c =
     (let r = net_invoke net (cl_time c) (cl_primary c) proc req; c = c\<lparr> cl_time := cl_time c + 1 \<rparr>
      in case r of
           None \<Rightarrow> map_option (Pair None) (primary_failure net c)
         | Some (ret, rep) \<Rightarrow>
             if ret = rcp_OK then Some (Some rep, c)
             else if ret = rcp_BUSY then Some (None, c)
             else if ret = rcp_NOTPRIMARY then
               Option.bind (init_members net c)
                 (\<lambda>(b, c). if b then Some (None, c) else map_option (Pair None) (primary_failure net c))
             else map_option (Pair None) (primary_failure net c))"

text \<open>The loop, with a bound on its rounds: \<open>Inl\<close> when they are used up.\<close>

fun rsm_invoke :: "nat \<Rightarrow> net \<Rightarrow> u32 \<Rightarrow> string \<Rightarrow> rsm_client \<Rightarrow> (rsm_client + string \<times> rsm_client) option" where
  "rsm_invoke 0 net proc req c = Some (Inl c)"
| "rsm_invoke (Suc n) net proc req c =
     Option.bind (invoke_round net proc req c)
       (\<lambda>(rep, c). case rep of Some r \<Rightarrow> Some (Inr (r, c)) | None \<Rightarrow> rsm_invoke n net proc req c)"

section \<open>Finding the primary\<close>

text \<open>From time \<open>t\<close> on, \<open>p\<close> is the primary and answers; the other nodes are down, or know that \<open>p\<close> is it.\<close>

definition settled :: "net \<Rightarrow> nat \<Rightarrow> string \<Rightarrow> bool" where
  "settled net t p =
     (\<forall>k \<ge> t. (\<exists>vs. net_members net k p = Some (rp_OK, vs @ [p])) \<and>
        (\<forall>proc req. \<exists>rep. net_invoke net k p proc req = Some (rcp_OK, rep)) \<and>
        (\<forall>m. m \<noteq> p \<longrightarrow> (net_members net k m = None \<or> (\<exists>vs. net_members net k m = Some (rp_OK, vs @ [p]))) \<and>
           (\<forall>proc req. case net_invoke net k m proc req of None \<Rightarrow> True
              | Some (ret, rep) \<Rightarrow> ret \<noteq> rcp_OK \<and> ret \<noteq> rcp_BUSY)))"

lemma settledD:
  assumes "settled net t p" "t \<le> k"
  shows "\<exists>vs. net_members net k p = Some (rp_OK, vs @ [p])" "\<exists>rep. net_invoke net k p proc req = Some (rcp_OK, rep)"
    and "m \<noteq> p \<Longrightarrow> net_members net k m = None \<or> (\<exists>vs. net_members net k m = Some (rp_OK, vs @ [p]))"
    and "m \<noteq> p \<Longrightarrow> net_invoke net k m proc req = Some (ret, rep) \<Longrightarrow> ret \<noteq> rcp_OK \<and> ret \<noteq> rcp_BUSY"
proof -
  note s = assms(1) [unfolded settled_def, rule_format, OF assms(2)]
  show "\<exists>vs. net_members net k p = Some (rp_OK, vs @ [p])" "\<exists>rep. net_invoke net k p proc req = Some (rcp_OK, rep)"
    using s by simp_all
  show "m \<noteq> p \<Longrightarrow> net_members net k m = None \<or> (\<exists>vs. net_members net k m = Some (rp_OK, vs @ [p]))"
    using s by simp
  assume "m \<noteq> p" "net_invoke net k m proc req = Some (ret, rep)"
  then show "ret \<noteq> rcp_OK \<and> ret \<noteq> rcp_BUSY"
    using conjunct2 [OF conjunct2 [OF s], THEN spec, of m] by (auto split: option.splits)
qed

lemma settled_members:
  assumes "settled net t p" "t \<le> cl_time c"
  obtains (found) c' where "init_members net c = Some (True, c')" "t \<le> cl_time c'" "cl_primary c' = p"
  | (no) c' where "init_members net c = Some (False, c')" "t \<le> cl_time c'" "cl_primary c' = cl_primary c"
      "cl_primary c \<noteq> p" "cl_known c' = cl_known c"
proof -
  have "(\<exists>vs. net_members net (cl_time c) (cl_primary c) = Some (rp_OK, vs @ [p])) \<or>
      net_members net (cl_time c) (cl_primary c) = None \<and> cl_primary c \<noteq> p"
    using settledD(1) [OF assms] settledD(3) [OF assms, of "cl_primary c"] by (cases "cl_primary c = p") auto
  then show ?thesis using assms(2) that by (auto simp: init_members_def)
qed

lemma settled_failure:
  assumes "settled net t p"
  shows "t \<le> cl_time c \<Longrightarrow> p \<in> set ms \<Longrightarrow> cl_primary c \<noteq> p \<Longrightarrow>
    \<exists>c'. primary_failure_from net ms c = Some c' \<and> t \<le> cl_time c' \<and> cl_primary c' = p"
proof (induction ms arbitrary: c)
  case (Cons m ms)
  show ?case
  proof (cases "m = cl_primary c")
    case True
    then show ?thesis using Cons.IH [of c] Cons.prems by auto
  next
    case False
    have "t \<le> cl_time (c\<lparr> cl_primary := m \<rparr>)" using Cons.prems(1) by simp
    show ?thesis
      by (rule settled_members [OF assms \<open>t \<le> cl_time (c\<lparr> cl_primary := m \<rparr>)\<close>])
        (use Cons.IH Cons.prems(2) False in auto)
  qed
qed simp

lemma settled_round:
  assumes "settled net t p" "t \<le> cl_time c" "p \<in> set (cl_known c)" "cl_primary c \<noteq> p"
  shows "\<exists>c'. invoke_round net proc req c = Some (None, c') \<and> t \<le> cl_time c' \<and> cl_primary c' = p"
proof -
  let ?c = "c\<lparr> cl_time := cl_time c + 1 \<rparr>"
  have t: "t \<le> cl_time ?c" "p \<in> set (cl_known ?c)" "cl_primary ?c \<noteq> p" using assms by simp_all
  have f: "\<exists>c'. primary_failure net d = Some c' \<and> t \<le> cl_time c' \<and> cl_primary c' = p"
    if "t \<le> cl_time d" "p \<in> set (cl_known d)" "cl_primary d \<noteq> p" for d
    using settled_failure [OF assms(1) that(1,2,3)] by (simp add: primary_failure_def)
  have g: "\<exists>c'. Option.bind (init_members net ?c)
      (\<lambda>(b, c). if b then Some (None, c) else map_option (Pair None) (primary_failure net c)) = Some (None, c') \<and>
      t \<le> cl_time c' \<and> cl_primary c' = p"
    by (rule settled_members [OF assms(1) t(1)]) (use f t(2,3) in auto)
  show ?thesis
  proof (cases "net_invoke net (cl_time c) (cl_primary c) proc req")
    case None
    then show ?thesis using f [OF t] by (auto simp: invoke_round_def)
  next
    case (Some r)
    then show ?thesis
      using settledD(4) [OF assms(1,2,4), of proc req "fst r" "snd r"] f [OF t] g
      by (cases r) (auto simp: invoke_round_def Let_def)
  qed
qed

text \<open>
  C17: A client finds the primary.  Once the replicas have settled on a primary that answers, while the
  other nodes are down or name it, a client that knows of it gets an answer after at most two rounds of
  its loop, whomever it believed to be the primary; and the answer is one that the primary gave.
\<close>

theorem rsm_client_finds_primary:
  assumes "settled net t p" "t \<le> cl_time c" "p \<in> set (cl_known c) \<or> cl_primary c = p"
  shows "\<exists>rep c' k. rsm_invoke 2 net proc req c = Some (Inr (rep, c')) \<and> cl_primary c' = p \<and>
    t \<le> k \<and> net_invoke net k p proc req = Some (rcp_OK, rep)"
proof -
  have ok: "\<exists>rep c' k. rsm_invoke (Suc n) net proc req d = Some (Inr (rep, c')) \<and> cl_primary c' = p \<and>
      t \<le> k \<and> net_invoke net k p proc req = Some (rcp_OK, rep)" if "t \<le> cl_time d" "cl_primary d = p" for n d
  proof -
    obtain rep where "net_invoke net (cl_time d) p proc req = Some (rcp_OK, rep)"
      using settledD(2) [OF assms(1) \<open>t \<le> cl_time d\<close>] by blast
    then show ?thesis
      using that by (intro exI [of _ rep] exI [of _ "d\<lparr> cl_time := cl_time d + 1 \<rparr>"] exI [of _ "cl_time d"])
        (simp add: invoke_round_def)
  qed
  show ?thesis
  proof (cases "cl_primary c = p")
    case True
    then show ?thesis using ok [OF assms(2), of 1] by (simp add: numeral_2_eq_2)
  next
    case False
    then obtain c' where "invoke_round net proc req c = Some (None, c')" "t \<le> cl_time c'" "cl_primary c' = p"
      using settled_round [OF assms(1,2)] assms(3) by blast
    then show ?thesis using ok [of c' 0] by (simp add: numeral_2_eq_2)
  qed
qed

text \<open>A network of three nodes where \<open>1\<close> is down and \<open>3\<close> is the primary.\<close>

definition net3 :: net where
  "net3 = \<lparr> net_members = (\<lambda>k m. if m = ''1'' then None else Some (rp_OK, [''1'', ''2'', ''3'', ''3''])),
     net_invoke = (\<lambda>k m proc req. if m = ''1'' then None else if m = ''3'' then Some (rcp_OK, req)
       else Some (rcp_NOTPRIMARY, [])) \<rparr>"

theorem rsm_client_finds_primary_witness:
  "\<exists>rep c'. rsm_invoke 2 net3 7 ''x'' \<lparr> cl_primary = ''1'', cl_known = [''1'', ''2'', ''3''], cl_time = 0 \<rparr> =
     Some (Inr (rep, c')) \<and> cl_primary c' = ''3'' \<and> rep = ''x''"
proof -
  have m: "[''1'', ''2'', ''3'', ''3''] = [''1'', ''2'', ''3''] @ [''3'']" by simp
  have s: "settled net3 0 ''3''"
    unfolding settled_def net3_def m by (auto simp: rsm_codes)
  from rsm_client_finds_primary [OF s, of "\<lparr> cl_primary = ''1'', cl_known = [''1'', ''2'', ''3''], cl_time = 0 \<rparr>" 7 "''x''"]
  show ?thesis by (auto simp: net3_def)
qed

end
