(* ===== verification/Connection.thy ===== *)
theory Connection
  imports Marshal
begin

text \<open>
  The message framing of a TCP connection (\<open>rpc/connection.cc\<close>): a message is sent as its size, in
  network byte order over its first four bytes, followed by the rest.  The results of the system calls
  are arguments.  \<open>None\<close> is a failed \<open>VERIFY\<close> or an access outside an allocated buffer.
\<close>

section \<open>State\<close>

definition MAX_PDU :: int where "MAX_PDU = 10 * 2 ^ 20"

record charbuf =
  cb_buf :: "byte list option"
  cb_sz :: int
  cb_solong :: int

definition charbuf_new :: charbuf where
  "charbuf_new = \<lparr> cb_buf = None, cb_sz = 0, cb_solong = 0 \<rparr>"

record connection =
  cn_dead :: bool
  cn_wpdu :: charbuf
  cn_rpdu :: charbuf
  cn_refno :: int
  cn_time :: "int \<times> int"                    \<comment> \<open>seconds and microseconds\<close>

definition connection_new :: "int \<times> int \<Rightarrow> connection" where
  "connection_new t = \<lparr> cn_dead = False, cn_wpdu = charbuf_new, cn_rpdu = charbuf_new, cn_refno = 1, cn_time = t \<rparr>"

text \<open>The outcome of \<open>read\<close> and \<open>write\<close>; the flags tell whether \<open>errno\<close> is \<open>EAGAIN\<close>, which after an end of
  file is left over from an earlier call.\<close>

datatype rd_res = RdBytes "byte list" | RdEOF bool | RdErr bool
datatype wr_res = WrN nat | WrErr bool

section \<open>Reference counts\<close>

definition conn_incref :: "connection \<Rightarrow> connection" where
  "conn_incref c = c\<lparr> cn_refno := cn_refno c + 1 \<rparr>"

text \<open>The flag tells whether the object is deleted.\<close>

definition conn_decref :: "connection \<Rightarrow> (bool \<times> connection) option" where
  "conn_decref c =
     (let c = c\<lparr> cn_refno := cn_refno c - 1 \<rparr>
      in if \<not> cn_refno c \<ge> 0 then None else Some (cn_refno c = 0 \<and> cn_dead c, c))"

definition closeconn :: "connection \<Rightarrow> connection" where
  "closeconn c = c\<lparr> cn_dead := True \<rparr>"

definition conn_compare :: "connection \<Rightarrow> connection \<Rightarrow> int" where
  "conn_compare c d =
     (if fst (cn_time c) > fst (cn_time d) then 1
      else if fst (cn_time c) < fst (cn_time d) then - 1
      else if snd (cn_time c) > snd (cn_time d) then 1
      else if snd (cn_time c) < snd (cn_time d) then - 1
      else 0)"

section \<open>Writing\<close>

text \<open>The result, the buffer afterwards, and the bytes that went to the socket.\<close>

definition writepdu :: "charbuf \<Rightarrow> wr_res \<Rightarrow> (bool \<times> charbuf \<times> byte list) option" where
  "writepdu w out =
     (if \<not> cb_solong w \<ge> 0 then None
      else if cb_solong w = cb_sz w then Some (True, w, [])
      else do {
        buf \<leftarrow> cb_buf w;
        let buf = (if cb_solong w = 0 then memcpy_at buf 0 (enc_uint (word_of_int (cb_sz w))) else buf);
        Some (case out of
            WrErr again \<Rightarrow>
              (again, if again then w\<lparr> cb_buf := Some buf \<rparr>
                      else w\<lparr> cb_buf := Some buf, cb_solong := - 1, cb_sz := 0 \<rparr>, [])
          | WrN n \<Rightarrow> (True, w\<lparr> cb_buf := Some buf, cb_solong := cb_solong w + int n \<rparr>, take n (drop (nat (cb_solong w)) buf))) })"

text \<open>\<open>send\<close> up to its wait for completion (it waits first while another message is being written, and
  returns false on a dead connection); the callback that goes on writing; and its end.\<close>

definition send_begin :: "connection \<Rightarrow> byte list \<Rightarrow> wr_res \<Rightarrow> (connection \<times> byte list) option" where
  "send_begin c b out =
     (if cn_dead c \<or> cb_buf (cn_wpdu c) \<noteq> None then None
      else do {
        (ok, w, bs) \<leftarrow> writepdu \<lparr> cb_buf = Some b, cb_sz = int (length b), cb_solong = 0 \<rparr> out;
        Some (c\<lparr> cn_wpdu := w, cn_dead := \<not> ok \<rparr>, bs) })"

definition write_cb :: "connection \<Rightarrow> wr_res \<Rightarrow> (connection \<times> byte list) option" where
  "write_cb c out =
     (if cn_dead c then None
      else if cb_sz (cn_wpdu c) = 0 then Some (c, [])
      else do {
        (ok, w, bs) \<leftarrow> writepdu (cn_wpdu c) out;
        Some (c\<lparr> cn_wpdu := w, cn_dead := \<not> ok \<rparr>, bs) })"

definition send_end :: "connection \<Rightarrow> bool \<times> connection" where
  "send_end c = (\<not> cn_dead c \<and> cb_solong (cn_wpdu c) = cb_sz (cn_wpdu c), c\<lparr> cn_wpdu := charbuf_new \<rparr>)"

section \<open>Reading\<close>

definition ntohl :: "byte list \<Rightarrow> u32" where
  "ntohl bs = push_bit 24 (ucast (bs ! 0)) OR push_bit 16 (ucast (bs ! 1)) OR push_bit 8 (ucast (bs ! 2)) OR ucast (bs ! 3)"

text \<open>The first read, of the size: \<open>Some None\<close> is \<open>return false\<close>.  For a negative size the allocation of
  \<open>sz + 4\<close> bytes fails or is too small for the size itself.\<close>

definition readpdu_header :: "(nat \<Rightarrow> byte) \<Rightarrow> charbuf \<Rightarrow> rd_res \<Rightarrow> charbuf option option" where
  "readpdu_header junk cb r =
     (case r of
        RdEOF e \<Rightarrow> Some None
      | RdErr again \<Rightarrow> if again then None else Some None
      | RdBytes bs \<Rightarrow>
          if length bs \<noteq> 4 then Some None
          else let sz = sint (ntohl bs)
               in if sz > MAX_PDU then Some None
                  else if cb_buf cb \<noteq> None then None
                  else if sz < 0 then None
                  else Some (Some \<lparr> cb_buf = Some (bs @ map junk [0 ..< nat sz]), cb_sz = sz, cb_solong = 4 \<rparr>))"

text \<open>The second read, of at most \<open>sz - solong\<close> bytes, converted to an unsigned size.\<close>

definition readpdu_body :: "charbuf \<Rightarrow> rd_res \<Rightarrow> (bool \<times> charbuf) option" where
  "readpdu_body cb r =
     (case r of
        RdBytes bs \<Rightarrow> do {
          buf \<leftarrow> cb_buf cb;
          if cb_solong cb + int (length bs) > int (length buf) then None
          else Some (True, cb\<lparr> cb_buf := Some (memcpy_at buf (nat (cb_solong cb)) bs), cb_solong := cb_solong cb + int (length bs) \<rparr>) }
      | RdEOF again \<Rightarrow> Some (if again then (True, cb) else (False, charbuf_new))
      | RdErr again \<Rightarrow> Some (if again then (True, cb) else (False, charbuf_new)))"

definition readpdu :: "(nat \<Rightarrow> byte) \<Rightarrow> charbuf \<Rightarrow> rd_res \<Rightarrow> rd_res \<Rightarrow> (bool \<times> charbuf) option" where
  "readpdu junk cb r1 r2 =
     (if cb_sz cb = 0 then do {
        h \<leftarrow> readpdu_header junk cb r1;
        case h of None \<Rightarrow> Some (False, cb) | Some cb \<Rightarrow> readpdu_body cb r2 }
      else readpdu_body cb r2)"

text \<open>The callback: the message handed to \<open>got_pdu\<close>, if one is complete, and whether it was consumed.\<close>

definition read_cb ::
  "(nat \<Rightarrow> byte) \<Rightarrow> (byte list \<Rightarrow> bool) \<Rightarrow> connection \<Rightarrow> rd_res \<Rightarrow> rd_res \<Rightarrow> (byte list option \<times> connection) option" where
  "read_cb junk got_pdu c r1 r2 =
     (if cn_dead c then Some (None, c)
      else do {
        (succ, cb) \<leftarrow> (if cb_buf (cn_rpdu c) = None \<or> cb_solong (cn_rpdu c) < cb_sz (cn_rpdu c)
                      then readpdu junk (cn_rpdu c) r1 r2 else Some (True, cn_rpdu c));
        let c = c\<lparr> cn_rpdu := cb, cn_dead := \<not> succ \<rparr>;
        Some (case cb_buf cb of
            None \<Rightarrow> (None, c)
          | Some buf \<Rightarrow>
              if cb_sz cb = cb_solong cb then
                let pdu = take (nat (cb_sz cb)) buf
                in (Some pdu, if got_pdu pdu then c\<lparr> cn_rpdu := charbuf_new \<rparr> else c)
              else (None, c)) })"

section \<open>What goes over the wire\<close>

definition frame :: "byte list \<Rightarrow> byte list" where
  "frame b = enc_uint (of_nat (length b)) @ drop 4 b"

lemma length_frame [simp]: "4 \<le> length b \<Longrightarrow> length (frame b) = length b"
  by (simp add: frame_def)

lemma ntohl_enc [simp]: "ntohl (enc_uint x) = x"
  by (simp add: ntohl_def enc_uint_def u32_from_bytes)

text \<open>A message being written, by any number of partial writes.\<close>

inductive sending :: "byte list \<Rightarrow> connection \<Rightarrow> byte list \<Rightarrow> bool" for b where
  start: "send_begin c b out = Some (c', bs) \<Longrightarrow> (\<forall>n. out = WrN n \<longrightarrow> n \<le> length b) \<Longrightarrow> sending b c' bs"
| more: "sending b c sent \<Longrightarrow> write_cb c out = Some (c', bs) \<Longrightarrow>
    (\<forall>n. out = WrN n \<longrightarrow> int n \<le> cb_sz (cn_wpdu c) - cb_solong (cn_wpdu c)) \<Longrightarrow> sending b c' (sent @ bs)"


section \<open>The sender\<close>

lemma enc_word_of_int [simp]: "enc_uint (word_of_int (int n)) = enc_uint (of_nat n)"
  by simp

definition sending_inv :: "byte list \<Rightarrow> connection \<Rightarrow> byte list \<Rightarrow> bool" where
  "sending_inv b c sent =
     (let w = cn_wpdu c
      in if cn_dead c then \<exists>k. sent = take k (frame b)
         else cb_sz w = int (length b) \<and> 0 \<le> cb_solong w \<and> cb_solong w \<le> cb_sz w \<and>
              sent = take (nat (cb_solong w)) (frame b) \<and>
              cb_buf w = Some (if cb_solong w = 0 \<and> cb_buf w = Some b then b else frame b))"

lemma frame_eq: "4 \<le> length b \<Longrightarrow> memcpy_at b 0 (enc_uint (of_nat (length b))) = frame b"
  by (simp add: memcpy_at_def frame_def)

lemma frame_again [simp]: "4 \<le> length b \<Longrightarrow> memcpy_at (frame b) 0 (enc_uint (of_nat (length b))) = frame b"
  by (simp add: memcpy_at_def frame_def)

lemma sending_write:
  assumes "4 \<le> length b" "cb_sz w = int (length b)" "0 \<le> cb_solong w" "cb_solong w \<le> cb_sz w"
    and "cb_buf w = Some (if cb_solong w = 0 \<and> cb_buf w = Some b then b else frame b)"
    and "\<forall>n. out = WrN n \<longrightarrow> int n \<le> cb_sz w - cb_solong w"
    and "writepdu w out = Some (ok, w', bs)"
    and "c' = c\<lparr> cn_wpdu := w', cn_dead := \<not> ok \<rparr>"
  shows "sending_inv b c' (take (nat (cb_solong w)) (frame b) @ bs)"
proof (cases "cb_solong w = cb_sz w")
  case True
  then show ?thesis using assms by (simp add: writepdu_def sending_inv_def)
next
  case False
  define buf where "buf = (if cb_solong w = 0 \<and> cb_buf w = Some b then b else frame b)"
  have b: "cb_buf w = Some buf" using assms(5) by (simp add: buf_def)
  have f: "(if cb_solong w = 0 then memcpy_at buf 0 (enc_uint (word_of_int (cb_sz w))) else buf) = frame b"
    using assms(1,2) by (auto simp: buf_def frame_eq)
  show ?thesis
  proof (cases out)
    case (WrErr again)
    then show ?thesis using assms(2,3,4,7,8) False
      by (auto simp: writepdu_def b f sending_inv_def Let_def split: if_splits)
  next
    case (WrN n)
    have n: "int n \<le> cb_sz w - cb_solong w" using assms(6) WrN by simp
    have w': "w' = w\<lparr> cb_buf := Some (frame b), cb_solong := cb_solong w + int n \<rparr>" "ok"
        "bs = take n (drop (nat (cb_solong w)) (frame b))"
      using assms(2,3,4,7) False WrN by (auto simp: writepdu_def b f Let_def)
    show ?thesis using w' n assms(2,3,4,8)
      by (auto simp: sending_inv_def Let_def nat_add_distrib take_add)
  qed
qed

lemma sending_invariant: "sending b c sent \<Longrightarrow> 4 \<le> length b \<Longrightarrow> sending_inv b c sent"
proof (induction rule: sending.induct)
  case (start c out c' bs)
  let ?w = "\<lparr> cb_buf = Some b, cb_sz = int (length b), cb_solong = 0 \<rparr>"
  obtain ok w where w: "writepdu ?w out = Some (ok, w, bs)" "c' = c\<lparr> cn_wpdu := w, cn_dead := \<not> ok \<rparr>"
    using start(1) by (auto simp: send_begin_def split: if_splits bind_splits)
  show ?case using sending_write [OF start(3) _ _ _ _ _ w] start(2) by simp
next
  case (more c sent out c' bs)
  have inv: "sending_inv b c sent" using more by simp
  have d: "\<not> cn_dead c" using more(2) by (auto simp: write_cb_def split: if_splits)
  note i = inv [unfolded sending_inv_def Let_def if_not_P [OF d]]
  have z: "cb_sz (cn_wpdu c) \<noteq> 0" using i more(5) by auto
  obtain ok w where w: "writepdu (cn_wpdu c) out = Some (ok, w, bs)" "c' = c\<lparr> cn_wpdu := w, cn_dead := \<not> ok \<rparr>"
    using more(2) d z by (auto simp: write_cb_def split: if_splits bind_splits)
  show ?case
    using sending_write [OF more(5) _ _ _ _ more(3) w] i by simp
qed

section \<open>The receiver\<close>

text \<open>The conversion of an \<open>int\<close> to a \<open>size_t\<close>.\<close>

definition as_size :: "int \<Rightarrow> nat" where
  "as_size k = nat (k mod 2 ^ 64)"

lemma as_size_nonneg: "0 \<le> k \<Longrightarrow> k \<le> MAX_PDU \<Longrightarrow> as_size k = nat k"
  by (simp add: as_size_def MAX_PDU_def)

lemma as_size_neg: "k < 0 \<Longrightarrow> - 4 \<le> k \<Longrightarrow> as_size k = nat (2 ^ 64 + k)"
  using mod_add_self1 [of "2 ^ 64" k] mod_pos_pos_trivial [of "2 ^ 64 + k" "2 ^ 64"] by (simp add: as_size_def)

text \<open>A non-blocking read of at most \<open>n\<close> bytes from a socket that holds \<open>s\<close> and stays open, and the call of
  \<open>read_cb\<close> that follows when the poll loop finds the socket readable.  A request for no bytes returns 0.\<close>

definition sock_read :: "nat \<Rightarrow> byte list \<Rightarrow> rd_res \<times> byte list" where
  "sock_read n s = (if n = 0 then (RdEOF False, s) else if s = [] then (RdErr True, []) else (RdBytes (take n s), drop n s))"

definition poll_read :: "(nat \<Rightarrow> byte) \<Rightarrow> bool \<Rightarrow> connection \<Rightarrow> byte list \<Rightarrow> (byte list option \<times> connection \<times> byte list) option" where
  "poll_read junk ok c s =
     (let cb = cn_rpdu c;
          due = (\<not> cn_dead c \<and> (cb_buf cb = None \<or> cb_solong cb < cb_sz cb));
          (r1, s1) = (if due \<and> cb_sz cb = 0 then sock_read 4 s else (RdEOF False, s));
          (r2, s2) = (if \<not> due then (RdEOF False, s1)
                      else if cb_sz cb \<noteq> 0 then sock_read (nat (cb_sz cb - cb_solong cb)) s1
                      else case r1 of RdBytes bs \<Rightarrow>
                             if length bs = 4 \<and> sint (ntohl bs) \<le> MAX_PDU
                             then sock_read (as_size (sint (ntohl bs) - 4)) s1
                             else (RdEOF False, s1)
                           | _ \<Rightarrow> (RdEOF False, s1))
      in do { (m, c) \<leftarrow> read_cb junk (\<lambda>_. ok) c r1 r2; Some (m, c, s2) })"

datatype rx_event = Arrive "byte list" | Poll bool

type_synonym rx_state = "connection \<times> byte list \<times> byte list list"

definition rx_step :: "(nat \<Rightarrow> byte) \<Rightarrow> rx_event \<Rightarrow> rx_state \<Rightarrow> rx_state option" where
  "rx_step junk e st =
     (case st of (c, s, msgs) \<Rightarrow>
        (case e of
           Arrive bs \<Rightarrow> Some (c, s @ bs, msgs)
         | Poll ok \<Rightarrow>
             if s = [] \<or> cn_dead c then Some st
             else do {
               (m, c, s) \<leftarrow> poll_read junk ok c s;
               Some (c, s, msgs @ (case m of Some b \<Rightarrow> if ok then [b] else [] | None \<Rightarrow> [])) }))"

primrec rx_run :: "(nat \<Rightarrow> byte) \<Rightarrow> rx_event list \<Rightarrow> rx_state \<Rightarrow> rx_state option" where
  "rx_run junk [] st = Some st"
| "rx_run junk (e # es) st = do { st \<leftarrow> rx_step junk e st; rx_run junk es st }"

primrec arrived :: "rx_event list \<Rightarrow> byte list" where
  "arrived [] = []"
| "arrived (e # es) = (case e of Arrive bs \<Rightarrow> bs | Poll _ \<Rightarrow> []) @ arrived es"

text \<open>Whether the poll of a state reads only a part of a size field.\<close>

definition short_header :: "rx_state \<Rightarrow> bool" where
  "short_header st = (case st of (c, s, _) \<Rightarrow> cb_sz (cn_rpdu c) = 0 \<and> 0 < length s \<and> length s < 4)"

definition pdu_ok :: "byte list \<Rightarrow> bool" where
  "pdu_ok b = (4 < length b \<and> int (length b) \<le> MAX_PDU)"

definition frames :: "byte list list \<Rightarrow> byte list" where
  "frames ms = concat (map frame ms)"

text \<open>The receiver has delivered the first \<open>k\<close> messages and holds a part of the next.\<close>

definition rx_part :: "byte list \<Rightarrow> charbuf \<Rightarrow> byte list \<Rightarrow> bool" where
  "rx_part m cb rest =
     (\<exists>j buf. cb = \<lparr> cb_buf = Some buf, cb_sz = int (length m), cb_solong = int j \<rparr> \<and> 4 \<le> j \<and> j \<le> length m \<and>
        length buf = length m + 4 \<and> take j buf = take j (frame m) \<and> rest = drop j (frame m))"

definition rx_inv :: "byte list list \<Rightarrow> byte list \<Rightarrow> rx_state \<Rightarrow> bool" where
  "rx_inv todo fut st =
     (case st of (c, s, msgs) \<Rightarrow> \<not> cn_dead c \<and>
        (cn_rpdu c = charbuf_new \<and> s @ fut = frames todo \<or>
         (\<exists>m ms rest. todo = m # ms \<and> rx_part m (cn_rpdu c) rest \<and> s @ fut = rest @ frames ms)))"

primrec headers_whole :: "(nat \<Rightarrow> byte) \<Rightarrow> rx_event list \<Rightarrow> rx_state \<Rightarrow> bool" where
  "headers_whole junk [] st = True"
| "headers_whole junk (e # es) st =
     ((case e of Poll _ \<Rightarrow> \<not> short_header st | Arrive _ \<Rightarrow> True) \<and>
      (case rx_step junk e st of None \<Rightarrow> True | Some st' \<Rightarrow> headers_whole junk es st'))"

lemma frames_Cons [simp]: "frames (m # ms) = frame m @ frames ms"
  by (simp add: frames_def)

lemma frames_Nil [simp]: "frames [] = []"
  by (simp add: frames_def)

lemma sock_read_part:
  assumes "s @ fut = rest @ mre" "sock_read (length rest) s = (r, s')" "rest \<noteq> []"
  shows "r = RdErr True \<and> s = [] \<and> s' = [] \<or>
    (\<exists>k. r = RdBytes (take k rest) \<and> 0 < k \<and> k \<le> length rest \<and> s' @ fut = drop k rest @ mre)"
proof (cases "s = []")
  case True
  then show ?thesis using assms by (simp add: sock_read_def)
next
  case False
  let ?n = "length rest"
  have rs: "r = RdBytes (take ?n s)" "s' = drop ?n s" using assms False by (auto simp: sock_read_def)
  show ?thesis
  proof (cases "?n \<le> length s")
    case True
    then obtain s2 where "s = rest @ s2" using assms(1) by (metis append_eq_append_conv_if append_take_drop_id)
    then show ?thesis using assms rs by (intro disjI2 exI [of _ ?n]) auto
  next
    case f: False
    then obtain r2 where "rest = s @ r2" using assms(1)
      by (metis append_eq_append_conv2 le_add1 length_append)
    then show ?thesis using assms rs f False by (intro disjI2 exI [of _ "length s"]) auto
  qed
qed

lemma readpdu_body_part:
  assumes "rx_part m cb rest" "s @ fut = rest @ mre" "sock_read (length rest) s = (r, s')" "rest \<noteq> []"
    "4 \<le> length m"
  obtains cb' rest' where "readpdu_body cb r = Some (True, cb')" "rx_part m cb' rest'" "s' @ fut = rest' @ mre"
    "s \<noteq> [] \<Longrightarrow> length rest' < length rest"
proof -
  obtain j buf where p: "cb = \<lparr> cb_buf = Some buf, cb_sz = int (length m), cb_solong = int j \<rparr>" "4 \<le> j" "j \<le> length m"
      "length buf = length m + 4" "take j buf = take j (frame m)" "rest = drop j (frame m)"
    using assms(1) by (auto simp: rx_part_def)
  from sock_read_part [OF assms(2-4)] show ?thesis
  proof (elim disjE exE conjE)
    assume "r = RdErr True" "s = []" "s' = []"
    then show ?thesis using assms by (intro that [of cb rest]) (auto simp: readpdu_body_def)
  next
    fix k assume k: "r = RdBytes (take k rest)" "0 < k" "k \<le> length rest" "s' @ fut = drop k rest @ mre"
    have jk: "j + k \<le> length m" using k(3) p(3,6) assms(5) by simp
    let ?buf = "memcpy_at buf j (take k rest)"
    let ?cb = "\<lparr> cb_buf = Some ?buf, cb_sz = int (length m), cb_solong = int (j + k) \<rparr>"
    have t: "take (j + k) ?buf = take (j + k) (frame m)"
      using p jk k(3) take_memcpy_at [of j "take k rest" buf] by (simp add: take_add min_absorb2)
    have "readpdu_body cb r = Some (True, ?cb)"
      using p k jk by (simp add: readpdu_body_def min_absorb2)
    moreover have "rx_part m ?cb (drop k rest)"
      unfolding rx_part_def using t p jk k(3)
      by (intro exI [of _ "j + k"] exI [of _ ?buf]) (simp add: length_memcpy_at min_absorb2 add.commute)
    ultimately show ?thesis using that k by simp
  qed
qed

lemma readpdu_header_frame:
  assumes "pdu_ok m"
  shows "readpdu_header junk charbuf_new (RdBytes (take 4 (frame m))) =
    Some (Some \<lparr> cb_buf = Some (take 4 (frame m) @ map junk [0 ..< length m]), cb_sz = int (length m), cb_solong = 4 \<rparr>)"
    and "sint (ntohl (take 4 (frame m))) = int (length m)"
proof -
  have small: "length m < 2 ^ 31" using assms by (simp add: pdu_ok_def MAX_PDU_def)
  have t: "take 4 (frame m) = enc_uint (of_nat (length m))" by (simp add: frame_def)
  show n: "sint (ntohl (take 4 (frame m))) = int (length m)"
    using small by (simp add: t sint_uint unsigned_of_nat take_bit_nat_eq_self signed_take_bit_int_eq_self)
  show "readpdu_header junk charbuf_new (RdBytes (take 4 (frame m))) =
    Some (Some \<lparr> cb_buf = Some (take 4 (frame m) @ map junk [0 ..< length m]), cb_sz = int (length m), cb_solong = 4 \<rparr>)"
    using assms n by (simp add: readpdu_header_def pdu_ok_def charbuf_new_def t)
qed

lemma rx_part_complete:
  assumes "rx_part m cb rest" "4 \<le> length m"
  shows "cb_sz cb = cb_solong cb \<longleftrightarrow> rest = []" "rest = [] \<Longrightarrow> take (nat (cb_sz cb)) (the (cb_buf cb)) = frame m"
    "cb_buf cb \<noteq> None" "cb_sz cb \<noteq> 0" "nat (cb_sz cb - cb_solong cb) = length rest"
    "cb_solong cb < cb_sz cb \<longleftrightarrow> rest \<noteq> []"
  using assms by (auto simp: rx_part_def)

text \<open>The message, if complete, is handed over.\<close>

definition rx_deliver :: "bool \<Rightarrow> connection \<Rightarrow> charbuf \<Rightarrow> byte list \<Rightarrow> byte list option \<times> connection" where
  "rx_deliver ok c cb m =
     (if cb_solong cb < cb_sz cb then (None, c\<lparr> cn_rpdu := cb \<rparr>)
      else (Some (frame m), c\<lparr> cn_rpdu := if ok then charbuf_new else cb \<rparr>))"

lemma read_cb_deliver:
  assumes "\<not> cn_dead c" "rx_part m cb rest" "4 \<le> length m"
    "(if cb_buf (cn_rpdu c) = None \<or> cb_solong (cn_rpdu c) < cb_sz (cn_rpdu c)
                      then readpdu junk (cn_rpdu c) r1 r2 else Some (True, cn_rpdu c)) = Some (True, cb)"
  shows "read_cb junk (\<lambda>_. ok) c r1 r2 = Some (rx_deliver ok c cb m)"
proof -
  note p = rx_part_complete [OF assms(2,3)]
  obtain buf where b: "cb_buf cb = Some buf" using p(3) by auto
  show ?thesis
    using assms(1) p(1,2,6) b unfolding read_cb_def assms(4)
    by (auto simp: rx_deliver_def Let_def split: option.splits)
qed

lemma poll_read_part:
  assumes "\<not> cn_dead c" "rx_part m (cn_rpdu c) rest" "s @ fut = rest @ mre" "4 \<le> length m"
  obtains cb rest' s' where "poll_read junk ok c s = Some (fst (rx_deliver ok c cb m), snd (rx_deliver ok c cb m), s')"
    "rx_part m cb rest'" "s' @ fut = rest' @ mre"
proof (cases "rest = []")
  case True
  note p = rx_part_complete [OF assms(2,4)]
  have "read_cb junk (\<lambda>_. ok) c r1 r2 = Some (rx_deliver ok c (cn_rpdu c) m)" for r1 r2
    using assms True p by (intro read_cb_deliver) auto
  then have "poll_read junk ok c s = Some (fst (rx_deliver ok c (cn_rpdu c) m), snd (rx_deliver ok c (cn_rpdu c) m), s)"
    using True p by (simp add: poll_read_def case_prod_beta Let_def)
  then show ?thesis using that assms True by blast
next
  case False
  note p = rx_part_complete [OF assms(2,4)]
  obtain r s' where r: "sock_read (length rest) s = (r, s')" by fastforce
  obtain cb rest' where b: "readpdu_body (cn_rpdu c) r = Some (True, cb)" "rx_part m cb rest'" "s' @ fut = rest' @ mre"
    using readpdu_body_part [OF assms(2,3) r False assms(4)] by metis
  have "read_cb junk (\<lambda>_. ok) c (RdEOF False) r = Some (rx_deliver ok c cb m)"
    using assms b p False by (intro read_cb_deliver) (auto simp: readpdu_def)
  then have "poll_read junk ok c s = Some (fst (rx_deliver ok c cb m), snd (rx_deliver ok c cb m), s')"
    using False p r assms(1) by (simp add: poll_read_def case_prod_beta Let_def)
  then show ?thesis using that b by blast
qed

lemma poll_read_new:
  assumes "\<not> cn_dead c" "cn_rpdu c = charbuf_new" "s @ fut = frame m @ mre" "pdu_ok m" "4 \<le> length s"
  obtains cb rest' s' where "poll_read junk ok c s = Some (fst (rx_deliver ok c cb m), snd (rx_deliver ok c cb m), s')"
    "rx_part m cb rest'" "s' @ fut = rest' @ mre"
proof -
  have l: "4 < length m" using assms(4) by (simp add: pdu_ok_def)
  let ?cb = "\<lparr> cb_buf = Some (take 4 (frame m) @ map junk [0 ..< length m]), cb_sz = int (length m), cb_solong = 4 \<rparr>"
  have part: "rx_part m ?cb (drop 4 (frame m))"
    unfolding rx_part_def using l
    by (intro exI [of _ 4] exI [of _ "take 4 (frame m) @ map junk [0 ..< length m]"]) (simp add: frame_def)
  have t: "take 4 s = take 4 (frame m)" using arg_cong [OF assms(3), of "take 4"] assms(5) l by simp
  have d: "drop 4 s @ fut = drop 4 (frame m) @ mre" using arg_cong [OF assms(3), of "drop 4"] assms(5) l by simp
  have n: "length (drop 4 (frame m)) = length m - 4" using l by simp
  obtain r s' where r: "sock_read (length (drop 4 (frame m))) (drop 4 s) = (r, s')" by fastforce
  obtain cb rest' where b: "readpdu_body ?cb r = Some (True, cb)" "rx_part m cb rest'" "s' @ fut = rest' @ mre"
    using readpdu_body_part [OF part d r] l n by (metis length_0_conv less_imp_le zero_less_diff less_numeral_extra(3))
  have "read_cb junk (\<lambda>_. ok) c (RdBytes (take 4 (frame m))) r = Some (rx_deliver ok c cb m)"
    using assms b l by (intro read_cb_deliver) (auto simp: readpdu_def charbuf_new_def readpdu_header_frame [unfolded charbuf_new_def])
  moreover have "as_size (int (length m) - 4) = length m - 4"
    using l assms(4) by (simp add: as_size_nonneg pdu_ok_def)
  moreover have "length (take 4 (frame m)) = 4" "s \<noteq> []" using l assms(5) by auto
  moreover have "int (length m) \<le> MAX_PDU" using assms(4) by (simp add: pdu_ok_def)
  ultimately have "poll_read junk ok c s = Some (fst (rx_deliver ok c cb m), snd (rx_deliver ok c cb m), s')"
    using assms(1,2,4) r n t
    by (simp add: poll_read_def case_prod_beta Let_def charbuf_new_def sock_read_def [of 4] readpdu_header_frame)
  then show ?thesis using that b by blast
qed

lemma rx_step_inv:
  assumes inv: "rx_inv todo ((case e of Arrive bs \<Rightarrow> bs | Poll _ \<Rightarrow> []) @ fut) (c, s, msgs)"
    and ok: "\<forall>m\<in>set todo. pdu_ok m" and h: "case e of Poll _ \<Rightarrow> \<not> short_header (c, s, msgs) | Arrive _ \<Rightarrow> True"
  obtains c' s' out todo' where "rx_step junk e (c, s, msgs) = Some (c', s', msgs @ out)"
    "map frame todo = out @ map frame todo'" "set todo' \<subseteq> set todo" "rx_inv todo' fut (c', s', msgs @ out)"
proof (cases e)
  case (Arrive bs)
  then show ?thesis using inv that [of c "s @ bs" "[]" todo] by (simp add: rx_step_def rx_inv_def)
next
  case (Poll ok)
  show ?thesis
  proof (cases "s = []")
    case True
    then show ?thesis using inv Poll that [of c s "[]" todo] by (simp add: rx_step_def)
  next
    case False
    have nd: "\<not> cn_dead c" using inv by (simp add: rx_inv_def)
    have "\<exists>m ms cb rest' s'. todo = m # ms \<and> poll_read junk ok c s = Some (fst (rx_deliver ok c cb m), snd (rx_deliver ok c cb m), s') \<and>
        rx_part m cb rest' \<and> s' @ fut = rest' @ frames ms"
    proof (cases "cn_rpdu c = charbuf_new")
      case True
      have f: "s @ fut = frames todo" using inv True Poll
        by (auto simp: rx_inv_def rx_part_def charbuf_new_def)
      then obtain m ms where t: "todo = m # ms" using False by (cases todo) auto
      have "4 \<le> length s" using h Poll True False by (auto simp: short_header_def charbuf_new_def)
      then show ?thesis
        using poll_read_new [OF nd True, of s fut m "frames ms"] f t assms(2) by (metis frames_Cons list.set_intros(1))
    next
      case new: False
      then obtain m ms rest where t: "todo = m # ms" "rx_part m (cn_rpdu c) rest" "s @ fut = rest @ frames ms"
        using inv Poll by (auto simp: rx_inv_def)
      have "4 \<le> length m" using assms(2) t(1) by (simp add: pdu_ok_def)
      then show ?thesis using poll_read_part [OF nd t(2,3)] t(1) by metis
    qed
    then obtain m ms cb rest' s' where p: "todo = m # ms"
        "poll_read junk ok c s = Some (fst (rx_deliver ok c cb m), snd (rx_deliver ok c cb m), s')"
        "rx_part m cb rest'" "s' @ fut = rest' @ frames ms"
      by blast
    have "4 \<le> length m" using assms(2) p(1) by (simp add: pdu_ok_def)
    note q = rx_part_complete [OF p(3) this]
    show ?thesis
    proof (cases "rest' = [] \<and> ok")
      case True
      then show ?thesis using p q nd False Poll
        by (intro that [of "c\<lparr> cn_rpdu := charbuf_new \<rparr>" s' "[frame m]" ms])
          (auto simp: rx_step_def rx_deliver_def rx_inv_def)
    next
      case f: False
      then show ?thesis using p q nd False Poll
        by (intro that [of "c\<lparr> cn_rpdu := cb \<rparr>" s' "[]" todo])
          (auto simp: rx_step_def rx_deliver_def rx_inv_def)
    qed
  qed
qed

lemma rx_run_inv:
  assumes "rx_inv todo (arrived es @ fut) (c, s, msgs)" "\<forall>m\<in>set todo. pdu_ok m" "headers_whole junk es (c, s, msgs)"
  shows "\<exists>c' s' out todo'. rx_run junk es (c, s, msgs) = Some (c', s', msgs @ out) \<and>
    map frame todo = out @ map frame todo' \<and> rx_inv todo' fut (c', s', msgs @ out)"
  using assms
proof (induction es arbitrary: todo c s msgs)
  case Nil
  then show ?case by (intro exI [of _ c] exI [of _ s] exI [of _ "[]"] exI [of _ todo]) simp
next
  case (Cons e es)
  have inv: "rx_inv todo ((case e of Arrive bs \<Rightarrow> bs | Poll _ \<Rightarrow> []) @ arrived es @ fut) (c, s, msgs)"
    using Cons.prems(1) by simp
  have h: "case e of Poll _ \<Rightarrow> \<not> short_header (c, s, msgs) | Arrive _ \<Rightarrow> True" using Cons.prems(3) by simp
  obtain c' s' out todo' where st: "rx_step junk e (c, s, msgs) = Some (c', s', msgs @ out)"
      "map frame todo = out @ map frame todo'" "set todo' \<subseteq> set todo" "rx_inv todo' (arrived es @ fut) (c', s', msgs @ out)"
    using rx_step_inv [OF inv Cons.prems(2) h] by metis
  have "\<exists>c2 s2 out2 todo2. rx_run junk es (c', s', msgs @ out) = Some (c2, s2, (msgs @ out) @ out2) \<and>
    map frame todo' = out2 @ map frame todo2 \<and> rx_inv todo2 fut (c2, s2, (msgs @ out) @ out2)"
    using st Cons.prems(2,3) by (intro Cons.IH) auto
  then show ?case using st by fastforce
qed

section \<open>Properties\<close>

text \<open>C29: The bytes that any sequence of partial, interrupted or failed writes of a message puts on the wire
  are a prefix of its frame, and \<open>send\<close> returns true only when the whole frame was written.\<close>

theorem send_writes_frame:
  assumes "sending b c sent" "4 \<le> length b"
  shows "(\<exists>k. sent = take k (frame b)) \<and> (fst (send_end c) \<longrightarrow> sent = frame b)"
  using sending_invariant [OF assms] assms(2)
  by (auto simp: sending_inv_def send_end_def Let_def split: if_splits)

theorem send_writes_frame_witness:
  "sending [0,0,0,0,7,8] (connection_new (0, 0)
      \<lparr> cn_wpdu := \<lparr> cb_buf = Some [0,0,0,6,7,8], cb_sz = 6, cb_solong = 6 \<rparr> \<rparr>) [0,0,0,6,7,8] \<and>
   frame [0,0,0,0,7,8] = [0,0,0,6,7,8]"
proof -
  let ?b = "[0,0,0,0,7,8] :: byte list"
  let ?c = "\<lambda>n. connection_new (0, 0) \<lparr> cn_wpdu := \<lparr> cb_buf = Some [0,0,0,6,7,8], cb_sz = 6, cb_solong = n \<rparr> \<rparr>"
  have "send_begin (connection_new (0, 0)) ?b (WrN 3) = Some (?c 3, [0,0,0])" by code_simp
  then have 1: "sending ?b (?c 3) [0,0,0]" by (rule sending.start) simp
  have "write_cb (?c 3) (WrN 3) = Some (?c 6, [6,7,8])" by code_simp
  then have 2: "sending ?b (?c 6) ([0,0,0] @ [6,7,8])" by (rule sending.more [OF 1]) simp
  have "fst (send_end (?c 6))" by code_simp
  then show ?thesis using send_writes_frame [OF 2] 2 by simp
qed

text \<open>C6: However the bytes of a sequence of frames arrive, whenever the socket is polled and whichever
  messages the manager refuses at first, the receiver hands over exactly the messages sent, in order,
  none twice and none damaged, provided no poll reads only a part of a size field; a socket that is
  drained with no message held back has delivered them all.\<close>

theorem frames_delivered:
  assumes "\<forall>m\<in>set ms. pdu_ok m" "arrived es @ fut = frames ms" "headers_whole junk es (connection_new t, [], [])"
  shows "\<exists>c s k. rx_run junk es (connection_new t, [], []) = Some (c, s, take k (map frame ms)) \<and> \<not> cn_dead c \<and>
    (fut = [] \<and> s = [] \<and> cb_buf (cn_rpdu c) = None \<longrightarrow> take k (map frame ms) = map frame ms)"
proof -
  have "rx_inv ms (arrived es @ fut) (connection_new t, [], [])"
    using assms(2) by (simp add: rx_inv_def connection_new_def)
  from rx_run_inv [OF this assms(1,3)] obtain c s out todo where
    r: "rx_run junk es (connection_new t, [], []) = Some (c, s, out)" "map frame ms = out @ map frame todo"
      "rx_inv todo fut (c, s, out)"
    by auto
  have "todo = []" if "fut = []" "s = []" "cb_buf (cn_rpdu c) = None"
  proof (rule ccontr)
    assume "todo \<noteq> []"
    then obtain m ms' where t: "todo = m # ms'" by (cases todo) auto
    have "frame m = []" using r(3) that t by (auto simp: rx_inv_def rx_part_def)
    then show False by (simp add: frame_def enc_uint_def)
  qed
  then show ?thesis using r by (intro exI [of _ c] exI [of _ s] exI [of _ "length out"]) (auto simp: rx_inv_def)
qed

theorem frames_delivered_witness:
  "\<exists>c. rx_run (\<lambda>_. 9) [Arrive [0,0,0,6,7], Poll True, Arrive [8,0], Poll True, Arrive [0,0,5,3,0], Poll False, Poll True,
        Arrive [0,0,5,4], Poll True] (connection_new (0, 0), [], []) =
      Some (c, [], [[0,0,0,6,7,8], [0,0,0,5,3], [0,0,0,5,4]]) \<and> \<not> cn_dead c"
proof -
  let ?es = "[Arrive [0,0,0,6,7], Poll True, Arrive [8,0], Poll True, Arrive [0,0,5,3,0], Poll False, Poll True,
        Arrive [0,0,5,4], Poll True]"
  let ?ms = "[[1,1,1,1,7,8], [2,2,2,2,3], [3,3,3,3,4]] :: byte list list"
  have "\<forall>m\<in>set ?ms. pdu_ok m" by code_simp
  moreover have "arrived ?es @ [] = frames ?ms" by code_simp
  moreover have "headers_whole (\<lambda>_. 9) ?es (connection_new (0, 0), [], [])" by code_simp
  ultimately obtain c s k where r: "rx_run (\<lambda>_. 9) ?es (connection_new (0, 0), [], []) = Some (c, s, take k (map frame ?ms))"
      "\<not> cn_dead c" "s = [] \<and> cb_buf (cn_rpdu c) = None \<longrightarrow> take k (map frame ?ms) = map frame ?ms"
    using frames_delivered [of ?ms ?es "[]" "\<lambda>_. 9" "(0, 0)"] by blast
  have "map_option (\<lambda>(c, s, _). (cb_buf (cn_rpdu c), s)) (rx_run (\<lambda>_. 9) ?es (connection_new (0, 0), [], [])) = Some (None, [])"
    by code_simp
  moreover have "map frame ?ms = [[0,0,0,6,7,8], [0,0,0,5,3], [0,0,0,5,4]]" by code_simp
  ultimately show ?thesis using r by auto
qed

text \<open>The second read of a message stays within the buffer for every size from 4 up, whatever number of
  bytes it was asked for and returned; a size from 1 to 3 turns the number it asks for into a huge one,
  and a peer that sends a few more bytes writes past the end of the buffer.\<close>

theorem readpdu_buffer_bounds:
  assumes "length hd4 = 4" "sint (ntohl hd4) = n" "0 \<le> n" "n \<le> MAX_PDU" "sock_read (as_size (n - 4)) s = (r2, s')"
  shows "(4 \<le> n \<longrightarrow> readpdu junk charbuf_new (RdBytes hd4) r2 \<noteq> None) \<and>
    (n < 4 \<and> n < int (length s) \<and> length s < 2 ^ 63 \<longrightarrow> readpdu junk charbuf_new (RdBytes hd4) r2 = None)"
  (is "?A \<and> ?B")
proof
  have h: "readpdu junk charbuf_new (RdBytes hd4) r2 =
      readpdu_body \<lparr> cb_buf = Some (hd4 @ map junk [0 ..< nat n]), cb_sz = n, cb_solong = 4 \<rparr> r2"
    using assms by (simp add: readpdu_def charbuf_new_def readpdu_header_def)
  show ?A
  proof
    assume n: "4 \<le> n"
    then have "as_size (n - 4) = nat (n - 4)" using assms(4) by (simp add: as_size_nonneg)
    then show "readpdu junk charbuf_new (RdBytes hd4) r2 \<noteq> None"
      using assms(1,5) n unfolding h by (auto simp: readpdu_body_def sock_read_def split: if_splits)
  qed
  show ?B
  proof
    assume n: "n < 4 \<and> n < int (length s) \<and> length s < 2 ^ 63"
    then have "as_size (n - 4) = nat (2 ^ 64 + (n - 4))" using assms(3) by (simp add: as_size_neg)
    then have "2 ^ 63 \<le> as_size (n - 4)" using assms(3) by simp
    moreover have "s \<noteq> []" using n assms(3) by auto
    ultimately have "r2 = RdBytes s" using assms(5) n by (auto simp: sock_read_def split: if_splits)
    then show "readpdu junk charbuf_new (RdBytes hd4) r2 = None"
      using assms(1,3) n unfolding h by (simp add: readpdu_body_def)
  qed
qed

theorem readpdu_buffer_bounds_witness:
  "readpdu (\<lambda>_. 0) charbuf_new (RdBytes [0,0,0,1]) (RdBytes [1,2]) = None"
proof -
  have r: "sock_read (as_size (1 - 4)) [1,2] = (RdBytes [1,2], [])" by (simp add: sock_read_def as_size_def)
  have "sint (ntohl [0,0,0,1]) = 1" by (simp add: ntohl_def)
  from readpdu_buffer_bounds [OF _ this _ _ r, of "\<lambda>_. 0"] show ?thesis
    by (simp add: MAX_PDU_def)
qed

end
