(* ===== verification/Extent_Server.thy ===== *)
theory Extent_Server
  imports Containers Marshal
begin

text \<open>
  The extent server (\<open>extent_server.cc\<close>, \<open>extent_protocol.h\<close>): a map from extent numbers to strings
  and one to their attributes.  The operators of a \<open>std::map\<close> that insert a default value do so here.
  \<open>now\<close> is what \<open>time(NULL)\<close> returns while the operation runs.
\<close>

section \<open>State\<close>

type_synonym extentid_t = u64
type_synonym xstatus = int

definition xp_OK :: xstatus where "xp_OK = 0"
definition xp_RPCERR :: xstatus where "xp_RPCERR = 1"
definition xp_NOENT :: xstatus where "xp_NOENT = 2"
definition xp_IOERR :: xstatus where "xp_IOERR = 3"

lemmas xp_codes = xp_OK_def xp_RPCERR_def xp_NOENT_def xp_IOERR_def

record attr =
  at_atime :: u32
  at_mtime :: u32
  at_ctime :: u32
  at_size :: u32

definition attr_zero :: attr where
  "attr_zero = \<lparr> at_atime = 0, at_mtime = 0, at_ctime = 0, at_size = 0 \<rparr>"

definition m_attr :: "marshall \<Rightarrow> attr \<Rightarrow> marshall" where
  "m_attr m a = m_uint (m_uint (m_uint (m_uint m (at_atime a)) (at_mtime a)) (at_ctime a)) (at_size a)"

definition u_attr :: "unmarshall \<Rightarrow> (attr \<times> unmarshall) option" where
  "u_attr u = do {
     (t, u) \<leftarrow> u_uint u; (mt, u) \<leftarrow> u_uint u; (ct, u) \<leftarrow> u_uint u; (sz, u) \<leftarrow> u_uint u;
     Some (\<lparr> at_atime = t, at_mtime = mt, at_ctime = ct, at_size = sz \<rparr>, u) }"

record extent_server =
  extents :: "(extentid_t, string) omap"
  attrs :: "(extentid_t, attr) omap"

definition extent_server_new :: extent_server where
  "extent_server_new = \<lparr> extents = [(1, [])], attrs = [] \<rparr>"

section \<open>Operations\<close>

definition set_attr :: "extentid_t \<Rightarrow> (attr \<Rightarrow> attr) \<Rightarrow> extent_server \<Rightarrow> extent_server" where
  "set_attr eid f s = s\<lparr> attrs := omap_set eid (f (omap_get attr_zero (attrs s) eid)) (attrs s) \<rparr>"

definition es_put :: "u32 \<Rightarrow> extentid_t \<Rightarrow> string \<Rightarrow> extent_server \<Rightarrow> xstatus \<times> extent_server" where
  "es_put now eid buf s =
     (let s = s\<lparr> extents := omap_set eid buf (extents s) \<rparr>;
          s = (if omap_find (attrs s) eid = None then set_attr eid (\<lambda>a. a\<lparr> at_atime := now \<rparr>) s else s);
          s = set_attr eid (\<lambda>a. a\<lparr> at_size := of_nat (length buf) \<rparr>) s;
          s = set_attr eid (\<lambda>a. a\<lparr> at_ctime := now, at_mtime := now \<rparr>) s
      in (xp_OK, s))"

definition es_get :: "u32 \<Rightarrow> extentid_t \<Rightarrow> string \<Rightarrow> extent_server \<Rightarrow> xstatus \<times> string \<times> extent_server" where
  "es_get now eid buf s =
     (case omap_find (extents s) eid of
        None \<Rightarrow> (xp_NOENT, buf, s)
      | Some x \<Rightarrow>
          let buf = take (unat (at_size (omap_get attr_zero (attrs s) eid))) x;
              s = set_attr eid (\<lambda>a. a\<lparr> at_atime := now \<rparr>) s
          in (xp_OK, buf, s))"

definition es_getattr :: "extentid_t \<Rightarrow> extent_server \<Rightarrow> xstatus \<times> attr \<times> extent_server" where
  "es_getattr eid s = (xp_OK, omap_get attr_zero (attrs s) eid, s\<lparr> attrs := omap_touch attr_zero eid (attrs s) \<rparr>)"

definition es_setattr :: "u32 \<Rightarrow> extentid_t \<Rightarrow> attr \<Rightarrow> extent_server \<Rightarrow> xstatus \<times> extent_server" where
  "es_setattr now eid a s =
     (let old = at_size (omap_get attr_zero (attrs s) eid);
          s = s\<lparr> attrs := omap_touch attr_zero eid (attrs s) \<rparr>;
          s = (if at_size a > old
               then s\<lparr> extents := omap_set eid (omap_get [] (extents s) eid @ replicate (unat (at_size a - old)) (CHR 0x00)) (extents s) \<rparr>
               else s);
          s = set_attr eid (\<lambda>x. x\<lparr> at_size := at_size a \<rparr>) s;
          s = set_attr eid (\<lambda>x. x\<lparr> at_ctime := now, at_mtime := now \<rparr>) s
      in (xp_OK, s))"

definition es_remove :: "extentid_t \<Rightarrow> extent_server \<Rightarrow> xstatus \<times> extent_server" where
  "es_remove eid s =
     (if omap_find (extents s) eid = None then (xp_NOENT, s)
      else (xp_OK, s\<lparr> extents := omap_erase eid (extents s), attrs := omap_erase eid (attrs s) \<rparr>))"

definition enc_attr :: "attr \<Rightarrow> byte list" where
  "enc_attr a = enc_uint (at_atime a) @ enc_uint (at_mtime a) @ enc_uint (at_ctime a) @ enc_uint (at_size a)"

interpretation xattr: codec m_attr u_attr enc_attr "\<lambda>_. True"
  by (rule codec_via [OF codec_pair [OF uint.codec_axioms codec_pair [OF uint.codec_axioms codec_pair [OF uint.codec_axioms uint.codec_axioms]]],
        of _ "\<lambda>a. (at_atime a, at_mtime a, at_ctime a, at_size a)"
          _ "\<lambda>(t, mt, ct, sz). \<lparr> at_atime = t, at_mtime = mt, at_ctime = ct, at_size = sz \<rparr>"])
    (simp_all add: m_attr_def u_attr_def enc_attr_def struct_simps)

section \<open>What an extent holds\<close>

text \<open>The contents that \<open>get\<close> returns.\<close>

definition es_content :: "extent_server \<Rightarrow> extentid_t \<Rightarrow> string option" where
  "es_content s eid = map_option (take (unat (at_size (omap_get attr_zero (attrs s) eid)))) (omap_find (extents s) eid)"

lemma attrs_set_attr [simp]: "omap_get attr_zero (attrs (set_attr eid f s)) i =
    (if i = eid then f (omap_get attr_zero (attrs s) eid) else omap_get attr_zero (attrs s) i)"
  "extents (set_attr eid f s) = extents s"
  by (auto simp: set_attr_def omap_get_set)

lemma es_put_result: "fst (es_put now eid buf s) = xp_OK"
  by (simp add: es_put_def Let_def)

lemma es_content_put:
  assumes "length buf < 2 ^ 32"
  shows "es_content (snd (es_put now eid buf s)) i = (if i = eid then Some buf else es_content s i)"
proof -
  have "unat (of_nat (length buf) :: u32) = length buf" using assms by (simp add: unat_of_nat)
  then show ?thesis
    by (auto simp: es_content_def es_put_def Let_def omap_find_set)
qed

lemma es_get_result:
  "es_get now eid buf s =
    (case es_content s eid of None \<Rightarrow> (xp_NOENT, buf, s) | Some x \<Rightarrow> (xp_OK, x, set_attr eid (\<lambda>a. a\<lparr> at_atime := now \<rparr>) s))"
  by (auto simp: es_get_def es_content_def split: option.splits)

lemma es_content_set_atime [simp]: "es_content (set_attr eid (\<lambda>a. a\<lparr> at_atime := now \<rparr>) s) i = es_content s i"
  by (auto simp: es_content_def)

lemma es_content_get [simp]: "es_content (snd (snd (es_get now eid buf s))) i = es_content s i"
  by (auto simp: es_get_result split: option.splits)

lemma es_content_getattr [simp]: "es_content (snd (snd (es_getattr eid s))) i = es_content s i"
  by (simp add: es_content_def es_getattr_def)

lemma es_content_remove: "es_content (snd (es_remove eid s)) i = (if i = eid then None else es_content s i)"
  by (auto simp: es_content_def es_remove_def omap_find_erase omap_get_def)

lemma es_remove_result: "fst (es_remove eid s) = (if es_content s eid = None then xp_NOENT else xp_OK)"
  by (auto simp: es_content_def es_remove_def)

lemma es_content_setattr:
  assumes "omap_find (extents s) eid = Some y"
  shows "es_content (snd (es_setattr now eid a s)) eid =
    Some (take (unat (at_size a)) (y @ replicate (unat (at_size a) - unat (at_size (omap_get attr_zero (attrs s) eid))) (CHR 0x00)))"
proof -
  let ?old = "at_size (omap_get attr_zero (attrs s) eid)"
  have "unat (at_size a - ?old) = unat (at_size a) - unat ?old" if "?old < at_size a"
    using that by (simp add: unat_sub less_imp_le)
  moreover have "unat (at_size a) - unat ?old = 0" if "\<not> ?old < at_size a"
    using that by (simp add: word_less_nat_alt)
  ultimately show ?thesis using assms
    by (cases "?old < at_size a") (auto simp: es_content_def es_setattr_def Let_def omap_find_set omap_get_def [of "[]"])
qed

text \<open>\<open>setattr\<close> shortens an extent to the size given, and lengthens one that was never shortened by null
  bytes; but an extent that was shortened gets its old bytes back when it is lengthened again.\<close>

theorem setattr_resizes:
  assumes "es_content s eid = Some x" "omap_find (extents s) eid = Some y"
    "unat (at_size (omap_get attr_zero (attrs s) eid)) = n" "unat (at_size a) = m" "n \<le> length y"
  shows "(m \<le> n \<longrightarrow> es_content (snd (es_setattr now eid a s)) eid = Some (take m x)) \<and>
    (n \<le> m \<and> n = length y \<longrightarrow> es_content (snd (es_setattr now eid a s)) eid = Some (x @ replicate (m - n) (CHR 0x00))) \<and>
    (n \<le> m \<and> m \<le> length y \<longrightarrow> es_content (snd (es_setattr now eid a s)) eid = Some (take m y))"
proof -
  have x: "x = take n y" using assms(1-3) by (auto simp: es_content_def)
  show ?thesis
    unfolding es_content_setattr [OF assms(2)] assms(3,4) using assms(5) by (auto simp: x)
qed

theorem setattr_resizes_witness:
  "es_content (snd (es_setattr 2 7 (attr_zero\<lparr> at_size := 3 \<rparr>) (snd (es_setattr 1 7 (attr_zero\<lparr> at_size := 1 \<rparr>)
      (snd (es_put 0 7 ''abcd'' extent_server_new)))))) 7 = Some ''abc''"
proof -
  let ?s = "snd (es_setattr 1 7 (attr_zero\<lparr> at_size := 1 \<rparr>) (snd (es_put 0 7 ''abcd'' extent_server_new)))"
  have "es_content ?s 7 = Some ''a''" "omap_find (extents ?s) 7 = Some ''abcd''"
    "unat (at_size (omap_get attr_zero (attrs ?s) 7)) = 1" "unat (at_size (attr_zero\<lparr> at_size := 3 \<rparr>)) = 3"
    by code_simp+
  from setattr_resizes [OF this, of 2] show ?thesis by simp
qed

end
