(* ===== verification/Extent_Client.thy ===== *)
theory Extent_Client
  imports Extent_Server
begin

text \<open>
  The write-back cache in front of the extent server (\<open>extent_client.cc\<close>).  A remote call goes to the
  server of the world it runs in; the list \<open>xw_net\<close> says which of the next calls fail, with what code,
  and whether the server had run the call (an empty list: none fails).  \<open>None\<close> is a failed \<open>assert\<close>.
  The last section connects several caches to one server under the locks of the extents and refines
  them to a single store.
\<close>

section \<open>Remote calls\<close>

record xworld =
  xw_srv :: extent_server
  xw_net :: "(int \<times> bool) option list"
  xw_now :: u32

definition x_call :: "'r \<Rightarrow> (u32 \<Rightarrow> extent_server \<Rightarrow> xstatus \<times> 'r \<times> extent_server) \<Rightarrow> xworld \<Rightarrow> xstatus \<times> 'r \<times> xworld" where
  "x_call r0 f w =
     (let (ret, r, s) = f (xw_now w) (xw_srv w);
          w' = w\<lparr> xw_net := tl (xw_net w) \<rparr>
      in case xw_net w of
           Some (e, executed) # _ \<Rightarrow> (e, r0, if executed then w'\<lparr> xw_srv := s \<rparr> else w')
         | _ \<Rightarrow> (ret, r, w'\<lparr> xw_srv := s \<rparr>))"

definition call_get :: "extentid_t \<Rightarrow> string \<Rightarrow> xworld \<Rightarrow> xstatus \<times> string \<times> xworld" where
  "call_get eid buf = x_call buf (\<lambda>now s. es_get now eid [] s)"

definition call_getattr :: "extentid_t \<Rightarrow> attr \<Rightarrow> xworld \<Rightarrow> xstatus \<times> attr \<times> xworld" where
  "call_getattr eid a = x_call a (\<lambda>_ s. es_getattr eid s)"

definition call_put :: "extentid_t \<Rightarrow> string \<Rightarrow> xworld \<Rightarrow> xstatus \<times> xworld" where
  "call_put eid buf w = (let (ret, _, w) = x_call () (\<lambda>now s. let (r, s) = es_put now eid buf s in (r, (), s)) w in (ret, w))"

definition call_remove :: "extentid_t \<Rightarrow> xworld \<Rightarrow> xstatus \<times> xworld" where
  "call_remove eid w = (let (ret, _, w) = x_call () (\<lambda>_ s. let (r, s) = es_remove eid s in (r, (), s)) w in (ret, w))"

section \<open>The cache\<close>

record extent_client =
  cached_extents :: "(extentid_t, string) omap"
  dirty_extents :: "extentid_t list"
  cached_attrs :: "(extentid_t, attr) omap"
  dirty_attrs :: "extentid_t list"
  removed :: "extentid_t list"

definition extent_client_new :: extent_client where
  "extent_client_new = \<lparr> cached_extents = [], dirty_extents = [], cached_attrs = [], dirty_attrs = [], removed = [] \<rparr>"

definition ec_attr :: "extentid_t \<Rightarrow> (attr \<Rightarrow> attr) \<Rightarrow> extent_client \<Rightarrow> extent_client" where
  "ec_attr eid f c = c\<lparr> cached_attrs := omap_set eid (f (omap_get attr_zero (cached_attrs c) eid)) (cached_attrs c) \<rparr>"

definition ec_get :: "extentid_t \<Rightarrow> string \<Rightarrow> extent_client \<Rightarrow> xworld \<Rightarrow> (xstatus \<times> string \<times> extent_client \<times> xworld) option" where
  "ec_get eid buf c w =
     (case omap_find (cached_extents c) eid of
        Some x \<Rightarrow>
          if omap_find (cached_attrs c) eid = None then
            let (ret, a, w) = call_getattr eid attr_zero w
            in if ret \<noteq> xp_OK then None
               else Some (ret, x, ec_attr eid (\<lambda>_. a\<lparr> at_atime := xw_now w \<rparr>) c, w)
          else Some (xp_OK, x, c, w)
      | None \<Rightarrow>
          let (ret, buf, w) = call_get eid buf w
          in Some (ret, buf, if ret = xp_OK then c\<lparr> cached_extents := omap_set eid buf (cached_extents c) \<rparr> else c, w))"

definition ec_getattr :: "extentid_t \<Rightarrow> attr \<Rightarrow> extent_client \<Rightarrow> xworld \<Rightarrow> xstatus \<times> attr \<times> extent_client \<times> xworld" where
  "ec_getattr eid a c w =
     (case omap_find (cached_attrs c) eid of
        Some a \<Rightarrow> (xp_OK, a, c, w)
      | None \<Rightarrow>
          let (ret, a, w) = call_getattr eid a w
          in (ret, a, if ret = xp_OK then ec_attr eid (\<lambda>_. a) c else c, w))"

definition ec_setattr :: "extentid_t \<Rightarrow> attr \<Rightarrow> extent_client \<Rightarrow> xstatus \<times> extent_client" where
  "ec_setattr eid a c = (xp_OK, (ec_attr eid (\<lambda>_. a) c)\<lparr> dirty_attrs := oset_insert eid (dirty_attrs c) \<rparr>)"

definition ec_put :: "extentid_t \<Rightarrow> string \<Rightarrow> extent_client \<Rightarrow> xworld \<Rightarrow> xstatus \<times> extent_client \<times> xworld" where
  "ec_put eid buf c w =
     (let c = c\<lparr> cached_extents := omap_set eid buf (cached_extents c) \<rparr>;
          (ret, c, w) =
            (if omap_find (cached_attrs c) eid = None then
               let (ret, a, w) = call_getattr eid attr_zero w
               in (ret, if ret = xp_OK then ec_attr eid (\<lambda>_. a) c else ec_attr eid (\<lambda>x. x\<lparr> at_atime := xw_now w \<rparr>) c, w)
             else (xp_OK, c, w));
          c = ec_attr eid (\<lambda>x. x\<lparr> at_size := of_nat (length buf) \<rparr>) c;
          c = ec_attr eid (\<lambda>x. x\<lparr> at_ctime := xw_now w, at_mtime := xw_now w \<rparr>) c;
          c = c\<lparr> dirty_extents := oset_insert eid (dirty_extents c), dirty_attrs := oset_insert eid (dirty_attrs c),
                 removed := oset_erase eid (removed c) \<rparr>
      in (ret, c, w))"

definition ec_remove :: "extentid_t \<Rightarrow> extent_client \<Rightarrow> xworld \<Rightarrow> xstatus \<times> extent_client \<times> xworld" where
  "ec_remove eid c w =
     (let (ret, _, w) = call_get eid [] w
      in if ret \<noteq> xp_OK \<and> omap_find (cached_extents c) eid = None then (xp_NOENT, c, w)
         else
           let c = (if ret = xp_OK then c\<lparr> removed := oset_insert eid (removed c) \<rparr> else c);
               c = c\<lparr> cached_extents := omap_erase eid (cached_extents c), dirty_extents := oset_erase eid (dirty_extents c),
                      dirty_attrs := oset_erase eid (dirty_attrs c) \<rparr>
           in (xp_OK, c, w))"

definition ec_flush :: "extentid_t \<Rightarrow> extent_client \<Rightarrow> xworld \<Rightarrow> (xstatus \<times> extent_client \<times> xworld) option" where
  "ec_flush eid c w = do {
     (ret, c, w) \<leftarrow>
       (if eid \<in> set (dirty_extents c) then
          let (ret, w) = call_put eid (omap_get [] (cached_extents c) eid) w
          in if ret \<noteq> xp_OK then None
             else Some (ret, c\<lparr> dirty_extents := oset_erase eid (dirty_extents c), dirty_attrs := oset_erase eid (dirty_attrs c) \<rparr>, w)
        else if eid \<in> set (removed c) then
          let (ret, w) = call_remove eid w
          in if ret \<noteq> xp_OK then None else Some (ret, c\<lparr> removed := oset_erase eid (removed c) \<rparr>, w)
        else Some (xp_OK, c, w));
     Some (ret, c\<lparr> cached_extents := omap_erase eid (cached_extents c), cached_attrs := omap_erase eid (cached_attrs c) \<rparr>, w) }"

section \<open>Calls that do not fail\<close>

abbreviation srv_content :: "xworld \<Rightarrow> extentid_t \<Rightarrow> string option" where
  "srv_content w \<equiv> es_content (xw_srv w)"

lemma call_get_ok:
  assumes "xw_net w = []"
  obtains w' where "xw_net w' = []" "srv_content w' = srv_content w"
    "call_get eid buf w = (case srv_content w eid of None \<Rightarrow> (xp_NOENT, [], w') | Some x \<Rightarrow> (xp_OK, x, w'))"
  using assms that [of "w\<lparr> xw_srv := snd (snd (es_get (xw_now w) eid [] (xw_srv w))) \<rparr>"]
  by (auto simp: call_get_def x_call_def case_prod_beta es_get_result fun_eq_iff split: option.splits)

lemma call_getattr_ok:
  assumes "xw_net w = []"
  obtains w' a' where "xw_net w' = []" "srv_content w' = srv_content w" "xw_now w' = xw_now w" "call_getattr eid a w = (xp_OK, a', w')"
  using assms that [of "w\<lparr> xw_srv := snd (snd (es_getattr eid (xw_srv w))) \<rparr>" "fst (snd (es_getattr eid (xw_srv w)))"]
  by (auto simp: call_getattr_def x_call_def case_prod_beta fun_eq_iff) (auto simp: es_getattr_def)

lemma call_put_ok:
  assumes "xw_net w = []" "length buf < 2 ^ 32"
  obtains w' where "xw_net w' = []" "srv_content w' = (srv_content w)(eid := Some buf)" "call_put eid buf w = (xp_OK, w')"
  using assms that [of "w\<lparr> xw_srv := snd (es_put (xw_now w) eid buf (xw_srv w)) \<rparr>"]
  by (auto simp: call_put_def x_call_def case_prod_beta fun_eq_iff es_content_put es_put_result)

lemma call_remove_ok:
  assumes "xw_net w = []" "srv_content w eid \<noteq> None"
  obtains w' where "xw_net w' = []" "srv_content w' = (srv_content w)(eid := None)" "call_remove eid w = (xp_OK, w')"
  using assms that [of "w\<lparr> xw_srv := snd (es_remove eid (xw_srv w)) \<rparr>"]
  by (auto simp: call_remove_def x_call_def case_prod_beta fun_eq_iff es_content_remove es_remove_result)

section \<open>One extent of one client\<close>

text \<open>What a client knows of an extent, as far as its contents go: the cached contents, whether they are
  dirty, and whether it is marked as removed.\<close>

definition ec_slot :: "extent_client \<Rightarrow> extentid_t \<Rightarrow> string option \<times> bool \<times> bool" where
  "ec_slot c e = (omap_find (cached_extents c) e, e \<in> set (dirty_extents c), e \<in> set (removed c))"

abbreviation no_slot :: "string option \<times> bool \<times> bool" where
  "no_slot \<equiv> (None, False, False)"

text \<open>\<open>gone\<close> tells that the client has removed the extent and not written it again; \<open>v\<close> is what the
  extent holds for the holder of its lock.\<close>

fun slot_ok :: "bool \<Rightarrow> string option \<Rightarrow> string option \<times> bool \<times> bool \<Rightarrow> string option \<Rightarrow> bool" where
  "slot_ok gone v (cached, dirty, rem) srv =
     ((dirty \<longrightarrow> cached \<noteq> None) \<and> (cached \<noteq> None \<longrightarrow> v = cached \<and> \<not> rem \<and> \<not> gone \<and> (dirty \<or> srv = cached)) \<and>
      (rem \<longrightarrow> gone \<and> srv \<noteq> None) \<and> (gone \<longrightarrow> v = None) \<and> (cached = None \<and> \<not> rem \<longrightarrow> srv = v) \<and>
      (\<forall>x. v = Some x \<longrightarrow> length x < 2 ^ 32))"

lemma ec_slot_attr [simp]: "ec_slot (ec_attr e f c) = ec_slot c"
  by (simp add: ec_slot_def ec_attr_def fun_eq_iff)

lemma ec_get_slot:
  assumes "xw_net w = []" "slot_ok False v (ec_slot c e) (srv_content w e)"
  obtains c' w' ret x where "ec_get e buf c w = Some (ret, x, c', w')" "xw_net w' = []" "srv_content w' = srv_content w"
    "slot_ok False v (ec_slot c' e) (srv_content w' e)" "\<And>e'. e' \<noteq> e \<Longrightarrow> ec_slot c' e' = ec_slot c e'"
    "case v of None \<Rightarrow> ret = xp_NOENT | Some y \<Rightarrow> ret = xp_OK \<and> x = y"
proof (cases "omap_find (cached_extents c) e")
  case (Some y)
  obtain w' a where g: "xw_net w' = []" "srv_content w' = srv_content w" "xw_now w' = xw_now w" "call_getattr e attr_zero w = (xp_OK, a, w')"
    using call_getattr_ok [OF assms(1), of e attr_zero] by metis
  have v: "v = Some y" using assms(2) Some by (simp add: ec_slot_def)
  show ?thesis
  proof (cases "omap_find (cached_attrs c) e = None")
    case True
    then show ?thesis using Some g v assms
      by (intro that [of xp_OK y "ec_attr e (\<lambda>_. a\<lparr> at_atime := xw_now w' \<rparr>) c" w']) (auto simp: ec_get_def)
  next
    case False
    then show ?thesis using Some v assms by (intro that) (auto simp: ec_get_def)
  qed
next
  case None
  obtain w' where g: "xw_net w' = []" "srv_content w' = srv_content w"
      "call_get e buf w = (case srv_content w e of None \<Rightarrow> (xp_NOENT, [], w') | Some x \<Rightarrow> (xp_OK, x, w'))"
    using call_get_ok [OF assms(1), of e buf] by metis
  have v: "srv_content w e = v" using assms(2) None by (simp add: ec_slot_def)
  show ?thesis
    using None g v assms
    by (cases v) (auto simp: ec_get_def ec_slot_def omap_find_set xp_codes intro!: that)
qed

lemma ec_put_slot:
  assumes "xw_net w = []" "length buf < 2 ^ 32"
  obtains c' w' where "ec_put e buf c w = (xp_OK, c', w')" "xw_net w' = []" "srv_content w' = srv_content w"
    "ec_slot c' e = (Some buf, True, False)" "\<And>e'. e' \<noteq> e \<Longrightarrow> ec_slot c' e' = ec_slot c e'"
proof -
  let ?c = "c\<lparr> cached_extents := omap_set e buf (cached_extents c) \<rparr>"
  obtain w' a where g: "xw_net w' = []" "srv_content w' = srv_content w" "xw_now w' = xw_now w" "call_getattr e attr_zero w = (xp_OK, a, w')"
    using call_getattr_ok [OF assms(1), of e attr_zero] by metis
  show ?thesis
  proof (cases "omap_find (cached_attrs c) e = None")
    case True
    then show ?thesis using g by (intro that [of "fst (snd (ec_put e buf c w))" w'])
      (auto simp: ec_put_def Let_def ec_slot_def ec_attr_def omap_find_set)
  next
    case False
    then show ?thesis using assms by (intro that [of "fst (snd (ec_put e buf c w))" w])
      (auto simp: ec_put_def Let_def ec_slot_def ec_attr_def omap_find_set)
  qed
qed

lemma ec_remove_slot:
  assumes "xw_net w = []" "slot_ok False v (ec_slot c e) (srv_content w e)"
  obtains c' w' where "ec_remove e c w = (if v = None then xp_NOENT else xp_OK, c', w')" "xw_net w' = []"
    "srv_content w' = srv_content w" "slot_ok True None (ec_slot c' e) (srv_content w' e)"
    "\<And>e'. e' \<noteq> e \<Longrightarrow> ec_slot c' e' = ec_slot c e'"
proof -
  obtain w' where g: "xw_net w' = []" "srv_content w' = srv_content w"
      "call_get e [] w = (case srv_content w e of None \<Rightarrow> (xp_NOENT, [], w') | Some x \<Rightarrow> (xp_OK, x, w'))"
    using call_get_ok [OF assms(1), of e "[]"] by metis
  show ?thesis
    by (rule that [of "fst (snd (ec_remove e c w))" w'])
      (use g assms in \<open>auto simp: ec_remove_def ec_slot_def omap_find_erase xp_codes Let_def split: option.splits\<close>)
qed

lemma ec_getattr_slot:
  assumes "xw_net w = []"
  obtains a' c' w' where "ec_getattr e a c w = (xp_OK, a', c', w')" "xw_net w' = []" "srv_content w' = srv_content w"
    "ec_slot c' = ec_slot c"
proof -
  obtain w' a' where g: "xw_net w' = []" "srv_content w' = srv_content w" "xw_now w' = xw_now w" "call_getattr e a w = (xp_OK, a', w')"
    using call_getattr_ok [OF assms(1), of e a] by metis
  show ?thesis
  proof (cases "omap_find (cached_attrs c) e")
    case None
    then show ?thesis using g by (intro that [of a' "ec_attr e (\<lambda>_. a') c" w']) (simp_all add: ec_getattr_def)
  next
    case (Some x)
    then show ?thesis using assms by (intro that [of x c w]) (simp_all add: ec_getattr_def)
  qed
qed

lemma ec_setattr_slot: "ec_slot (snd (ec_setattr e a c)) = ec_slot c"
  by (simp add: ec_setattr_def ec_slot_def ec_attr_def fun_eq_iff)

section \<open>Several clients and one store\<close>

text \<open>The operations of a set of clients.  A client flushes an extent when it gives its lock back
  (\<open>lock_release_flusher\<close>).\<close>

datatype xop =
    XAcquire nat extentid_t
  | XRelease nat extentid_t
  | XGet nat extentid_t
  | XPut nat extentid_t string
  | XRemove nat extentid_t
  | XGetattr nat extentid_t
  | XSetattr nat extentid_t attr

datatype xout = XDone xstatus | XContents string

type_synonym xsys = "(nat \<Rightarrow> extent_client) \<times> xworld"

definition lock_release_flusher :: "extentid_t \<Rightarrow> extent_client \<Rightarrow> xworld \<Rightarrow> (extent_client \<times> xworld) option" where
  "lock_release_flusher e c w = map_option snd (ec_flush e c w)"

definition x_step :: "xop \<Rightarrow> xsys \<Rightarrow> (xout \<times> xsys) option" where
  "x_step p sys =
     (case sys of (cs, w) \<Rightarrow>
       (case p of
          XAcquire n e \<Rightarrow> Some (XDone xp_OK, sys)
        | XRelease n e \<Rightarrow> do { (c, w) \<leftarrow> lock_release_flusher e (cs n) w; Some (XDone xp_OK, cs(n := c), w) }
        | XGet n e \<Rightarrow> do {
            (ret, x, c, w) \<leftarrow> ec_get e [] (cs n) w;
            Some (if ret = xp_OK then XContents x else XDone ret, cs(n := c), w) }
        | XPut n e buf \<Rightarrow> (case ec_put e buf (cs n) w of (ret, c, w) \<Rightarrow> Some (XDone ret, cs(n := c), w))
        | XRemove n e \<Rightarrow> (case ec_remove e (cs n) w of (ret, c, w) \<Rightarrow> Some (XDone ret, cs(n := c), w))
        | XGetattr n e \<Rightarrow> (case ec_getattr e attr_zero (cs n) w of (ret, a, c, w) \<Rightarrow> Some (XDone ret, cs(n := c), w))
        | XSetattr n e a \<Rightarrow> (case ec_setattr e a (cs n) of (ret, c) \<Rightarrow> Some (XDone ret, cs(n := c), w))))"

primrec x_run :: "xop list \<Rightarrow> xsys \<Rightarrow> (xout list \<times> xsys) option" where
  "x_run [] sys = Some ([], sys)"
| "x_run (p # ps) sys = do { (r, sys) \<leftarrow> x_step p sys; (rs, sys) \<leftarrow> x_run ps sys; Some (r # rs, sys) }"

text \<open>
  The store that they implement: for every extent its committed contents and what the holder of its lock has
  done since it took the lock (\<open>None\<close> nothing, \<open>Some None\<close> removed, \<open>Some (Some x)\<close> written).  Giving the lock back
  commits.  The holder reads what it has written; after a \<open>remove\<close> it reads the committed contents again.
\<close>

type_synonym store = "(extentid_t \<Rightarrow> string option) \<times> (extentid_t \<Rightarrow> string option option)"

definition read_out :: "string option \<Rightarrow> xout" where
  "read_out v = (case v of None \<Rightarrow> XDone xp_NOENT | Some x \<Rightarrow> XContents x)"

definition seen :: "store \<Rightarrow> extentid_t \<Rightarrow> string option" where
  "seen st e = (case snd st e of Some (Some x) \<Rightarrow> Some x | _ \<Rightarrow> fst st e)"

definition store_step :: "xop \<Rightarrow> store \<Rightarrow> xout \<times> store" where
  "store_step p st =
     (case st of (cm, pd) \<Rightarrow>
       (case p of
          XGet n e \<Rightarrow> (read_out (seen st e), st)
        | XPut n e buf \<Rightarrow> (XDone xp_OK, cm, pd(e := Some (Some buf)))
        | XRemove n e \<Rightarrow>
            if seen st e = None then (XDone xp_NOENT, st)
            else (XDone xp_OK, cm, pd(e := Some None))
        | XRelease n e \<Rightarrow> (XDone xp_OK, case pd e of None \<Rightarrow> cm | Some v \<Rightarrow> cm(e := v), pd(e := None))
        | _ \<Rightarrow> (XDone xp_OK, st)))"

primrec store_run :: "xop list \<Rightarrow> store \<Rightarrow> xout list \<times> store" where
  "store_run [] st = ([], st)"
| "store_run (p # ps) st = (let (r, st) = store_step p st; (rs, st) = store_run ps st in (r # rs, st))"

text \<open>A plain store, in which everybody sees every write at once.\<close>

definition plain_step :: "xop \<Rightarrow> (extentid_t \<Rightarrow> string option) \<Rightarrow> xout \<times> (extentid_t \<Rightarrow> string option)" where
  "plain_step p st =
     (case p of
        XGet n e \<Rightarrow> (read_out (st e), st)
      | XPut n e buf \<Rightarrow> (XDone xp_OK, st(e := Some buf))
      | XRemove n e \<Rightarrow> (XDone (if st e = None then xp_NOENT else xp_OK), st(e := None))
      | _ \<Rightarrow> (XDone xp_OK, st))"

primrec plain_run :: "xop list \<Rightarrow> (extentid_t \<Rightarrow> string option) \<Rightarrow> xout list \<times> (extentid_t \<Rightarrow> string option)" where
  "plain_run [] st = ([], st)"
| "plain_run (p # ps) st = (let (r, st) = plain_step p st; (rs, st) = plain_run ps st in (r # rs, st))"

text \<open>The discipline of the lock service: an extent is used by the client that holds its lock; the length of what is
  put is a 32-bit number in the request.\<close>

definition lock_step :: "xop \<Rightarrow> (extentid_t \<Rightarrow> nat option) \<Rightarrow> (extentid_t \<Rightarrow> nat option) option" where
  "lock_step p h =
     (case p of
        XAcquire n e \<Rightarrow> if h e = None then Some (h(e := Some n)) else None
      | XRelease n e \<Rightarrow> if h e = Some n then Some (h(e := None)) else None
      | XGet n e \<Rightarrow> if h e = Some n then Some h else None
      | XPut n e buf \<Rightarrow> if h e = Some n \<and> length buf < 2 ^ 32 then Some h else None
      | XRemove n e \<Rightarrow> if h e = Some n then Some h else None
      | XGetattr n e \<Rightarrow> if h e = Some n then Some h else None
      | XSetattr n e a \<Rightarrow> if h e = Some n then Some h else None)"

primrec well_locked :: "xop list \<Rightarrow> (extentid_t \<Rightarrow> nat option) \<Rightarrow> bool" where
  "well_locked [] h = True"
| "well_locked (p # ps) h = (case lock_step p h of None \<Rightarrow> False | Some h \<Rightarrow> well_locked ps h)"

text \<open>No extent is read or removed between its removal and the next write or release.\<close>

fun no_reuse :: "xop list \<Rightarrow> (extentid_t \<Rightarrow> bool) \<Rightarrow> bool" where
  "no_reuse [] g = True"
| "no_reuse (XGet n e # ps) g = (\<not> g e \<and> no_reuse ps g)"
| "no_reuse (XRemove n e # ps) g = (\<not> g e \<and> no_reuse ps (g(e := True)))"
| "no_reuse (XPut n e buf # ps) g = no_reuse ps (g(e := False))"
| "no_reuse (XRelease n e # ps) g = no_reuse ps (g(e := False))"
| "no_reuse (p # ps) g = no_reuse ps g"

text \<open>The cache slot of the holder, the server's contents and what the holder has done.\<close>

fun pending_ok :: "string option option \<Rightarrow> string option \<times> bool \<times> bool \<Rightarrow> string option \<Rightarrow> bool" where
  "pending_ok None (cached, dirty, rem) srv = (\<not> dirty \<and> \<not> rem \<and> (cached = None \<or> cached = srv))"
| "pending_ok (Some (Some x)) (cached, dirty, rem) srv = (dirty \<and> \<not> rem \<and> cached = Some x \<and> length x < 2 ^ 32)"
| "pending_ok (Some None) (cached, dirty, rem) srv = (\<not> dirty \<and> rem = (srv \<noteq> None) \<and> (cached = None \<or> cached = srv))"

definition coherent :: "(extentid_t \<Rightarrow> nat option) \<Rightarrow> store \<Rightarrow> xsys \<Rightarrow> bool" where
  "coherent h st sys =
     (case (st, sys) of ((cm, pd), (cs, w)) \<Rightarrow>
        xw_net w = [] \<and> cm = srv_content w \<and>
        (\<forall>e n. h e \<noteq> Some n \<longrightarrow> ec_slot (cs n) e = no_slot) \<and>
        (\<forall>e n. h e = Some n \<longrightarrow> pending_ok (pd e) (ec_slot (cs n) e) (cm e)) \<and>
        (\<forall>e. h e = None \<longrightarrow> pd e = None))"

text \<open>What each operation does to the slot of its extent.\<close>

lemma ec_get_pending:
  assumes "xw_net w = []" "pending_ok q (ec_slot c e) (srv_content w e)"
  shows "\<exists>ret x c' w'. ec_get e [] c w = Some (ret, x, c', w') \<and> xw_net w' = [] \<and> srv_content w' = srv_content w \<and>
    pending_ok q (ec_slot c' e) (srv_content w e) \<and> (\<forall>e'. e' \<noteq> e \<longrightarrow> ec_slot c' e' = ec_slot c e') \<and>
    (if ret = xp_OK then XContents x else XDone ret) = read_out (seen (srv_content w, \<lambda>_. q) e)"
proof (cases "omap_find (cached_extents c) e")
  case (Some y)
  obtain w' a where g: "xw_net w' = []" "srv_content w' = srv_content w" "xw_now w' = xw_now w" "call_getattr e attr_zero w = (xp_OK, a, w')"
    using call_getattr_ok [OF assms(1), of e attr_zero] by metis
  have v: "seen (srv_content w, \<lambda>_. q) e = Some y"
    using assms(2) Some by (cases "(q, ec_slot c e, srv_content w e)" rule: pending_ok.cases) (auto simp: ec_slot_def seen_def)
  show ?thesis
    using Some g v assms by (cases "omap_find (cached_attrs c) e = None") (auto simp: ec_get_def read_out_def)
next
  case None
  obtain w' where g: "xw_net w' = []" "srv_content w' = srv_content w"
      "call_get e [] w = (case srv_content w e of None \<Rightarrow> (xp_NOENT, [], w') | Some x \<Rightarrow> (xp_OK, x, w'))"
    using call_get_ok [OF assms(1), of e "[]"] by metis
  have v: "seen (srv_content w, \<lambda>_. q) e = srv_content w e"
    using assms(2) None by (cases "(q, ec_slot c e, srv_content w e)" rule: pending_ok.cases) (auto simp: ec_slot_def seen_def)
  have p: "pending_ok q (srv_content w e, e \<in> set (dirty_extents c), e \<in> set (removed c)) (srv_content w e)"
    using assms(2) None by (cases "(q, ec_slot c e, srv_content w e)" rule: pending_ok.cases) (auto simp: ec_slot_def seen_def)
  show ?thesis
    using None g v assms p by (cases "srv_content w e") (auto simp: ec_get_def ec_slot_def omap_find_set xp_codes read_out_def)
qed

lemma ec_remove_pending:
  assumes "xw_net w = []" "pending_ok q (ec_slot c e) (srv_content w e)"
  shows "\<exists>ret c' w'. ec_remove e c w = (ret, c', w') \<and> xw_net w' = [] \<and> srv_content w' = srv_content w \<and>
    (\<forall>e'. e' \<noteq> e \<longrightarrow> ec_slot c' e' = ec_slot c e') \<and>
    (if seen (srv_content w, \<lambda>_. q) e = None then ret = xp_NOENT \<and> pending_ok q (ec_slot c' e) (srv_content w e)
     else ret = xp_OK \<and> pending_ok (Some None) (ec_slot c' e) (srv_content w e))"
proof -
  obtain w' where g: "xw_net w' = []" "srv_content w' = srv_content w"
      "call_get e [] w = (case srv_content w e of None \<Rightarrow> (xp_NOENT, [], w') | Some x \<Rightarrow> (xp_OK, x, w'))"
    using call_get_ok [OF assms(1), of e "[]"] by metis
  show ?thesis
    using g assms(2) by (cases "(q, ec_slot c e, srv_content w e)" rule: pending_ok.cases)
      (auto simp: ec_remove_def ec_slot_def omap_find_erase xp_codes Let_def seen_def split: option.splits)
qed

lemma ec_flush_pending:
  assumes "xw_net w = []" "pending_ok q (ec_slot c e) (srv_content w e)"
  shows "\<exists>c' w'. ec_flush e c w = Some (xp_OK, c', w') \<and> xw_net w' = [] \<and>
    srv_content w' = (case q of None \<Rightarrow> srv_content w | Some v \<Rightarrow> (srv_content w)(e := v)) \<and>
    ec_slot c' e = no_slot \<and> (\<forall>e'. e' \<noteq> e \<longrightarrow> ec_slot c' e' = ec_slot c e')"
proof -
  let ?v = "case q of None \<Rightarrow> srv_content w e | Some v \<Rightarrow> v"
  have "srv_content w' = (case q of None \<Rightarrow> srv_content w | Some v \<Rightarrow> (srv_content w)(e := v))"
    if "srv_content w' = (srv_content w)(e := ?v)" for w' :: xworld using that by (cases q) auto
  moreover have "\<exists>c' w'. ec_flush e c w = Some (xp_OK, c', w') \<and> xw_net w' = [] \<and> srv_content w' = (srv_content w)(e := ?v) \<and>
      ec_slot c' e = no_slot \<and> (\<forall>e'. e' \<noteq> e \<longrightarrow> ec_slot c' e' = ec_slot c e')"
  proof (cases "(q, ec_slot c e, srv_content w e)" rule: pending_ok.cases)
    case (1 cached dirty rem srv)
    then show ?thesis using assms by (auto simp: ec_flush_def ec_slot_def omap_find_erase)
  next
    case (2 x cached dirty rem srv)
    then have x: "length x < 2 ^ 32" "omap_find (cached_extents c) e = Some x" "e \<in> set (dirty_extents c)" "e \<notin> set (removed c)"
      using assms(2) by (auto simp: ec_slot_def)
    obtain w' where "xw_net w' = []" "srv_content w' = (srv_content w)(e := Some x)" "call_put e x w = (xp_OK, w')"
      using call_put_ok [OF assms(1) x(1)] by metis
    moreover have "q = Some (Some x)" using 2 by simp
    ultimately show ?thesis using x by (auto simp: ec_flush_def ec_slot_def omap_find_erase omap_get_def)
  next
    case (3 cached dirty rem srv)
    then have d: "e \<notin> set (dirty_extents c)" "e \<in> set (removed c) \<longleftrightarrow> srv_content w e \<noteq> None"
      using assms(2) by (auto simp: ec_slot_def)
    show ?thesis
    proof (cases "srv_content w e = None")
      case True
      then show ?thesis using d 3 assms(1) by (auto simp: ec_flush_def ec_slot_def omap_find_erase)
    next
      case False
      obtain w' where "xw_net w' = []" "srv_content w' = (srv_content w)(e := None)" "call_remove e w = (xp_OK, w')"
        using call_remove_ok [OF assms(1) False] by metis
      then show ?thesis using d 3 False by (auto simp: ec_flush_def ec_slot_def omap_find_erase)
    qed
  qed
  ultimately show ?thesis by blast
qed

text \<open>A step of client \<open>n\<close> on extent \<open>e\<close> changes nothing else.\<close>

lemma coherent_upd:
  assumes "coherent h (cm, pd) (cs, w)" "h e = Some n" "xw_net w' = []" "srv_content w' = srv_content w"
    "\<forall>e'. e' \<noteq> e \<longrightarrow> ec_slot c e' = ec_slot (cs n) e'" "pending_ok q (ec_slot c e) (cm e)"
  shows "coherent h (cm, pd(e := q)) (cs(n := c), w')"
proof -
  have s: "ec_slot ((cs(n := c)) m) e' = (if m = n \<and> e' = e then ec_slot c e else ec_slot (cs m) e')" for m e'
    using assms(5) by auto
  show ?thesis using assms(1-4,6) unfolding coherent_def prod.case s by auto
qed

lemma coherent_release:
  assumes "coherent h (cm, pd) (cs, w)" "h e = Some n" "xw_net w' = []"
    "\<forall>e'. e' \<noteq> e \<longrightarrow> ec_slot c e' = ec_slot (cs n) e'" "ec_slot c e = no_slot"
    "srv_content w' = (case pd e of None \<Rightarrow> srv_content w | Some v \<Rightarrow> (srv_content w)(e := v))"
  shows "coherent (h(e := None)) (case pd e of None \<Rightarrow> cm | Some v \<Rightarrow> cm(e := v), pd(e := None)) (cs(n := c), w')"
proof -
  have s: "ec_slot ((cs(n := c)) m) e' = (if m = n \<and> e' = e then no_slot else ec_slot (cs m) e')" for m e'
    using assms(4,5) by auto
  show ?thesis using assms(1,2,3,6) unfolding coherent_def prod.case s by (auto split: option.splits)
qed

lemma coherent_step:
  assumes inv: "coherent h (cm, pd) (cs, w)" and l: "lock_step p h = Some h'"
  shows "\<exists>sys. x_step p (cs, w) = Some (fst (store_step p (cm, pd)), sys) \<and> coherent h' (snd (store_step p (cm, pd))) sys"
proof -
  have net: "xw_net w = []" and cm: "cm = srv_content w" using inv by (auto simp: coherent_def)
  have pend: "pending_ok (pd e) (ec_slot (cs n) e) (srv_content w e)" if "h e = Some n" for e n
    using inv that by (auto simp: coherent_def)
  have seen: "seen (srv_content w, \<lambda>_. pd e) e = seen (cm, pd) e" for e by (simp only: seen_def cm fst_conv snd_conv)
  show ?thesis
  proof (cases p)
    case (XAcquire n e)
    then have h: "h e = None" "h' = h(e := Some n)" using l by (auto simp: lock_step_def split: if_splits)
    have "pd e = None" "ec_slot (cs n) e = no_slot" using inv h(1) by (auto simp: coherent_def)
    then have "coherent h' (cm, pd) (cs, w)" using inv h by (auto simp: coherent_def)
    then show ?thesis using XAcquire by (simp add: x_step_def store_step_def)
  next
    case (XRelease n e)
    then have h: "h e = Some n" "h' = h(e := None)" using l by (auto simp: lock_step_def split: if_splits)
    obtain c' w' where r: "ec_flush e (cs n) w = Some (xp_OK, c', w')" "xw_net w' = []"
        "srv_content w' = (case pd e of None \<Rightarrow> srv_content w | Some v \<Rightarrow> (srv_content w)(e := v))"
        "ec_slot c' e = no_slot" "\<forall>e'. e' \<noteq> e \<longrightarrow> ec_slot c' e' = ec_slot (cs n) e'"
      using ec_flush_pending [OF net pend [OF h(1)]] by blast
    have "coherent h' (case pd e of None \<Rightarrow> cm | Some v \<Rightarrow> cm(e := v), pd(e := None)) (cs(n := c'), w')"
      unfolding h(2) by (rule coherent_release [OF inv h(1) r(2,5,4,3)])
    then show ?thesis using XRelease r(1) by (simp add: x_step_def store_step_def lock_release_flusher_def)
  next
    case (XGet n e)
    then have h: "h e = Some n" "h' = h" using l by (auto simp: lock_step_def split: if_splits)
    obtain ret x c' w' where r: "ec_get e [] (cs n) w = Some (ret, x, c', w')" "xw_net w' = []" "srv_content w' = srv_content w"
        "pending_ok (pd e) (ec_slot c' e) (srv_content w e)" "\<forall>e'. e' \<noteq> e \<longrightarrow> ec_slot c' e' = ec_slot (cs n) e'"
        "(if ret = xp_OK then XContents x else XDone ret) = read_out (seen (cm, pd) e)"
      using ec_get_pending [OF net pend [OF h(1)]] unfolding seen by blast
    have "coherent h (cm, pd(e := pd e)) (cs(n := c'), w')" using r cm by (intro coherent_upd [OF inv h(1)]) auto
    then show ?thesis using XGet h r(1,6) by (simp add: x_step_def store_step_def)
  next
    case (XPut n e buf)
    then have h: "h e = Some n" "length buf < 2 ^ 32" "h' = h" using l by (auto simp: lock_step_def split: if_splits)
    obtain c' w' where r: "ec_put e buf (cs n) w = (xp_OK, c', w')" "xw_net w' = []" "srv_content w' = srv_content w"
        "ec_slot c' e = (Some buf, True, False)" "\<And>e'. e' \<noteq> e \<Longrightarrow> ec_slot c' e' = ec_slot (cs n) e'"
      using ec_put_slot [OF net h(2)] by metis
    have "coherent h (cm, pd(e := Some (Some buf))) (cs(n := c'), w')"
      using r h(2) by (intro coherent_upd [OF inv h(1)]) auto
    then show ?thesis using XPut h r by (simp add: x_step_def store_step_def)
  next
    case (XRemove n e)
    then have h: "h e = Some n" "h' = h" using l by (auto simp: lock_step_def split: if_splits)
    obtain ret c' w' where r: "ec_remove e (cs n) w = (ret, c', w')" "xw_net w' = []" "srv_content w' = srv_content w"
        "\<forall>e'. e' \<noteq> e \<longrightarrow> ec_slot c' e' = ec_slot (cs n) e'"
        "if seen (cm, pd) e = None then ret = xp_NOENT \<and> pending_ok (pd e) (ec_slot c' e) (cm e)
         else ret = xp_OK \<and> pending_ok (Some None) (ec_slot c' e) (cm e)"
      using ec_remove_pending [OF net pend [OF h(1)]] unfolding seen cm by blast
    let ?q = "if seen (cm, pd) e = None then pd e else Some None"
    have "coherent h (cm, pd(e := ?q)) (cs(n := c'), w')" using r by (intro coherent_upd [OF inv h(1)]) (auto split: if_splits)
    then show ?thesis using XRemove h r(1,5) by (auto simp: x_step_def store_step_def split: if_splits)
  next
    case (XGetattr n e)
    then have h: "h e = Some n" "h' = h" using l by (auto simp: lock_step_def split: if_splits)
    obtain a' c' w' where r: "ec_getattr e attr_zero (cs n) w = (xp_OK, a', c', w')" "xw_net w' = []" "srv_content w' = srv_content w"
        "ec_slot c' = ec_slot (cs n)"
      using ec_getattr_slot [OF net] by metis
    have "coherent h (cm, pd(e := pd e)) (cs(n := c'), w')"
      using r pend [OF h(1)] cm by (intro coherent_upd [OF inv h(1)]) auto
    then show ?thesis using XGetattr h r by (simp add: x_step_def store_step_def)
  next
    case (XSetattr n e a)
    then have h: "h e = Some n" "h' = h" using l by (auto simp: lock_step_def split: if_splits)
    have "coherent h (cm, pd(e := pd e)) (cs(n := snd (ec_setattr e a (cs n))), w)"
      using pend [OF h(1)] net cm by (intro coherent_upd [OF inv h(1)]) (auto simp: ec_setattr_slot)
    then show ?thesis using XSetattr h by (simp add: x_step_def store_step_def ec_setattr_def)
  qed
qed

lemma coherent_run:
  "coherent h st sys \<Longrightarrow> well_locked ps h \<Longrightarrow> \<exists>sys'. x_run ps sys = Some (fst (store_run ps st), sys')"
proof (induction ps arbitrary: h st sys)
  case (Cons p ps)
  obtain cm pd cs w where sp: "st = (cm, pd)" "sys = (cs, w)" by fastforce
  obtain h' where l: "lock_step p h = Some h'" "well_locked ps h'" using Cons.prems(2) by (auto split: option.splits)
  obtain sys2 where s: "x_step p sys = Some (fst (store_step p st), sys2)" "coherent h' (snd (store_step p st)) sys2"
    using coherent_step [of h cm pd cs w p h'] Cons.prems(1) l sp by auto
  show ?case using s Cons.IH [OF s(2) l(2)] by (auto simp: case_prod_beta Let_def)
qed simp

text \<open>Without reuse the committing store and the plain store give the same answers.\<close>

definition current :: "store \<Rightarrow> extentid_t \<Rightarrow> string option" where
  "current st e = (case snd st e of None \<Rightarrow> fst st e | Some v \<Rightarrow> v)"

lemma current_seen: "snd st e \<noteq> Some None \<Longrightarrow> seen st e = current st e"
  by (auto simp: seen_def current_def split: option.splits)

lemma no_reuse_step:
  assumes "snd st e \<noteq> Some None"
  shows "fst (store_step (XGet n e) st) = fst (plain_step (XGet n e) (current st))"
    "fst (store_step (XRemove n e) st) = fst (plain_step (XRemove n e) (current st))"
    "current (snd (store_step (XRemove n e) st)) = snd (plain_step (XRemove n e) (current st))"
  using current_seen [of st e] assms
  by (cases st; auto simp: store_step_def plain_step_def current_def fun_eq_iff split: option.splits)+

lemma store_step_current:
  "current (snd (store_step (XPut n e buf) st)) = snd (plain_step (XPut n e buf) (current st))"
  "current (snd (store_step (XRelease n e) st)) = current st"
  by (cases st; auto simp: store_step_def plain_step_def current_def fun_eq_iff split: option.splits)+

lemma no_reuse_plain:
  "no_reuse ps g \<Longrightarrow> (\<forall>e. snd st e = Some None \<longrightarrow> g e) \<Longrightarrow> fst (store_run ps st) = fst (plain_run ps (current st))"
proof (induction ps g arbitrary: st rule: no_reuse.induct)
  case (2 n e ps g)
  then have "snd st e \<noteq> Some None" by auto
  from no_reuse_step(1) [OF this, of n] show ?case
    using 2 by (cases st) (simp add: store_step_def plain_step_def case_prod_beta Let_def)
next
  case (3 n e ps g)
  then have u: "snd st e \<noteq> Some None" and nr: "no_reuse ps (g(e := True))" by auto
  have "\<forall>e'. snd (snd (store_step (XRemove n e) st)) e' = Some None \<longrightarrow> (g(e := True)) e'"
    using 3(3) by (cases st) (auto simp: store_step_def)
  from 3(1) [OF nr this] show ?case using no_reuse_step(2,3) [OF u, of n] by (simp add: case_prod_beta Let_def)
next
  case (4 n e buf ps g)
  then have nr: "no_reuse ps (g(e := False))" by simp
  have "\<forall>e'. snd (snd (store_step (XPut n e buf) st)) e' = Some None \<longrightarrow> (g(e := False)) e'"
    using 4(3) by (cases st) (auto simp: store_step_def)
  from 4(1) [OF nr this] show ?case
    by (cases st) (simp add: store_step_current(1) case_prod_beta Let_def, simp add: store_step_def plain_step_def)
next
  case (5 n e ps g)
  then have nr: "no_reuse ps (g(e := False))" by simp
  have "\<forall>e'. snd (snd (store_step (XRelease n e) st)) e' = Some None \<longrightarrow> (g(e := False)) e'"
    using 5(3) by (cases st) (auto simp: store_step_def)
  from 5(1) [OF nr this] show ?case
    by (cases st) (simp add: store_step_current(2) case_prod_beta Let_def, simp add: store_step_def plain_step_def)
qed (auto simp: store_step_def plain_step_def case_prod_beta Let_def split: prod.splits)


definition two_clients :: "xop list" where
  "two_clients = [XAcquire 0 5, XPut 0 5 ''ab'', XRelease 0 5, XAcquire 1 5, XGet 1 5, XPut 1 5 ''cd'', XRelease 1 5,
     XAcquire 0 5, XGet 0 5, XRemove 0 5, XRelease 0 5, XAcquire 1 5, XGet 1 5]"


text \<open>C38: The discipline is needed: \<open>get\<close> does not look at \<open>removed\<close>, so until the flush a client still reads the
  old contents of an extent that it has removed from the server's copy.\<close>

theorem removed_extent_still_readable:
  assumes "xw_net w = []" "srv_content w e = Some x"
  shows "\<exists>c' w' c'' w''. ec_remove e c w = (xp_OK, c', w') \<and> ec_get e buf c' w' = Some (xp_OK, x, c'', w'')"
proof -
  obtain w' where g: "xw_net w' = []" "srv_content w' = srv_content w" "call_get e [] w = (xp_OK, x, w')"
    using call_get_ok [OF assms(1), of e "[]"] assms(2) by (metis option.simps(5))
  obtain w'' where g2: "call_get e buf w' = (xp_OK, x, w'')"
    using call_get_ok [OF g(1), of e buf] assms(2) g(2) by (metis option.simps(5))
  show ?thesis using g g2 by (simp add: ec_remove_def ec_get_def Let_def omap_find_erase)
qed

theorem removed_extent_still_readable_witness:
  "\<exists>c' w' c'' w''. ec_remove 1 extent_client_new \<lparr> xw_srv = extent_server_new, xw_net = [], xw_now = 3 \<rparr> = (xp_OK, c', w') \<and>
     ec_get 1 ''z'' c' w' = Some (xp_OK, [], c'', w'')"
  by (rule removed_extent_still_readable)
    (simp_all add: es_content_def extent_server_new_def omap_find_def)

text \<open>Attributes alone are never written back: a flush after \<open>setattr\<close> of an extent whose contents are clean
  forgets them.\<close>

lemma setattr_not_flushed:
  assumes "e \<notin> set (dirty_extents c)" "e \<notin> set (removed c)"
  shows "\<exists>c'. ec_flush e (snd (ec_setattr e a c)) w = Some (xp_OK, c', w) \<and> omap_find (cached_attrs c') e = None"
  using assms by (simp add: ec_flush_def ec_setattr_def ec_attr_def omap_find_erase)

end
