(* ===== verification/Yfs_Client.thy ===== *)
theory Yfs_Client
  imports Extent_Client Text_Io
begin

text \<open>
  The file system operations (\<open>yfs_client.cc\<close>) over the extent cache and the lock client.  The calls on
  the lock client and the extents used are recorded in order.  \<open>tok\<close> is the tokenizer of Boost for the
  separator ";", \<open>rnd\<close> the sequence of \<open>rand()\<close> after \<open>srand(getpid())\<close>, \<open>junk\<close> an uninitialised variable.
  \<open>None\<close> is a failed \<open>assert\<close>, an exception, an access outside a vector, or a loop that does not end.
\<close>

section \<open>State\<close>

type_synonym inum = u64

definition yfs_OK :: int where "yfs_OK = 0"
definition yfs_RPCERR :: int where "yfs_RPCERR = 1"
definition yfs_NOENT :: int where "yfs_NOENT = 2"
definition yfs_IOERR :: int where "yfs_IOERR = 3"
definition yfs_EXIST :: int where "yfs_EXIST = 4"

lemmas yfs_codes = yfs_OK_def yfs_RPCERR_def yfs_NOENT_def yfs_IOERR_def yfs_EXIST_def

record fileinfo =
  fi_size :: u64
  fi_atime :: u64
  fi_mtime :: u64
  fi_ctime :: u64

record dirinfo =
  di_atime :: u64
  di_mtime :: u64
  di_ctime :: u64

record dirent =
  de_name :: string
  de_inum :: inum

datatype yev = LAcquire inum | LRelease inum | Use inum

record yfs =
  y_ec :: extent_client
  y_w :: xworld
  y_used :: "inum list"
  y_trace :: "yev list"

text \<open>An operation returns or ends with an exception, in the state reached until then.\<close>

datatype 'a outcome = Done 'a | Throws yfs

definition y_log :: "yev \<Rightarrow> yfs \<Rightarrow> yfs" where
  "y_log ev y = y\<lparr> y_trace := y_trace y @ [ev] \<rparr>"

definition y_get :: "inum \<Rightarrow> string \<Rightarrow> yfs \<Rightarrow> (xstatus \<times> string \<times> yfs) option" where
  "y_get i buf y = do { (ret, buf, c, w) \<leftarrow> ec_get i buf (y_ec y) (y_w y); Some (ret, buf, y_log (Use i) (y\<lparr> y_ec := c, y_w := w \<rparr>)) }"

definition y_put :: "inum \<Rightarrow> string \<Rightarrow> yfs \<Rightarrow> xstatus \<times> yfs" where
  "y_put i buf y = (let (ret, c, w) = ec_put i buf (y_ec y) (y_w y) in (ret, y_log (Use i) (y\<lparr> y_ec := c, y_w := w \<rparr>)))"

definition y_remove :: "inum \<Rightarrow> yfs \<Rightarrow> xstatus \<times> yfs" where
  "y_remove i y = (let (ret, c, w) = ec_remove i (y_ec y) (y_w y) in (ret, y_log (Use i) (y\<lparr> y_ec := c, y_w := w \<rparr>)))"

definition y_getattr :: "inum \<Rightarrow> attr \<Rightarrow> yfs \<Rightarrow> xstatus \<times> attr \<times> yfs" where
  "y_getattr i a y = (let (ret, a, c, w) = ec_getattr i a (y_ec y) (y_w y) in (ret, a, y_log (Use i) (y\<lparr> y_ec := c, y_w := w \<rparr>)))"

definition y_setattr :: "inum \<Rightarrow> attr \<Rightarrow> yfs \<Rightarrow> xstatus \<times> yfs" where
  "y_setattr i a y = (let (ret, c) = ec_setattr i a (y_ec y) in (ret, y_log (Use i) (y\<lparr> y_ec := c \<rparr>)))"

section \<open>Numbers and names\<close>

definition FILE_BASE :: u64 where "FILE_BASE = 0x80000000"

definition n2i :: "inum \<Rightarrow> string \<Rightarrow> inum" where
  "n2i junk n = fst (read_u64 (istream_of n) junk)"

definition i2n :: "inum \<Rightarrow> string" where
  "i2n i = show_u64 i"

definition isfile :: "inum \<Rightarrow> bool" where
  "isfile i = (i AND FILE_BASE \<noteq> 0)"

definition isdir :: "inum \<Rightarrow> bool" where
  "isdir i = (\<not> isfile i)"

partial_function (option) uniq_loop :: "(nat \<Rightarrow> nat) \<Rightarrow> inum list \<Rightarrow> nat \<Rightarrow> inum option" where
  "uniq_loop rnd used k =
     (let remain = of_nat (rnd k) mod FILE_BASE
      in if remain \<le> 1 \<or> remain \<in> set used then uniq_loop rnd used (Suc k) else Some remain)"

definition new_uniq_number :: "(nat \<Rightarrow> nat) \<Rightarrow> yfs \<Rightarrow> (inum \<times> yfs) option" where
  "new_uniq_number rnd y = do {
     remain \<leftarrow> uniq_loop rnd (y_used y) 0;
     Some (remain, y\<lparr> y_used := oset_insert remain (y_used y) \<rparr>) }"

definition new_file_inum :: "(nat \<Rightarrow> nat) \<Rightarrow> yfs \<Rightarrow> (inum \<times> yfs) option" where
  "new_file_inum rnd y = do { (n, y) \<leftarrow> new_uniq_number rnd y; Some (FILE_BASE + n, y) }"

definition new_dir_inum :: "(nat \<Rightarrow> nat) \<Rightarrow> yfs \<Rightarrow> (inum \<times> yfs) option" where
  "new_dir_inum rnd y = new_uniq_number rnd y"

section \<open>Attributes\<close>

definition getfile :: "attr \<Rightarrow> inum \<Rightarrow> fileinfo \<Rightarrow> yfs \<Rightarrow> int \<times> fileinfo \<times> yfs" where
  "getfile junk i fin y =
     (let y = y_log (LAcquire i) y;
          (ret, a, y) = y_getattr i junk y
      in if ret \<noteq> xp_OK then (yfs_IOERR, fin, y_log (LRelease i) y)
         else (yfs_OK, \<lparr> fi_size = ucast (at_size a), fi_atime = ucast (at_atime a), fi_mtime = ucast (at_mtime a),
                         fi_ctime = ucast (at_ctime a) \<rparr>, y_log (LRelease i) y))"

definition getdir :: "attr \<Rightarrow> inum \<Rightarrow> dirinfo \<Rightarrow> yfs \<Rightarrow> int \<times> dirinfo \<times> yfs" where
  "getdir junk i din y =
     (let y = y_log (LAcquire i) y;
          (ret, a, y) = y_getattr i junk y
      in if ret \<noteq> xp_OK then (yfs_IOERR, din, y_log (LRelease i) y)
         else (yfs_OK, \<lparr> di_atime = ucast (at_atime a), di_mtime = ucast (at_mtime a), di_ctime = ucast (at_ctime a) \<rparr>,
               y_log (LRelease i) y))"

text \<open>The fields of \<open>struct stat\<close> that \<open>setattr\<close> reads: size, access, modification and change time.\<close>

definition yfs_setattr :: "inum \<Rightarrow> int \<times> int \<times> int \<times> int \<Rightarrow> yfs \<Rightarrow> int \<times> yfs" where
  "yfs_setattr i st y =
     (let (sz, at, mt, ct) = st;
          a = \<lparr> at_atime = word_of_int at, at_mtime = word_of_int mt, at_ctime = word_of_int ct, at_size = word_of_int sz \<rparr>;
          y = y_log (LAcquire i) y;
          (ret, y) = y_setattr i a y
      in (if ret \<noteq> xp_OK then yfs_IOERR else yfs_OK, y_log (LRelease i) y))"

section \<open>Directories\<close>

text \<open>\<open>find\<close> of a character; its result is cut to 32 bits, so that the \<open>assert\<close> on \<open>npos\<close> never fails and a
  missing colon leaves the name whole and parses it as the number.\<close>

definition str_find :: "string \<Rightarrow> char \<Rightarrow> nat" where
  "str_find s c = (if c \<in> set s then length (takeWhile (\<lambda>x. x \<noteq> c) s) else 2 ^ 64 - 1)"

definition parse_entry :: "inum \<Rightarrow> string \<Rightarrow> dirent option" where
  "parse_entry junk t =
     (let pos = str_find t (CHR '':'') mod 2 ^ 32;
          nxt = (pos + 1) mod 2 ^ 32
      in if pos = 2 ^ 64 - 1 then None
         else if nxt > length t then None
         else Some \<lparr> de_name = take pos t, de_inum = n2i junk (drop nxt t) \<rparr>)"

primrec parse_entries :: "inum \<Rightarrow> string list \<Rightarrow> dirent list option" where
  "parse_entries junk [] = Some []"
| "parse_entries junk (t # ts) = do { d \<leftarrow> parse_entry junk t; ds \<leftarrow> parse_entries junk ts; Some (d # ds) }"

definition readdir_internal :: "(string \<Rightarrow> string list) \<Rightarrow> inum \<Rightarrow> inum \<Rightarrow> yfs \<Rightarrow> (int \<times> dirent list \<times> yfs) option" where
  "readdir_internal tok junk i y = do {
     (ret, buf, y) \<leftarrow> y_get i [] y;
     if ret \<noteq> xp_OK then Some (yfs_IOERR, [], y)
     else do { ds \<leftarrow> parse_entries junk (tok buf); Some (yfs_OK, ds, y) } }"

definition estr :: "dirent \<Rightarrow> string" where
  "estr d = de_name d @ '':'' @ i2n (de_inum d)"

fun dir_buf :: "dirent list \<Rightarrow> string" where
  "dir_buf [] = []"
| "dir_buf [d] = estr d"
| "dir_buf (d # ds) = estr d @ '';'' @ dir_buf ds"

definition writedir :: "inum \<Rightarrow> dirent list \<Rightarrow> yfs \<Rightarrow> int \<times> yfs" where
  "writedir i ds y = (let (ret, y) = y_put i (dir_buf ds) y in (if ret \<noteq> xp_OK then yfs_IOERR else yfs_OK, y))"

definition yfs_readdir :: "(string \<Rightarrow> string list) \<Rightarrow> inum \<Rightarrow> inum \<Rightarrow> yfs \<Rightarrow> (int \<times> dirent list \<times> yfs) option" where
  "yfs_readdir tok junk i y = do {
     (r, ds, y) \<leftarrow> readdir_internal tok junk i (y_log (LAcquire i) y);
     Some (r, ds, y_log (LRelease i) y) }"

definition yfs_create :: "(string \<Rightarrow> string list) \<Rightarrow> (nat \<Rightarrow> nat) \<Rightarrow> inum \<Rightarrow> inum \<Rightarrow> string \<Rightarrow> yfs \<Rightarrow> (int \<times> inum \<times> yfs) option" where
  "yfs_create tok rnd junk parent nm y = do {
     (ino, y) \<leftarrow> new_file_inum rnd (y_log (LAcquire parent) y);
     (r, ds, y) \<leftarrow> readdir_internal tok junk parent (y_log (LAcquire ino) y);
     let (r, y) =
       (if r \<noteq> yfs_OK then (r, y)
        else if nm \<in> de_name ` set ds then (yfs_EXIST, y)
        else let (ret, y) = y_put ino [] y
             in if ret \<noteq> xp_OK then (yfs_IOERR, y)
                else writedir parent (ds @ [\<lparr> de_name = nm, de_inum = ino \<rparr>]) y);
     Some (r, ino, y_log (LRelease ino) (y_log (LRelease parent) y)) }"

definition yfs_mkdir :: "(string \<Rightarrow> string list) \<Rightarrow> (nat \<Rightarrow> nat) \<Rightarrow> inum \<Rightarrow> inum \<Rightarrow> string \<Rightarrow> inum \<Rightarrow> yfs \<Rightarrow> (int \<times> inum \<times> yfs) option" where
  "yfs_mkdir tok rnd junk parent nm ino0 y = do {
     (r, ds, y) \<leftarrow> readdir_internal tok junk parent (y_log (LAcquire parent) y);
     if r \<noteq> yfs_OK then Some (yfs_NOENT, ino0, y_log (LRelease parent) y)
     else if nm \<in> de_name ` set ds then Some (yfs_EXIST, ino0, y_log (LRelease parent) y)
     else do {
       (ino, y) \<leftarrow> new_dir_inum rnd y;
       let (ret, y) = y_put ino [] (y_log (LAcquire ino) y);
       let (r, y) =
         (if ret \<noteq> xp_OK then (yfs_IOERR, y)
          else let (r, y) = writedir parent (ds @ [\<lparr> de_name = nm, de_inum = ino \<rparr>]) y
               in (if r \<noteq> yfs_OK then yfs_IOERR else yfs_OK, y));
       Some (r, ino, y_log (LRelease ino) (y_log (LRelease parent) y)) } }"

text \<open>The first index whose name matches, or the size.\<close>

definition entry_index :: "string \<Rightarrow> dirent list \<Rightarrow> nat" where
  "entry_index nm ds = length (takeWhile (\<lambda>d. de_name d \<noteq> nm) ds)"

definition dirent_at :: "dirent list \<Rightarrow> nat \<Rightarrow> dirent option" where
  "dirent_at ds i = (if i < length ds then Some (ds ! i) else None)"

definition yfs_unlink :: "(string \<Rightarrow> string list) \<Rightarrow> inum \<Rightarrow> inum \<Rightarrow> string \<Rightarrow> yfs \<Rightarrow> (int \<times> yfs) option" where
  "yfs_unlink tok junk parent nm y = do {
     (r, ds, y) \<leftarrow> readdir_internal tok junk parent (y_log (LAcquire parent) y);
     if r \<noteq> yfs_OK then Some (yfs_NOENT, y_log (LRelease parent) y)
     else do {
       let i = entry_index nm ds;
       d \<leftarrow> dirent_at ds i;
       let y = y_log (LAcquire (de_inum d)) y;
       let (r, ds, y) =
         (if i = length ds \<or> isdir (de_inum d) then (yfs_NOENT, ds, y)
          else let (ret, y) = y_remove (de_inum d) y
               in if ret \<noteq> xp_OK then (yfs_IOERR, ds, y)
                  else let ds = take i ds @ drop (Suc i) ds;
                           (r, y) = writedir parent ds y
                       in (if r \<noteq> yfs_OK then yfs_IOERR else yfs_OK, ds, y));
       d \<leftarrow> dirent_at ds i;
       Some (r, y_log (LRelease (de_inum d)) (y_log (LRelease parent) y)) } }"

section \<open>Files\<close>

text \<open>\<open>substr\<close> throws when the offset is beyond the end of the string; nobody catches the exception and the
  lock is not given back.\<close>

definition yfs_read :: "inum \<Rightarrow> nat \<Rightarrow> nat \<Rightarrow> string \<Rightarrow> yfs \<Rightarrow> (int \<times> string \<times> yfs) outcome option" where
  "yfs_read i sz off buf y = do {
     (ret, tmpbuf, y) \<leftarrow> y_get i [] (y_log (LAcquire i) y);
     if ret \<noteq> xp_OK then Some (Done (yfs_IOERR, buf, y_log (LRelease i) y))
     else if off > length tmpbuf then Some (Throws y)
     else Some (Done (yfs_OK, take sz (drop off tmpbuf), y_log (LRelease i) y)) }"

definition splice :: "string \<Rightarrow> nat \<Rightarrow> string \<Rightarrow> string" where
  "splice t off b =
     (if off \<le> length t then take off t @ b @ drop (off + length b) t
      else t @ replicate (off - length t) (CHR 0x00) @ b)"

definition yfs_write :: "attr \<Rightarrow> inum \<Rightarrow> string \<Rightarrow> nat \<Rightarrow> yfs \<Rightarrow> (int \<times> yfs) option" where
  "yfs_write junk i b off y = do {
     (ret, tmpbuf, y) \<leftarrow> y_get i [] (y_log (LAcquire i) y);
     if ret \<noteq> xp_OK then Some (yfs_IOERR, y_log (LRelease i) y)
     else
       let tmpbuf = splice tmpbuf off b;
           (ret, y) = y_put i tmpbuf y
       in if ret \<noteq> xp_OK then Some (yfs_IOERR, y_log (LRelease i) y)
          else let (ret, y) = y_setattr i (junk\<lparr> at_size := of_nat (length tmpbuf) \<rparr>) y
               in Some (if ret \<noteq> xp_OK then yfs_IOERR else yfs_OK, y_log (LRelease i) y) }"

section \<open>The client over a store\<close>

text \<open>The client sees the store \<open>st\<close>; \<open>g\<close> marks the extents that it has removed since.\<close>

definition y_ok :: "yfs \<Rightarrow> (inum \<Rightarrow> bool) \<Rightarrow> (inum \<Rightarrow> string option) \<Rightarrow> bool" where
  "y_ok y g st = (xw_net (y_w y) = [] \<and> (\<forall>e. slot_ok (g e) (st e) (ec_slot (y_ec y) e) (srv_content (y_w y) e)))"

lemma y_ok_upd:
  assumes "y_ok y g st" "xw_net w = []" "slot_ok b v (ec_slot c i) (srv_content w i)"
    "\<And>e. e \<noteq> i \<Longrightarrow> ec_slot c e = ec_slot (y_ec y) e" "srv_content w = srv_content (y_w y)"
  shows "y_ok (y_log ev (y\<lparr> y_ec := c, y_w := w \<rparr>)) (g(i := b)) (st(i := v))"
  using assms by (auto simp: y_ok_def y_log_def)

lemma y_log_simps [simp]:
  "y_ok (y_log ev y) g st = y_ok y g st" "y_trace (y_log ev y) = y_trace y @ [ev]" "y_used (y_log ev y) = y_used y"
  by (simp_all add: y_ok_def y_log_def)

lemma y_get_ok:
  assumes "y_ok y g st" "\<not> g i"
  obtains ret x y' where "y_get i buf y = Some (ret, x, y')" "y_ok y' g st" "y_trace y' = y_trace y @ [Use i]" "y_used y' = y_used y"
    "case st i of None \<Rightarrow> ret = xp_NOENT | Some z \<Rightarrow> ret = xp_OK \<and> x = z"
proof -
  have net: "xw_net (y_w y) = []" and sl: "slot_ok False (st i) (ec_slot (y_ec y) i) (srv_content (y_w y) i)"
    using assms by (auto simp: y_ok_def simp del: slot_ok.simps) (metis assms(2))
  obtain ret x c' w' where r: "ec_get i buf (y_ec y) (y_w y) = Some (ret, x, c', w')" "xw_net w' = []"
      "srv_content w' = srv_content (y_w y)" "slot_ok False (st i) (ec_slot c' i) (srv_content w' i)"
      "\<And>e'. e' \<noteq> i \<Longrightarrow> ec_slot c' e' = ec_slot (y_ec y) e'" "case st i of None \<Rightarrow> ret = xp_NOENT | Some z \<Rightarrow> ret = xp_OK \<and> x = z"
    using ec_get_slot [OF net sl] by metis
  have "y_ok (y_log (Use i) (y\<lparr> y_ec := c', y_w := w' \<rparr>)) (g(i := False)) (st(i := st i))"
    using r by (intro y_ok_upd [OF assms(1)]) auto
  then have "y_ok (y_log (Use i) (y\<lparr> y_ec := c', y_w := w' \<rparr>)) g st" using assms(2) by (simp add: fun_upd_idem)
  then show ?thesis using r by (intro that [of ret x "y_log (Use i) (y\<lparr> y_ec := c', y_w := w' \<rparr>)"]) (auto simp: y_get_def)
qed

lemma y_get_Some:
  assumes "y_ok y g st" "\<not> g i" "st i = Some t"
  obtains y' where "y_get i buf y = Some (xp_OK, t, y')" "y_ok y' g st" "y_trace y' = y_trace y @ [Use i]" "y_used y' = y_used y"
  by (rule y_get_ok [OF assms(1,2), of buf]) (use assms(3) in \<open>auto intro: that\<close>)

lemma y_put_ok:
  assumes "y_ok y g st" "length buf < 2 ^ 32"
  obtains y' where "y_put i buf y = (xp_OK, y')" "y_ok y' (g(i := False)) (st(i := Some buf))" "y_trace y' = y_trace y @ [Use i]"
    "y_used y' = y_used y"
proof -
  have net: "xw_net (y_w y) = []" using assms by (simp add: y_ok_def)
  obtain c' w' where r: "ec_put i buf (y_ec y) (y_w y) = (xp_OK, c', w')" "xw_net w' = []" "srv_content w' = srv_content (y_w y)"
      "ec_slot c' i = (Some buf, True, False)" "\<And>e'. e' \<noteq> i \<Longrightarrow> ec_slot c' e' = ec_slot (y_ec y) e'"
    using ec_put_slot [OF net assms(2)] by metis
  have "y_ok (y_log (Use i) (y\<lparr> y_ec := c', y_w := w' \<rparr>)) (g(i := False)) (st(i := Some buf))"
    using r assms(2) by (intro y_ok_upd [OF assms(1)]) auto
  then show ?thesis using r by (intro that [of "y_log (Use i) (y\<lparr> y_ec := c', y_w := w' \<rparr>)"]) (auto simp: y_put_def)
qed

lemma y_remove_ok:
  assumes "y_ok y g st" "\<not> g i" "st i \<noteq> None"
  obtains y' where "y_remove i y = (xp_OK, y')" "y_ok y' (g(i := True)) (st(i := None))" "y_trace y' = y_trace y @ [Use i]"
    "y_used y' = y_used y"
proof -
  have net: "xw_net (y_w y) = []" and sl: "slot_ok False (st i) (ec_slot (y_ec y) i) (srv_content (y_w y) i)"
    using assms by (auto simp: y_ok_def simp del: slot_ok.simps) (metis assms(2))
  obtain c' w' where r: "ec_remove i (y_ec y) (y_w y) = (if st i = None then xp_NOENT else xp_OK, c', w')" "xw_net w' = []"
      "srv_content w' = srv_content (y_w y)" "slot_ok True None (ec_slot c' i) (srv_content w' i)"
      "\<And>e'. e' \<noteq> i \<Longrightarrow> ec_slot c' e' = ec_slot (y_ec y) e'"
    using ec_remove_slot [OF net sl] by metis
  have "y_ok (y_log (Use i) (y\<lparr> y_ec := c', y_w := w' \<rparr>)) (g(i := True)) (st(i := None))"
    using r by (intro y_ok_upd [OF assms(1)]) auto
  then show ?thesis using r assms(3) by (intro that [of "y_log (Use i) (y\<lparr> y_ec := c', y_w := w' \<rparr>)"]) (auto simp: y_remove_def)
qed

lemma y_setattr_ok:
  assumes "y_ok y g st"
  obtains y' where "y_setattr i a y = (xp_OK, y')" "y_ok y' g st" "y_trace y' = y_trace y @ [Use i]" "y_used y' = y_used y"
  using assms that [of "snd (y_setattr i a y)"] ec_setattr_slot [of i a "y_ec y"]
  by (auto simp: y_setattr_def y_ok_def y_log_def ec_setattr_def simp del: slot_ok.simps)

section \<open>The format of a directory\<close>

fun sep_join :: "string list \<Rightarrow> string" where
  "sep_join [] = []"
| "sep_join [t] = t"
| "sep_join (t # ts) = t @ '';'' @ sep_join ts"

text \<open>What is documented of \<open>boost::char_separator\<close>: it cuts at the separators and drops empty tokens.\<close>

definition separates :: "(string \<Rightarrow> string list) \<Rightarrow> bool" where
  "separates tok = (\<forall>ts. (\<forall>t\<in>set ts. t \<noteq> [] \<and> CHR '';'' \<notin> set t) \<longrightarrow> tok (sep_join ts) = ts)"

definition name_ok :: "string \<Rightarrow> bool" where
  "name_ok n = (CHR '':'' \<notin> set n \<and> CHR '';'' \<notin> set n \<and> length n + 32 < 2 ^ 32)"

lemma dir_buf_join: "dir_buf ds = sep_join (map estr ds)"
  by (induction ds rule: dir_buf.induct) simp_all

lemma i2n_digits: "list_all is_digit (i2n i)" "i2n i \<noteq> []"
  using show_nat_digits by (auto simp: i2n_def show_u64_def)

lemma n2i_i2n [simp]: "n2i junk (i2n i) = i"
  using read_unsigned_show(1) [of "[]" i junk] by (simp add: n2i_def i2n_def read_u64_def show_u64_def istream_of_def)

lemma digit_not_sep: "\<not> is_digit (CHR '';'')" "\<not> is_digit (CHR '':'')"
  by (simp_all add: is_digit_def)

lemma estr_token: "name_ok (de_name d) \<Longrightarrow> estr d \<noteq> [] \<and> CHR '';'' \<notin> set (estr d)"
  using i2n_digits(1) [of "de_inum d"] digit_not_sep by (auto simp: estr_def name_ok_def list_all_iff)

lemma parse_estr:
  assumes "name_ok (de_name d)"
  shows "parse_entry junk (estr d) = Some d"
proof -
  have "str_find (estr d) (CHR '':'') = length (de_name d)"
    using assms by (auto simp: str_find_def estr_def name_ok_def takeWhile_append)
  then show ?thesis using assms by (simp add: parse_entry_def name_ok_def Let_def) (simp add: estr_def)
qed

lemma parse_dir:
  assumes "separates tok" "\<forall>d\<in>set ds. name_ok (de_name d)"
  shows "parse_entries junk (tok (dir_buf ds)) = Some ds"
proof -
  have "tok (dir_buf ds) = map estr ds"
    using assms estr_token by (auto simp: separates_def dir_buf_join)
  moreover have "parse_entries junk (map estr ds) = Some ds" using assms(2) by (induction ds) (auto simp: parse_estr)
  ultimately show ?thesis by simp
qed

lemma readdir_ok:
  assumes "separates tok" "y_ok y g st" "\<not> g i" "st i = Some (dir_buf ds)" "\<forall>d\<in>set ds. name_ok (de_name d)"
  obtains y' where "readdir_internal tok junk i y = Some (yfs_OK, ds, y')" "y_ok y' g st" "y_trace y' = y_trace y @ [Use i]"
    "y_used y' = y_used y"
proof -
  obtain ret x y' where "y_get i [] y = Some (ret, x, y')" "y_ok y' g st" "y_trace y' = y_trace y @ [Use i]" "y_used y' = y_used y"
      "case st i of None \<Rightarrow> ret = xp_NOENT | Some z \<Rightarrow> ret = xp_OK \<and> x = z"
    using y_get_ok [OF assms(2,3)] by metis
  then show ?thesis using assms(4) parse_dir [OF assms(1,5)] by (intro that [of y']) (simp_all add: readdir_internal_def)
qed

lemma writedir_ok:
  assumes "y_ok y g st" "length (dir_buf ds) < 2 ^ 32"
  obtains y' where "writedir i ds y = (yfs_OK, y')" "y_ok y' (g(i := False)) (st(i := Some (dir_buf ds)))"
    "y_trace y' = y_trace y @ [Use i]" "y_used y' = y_used y"
proof -
  obtain y' where "y_put i (dir_buf ds) y = (xp_OK, y')" "y_ok y' (g(i := False)) (st(i := Some (dir_buf ds)))"
      "y_trace y' = y_trace y @ [Use i]" "y_used y' = y_used y"
    using y_put_ok [OF assms] by metis
  then show ?thesis by (intro that [of y']) (simp_all add: writedir_def)
qed

lemma length_show_nat: "n < 10 ^ k \<Longrightarrow> 0 < k \<Longrightarrow> length (show_nat n) \<le> k"
proof (induction k arbitrary: n)
  case (Suc k)
  show ?case
  proof (cases "n < 10")
    case True
    then show ?thesis by (simp add: show_nat.simps [of n])
  next
    case False
    then have "n div 10 < 10 ^ k" "0 < k" using Suc.prems(1) by (cases k; auto simp: less_mult_imp_div_less mult.commute)+
    then show ?thesis using Suc.IH False by (simp add: show_nat.simps [of n])
  qed
qed simp

lemma length_i2n: "length (i2n i) \<le> 20"
proof -
  have "unat i < 2 ^ 64" using unsigned_less [of i, where ?'a = nat] by simp
  then show ?thesis unfolding i2n_def show_u64_def by (intro length_show_nat) simp_all
qed

lemma length_dir_buf_snoc: "length (dir_buf (ds @ [d])) \<le> length (dir_buf ds) + length (de_name d) + 22"
proof (induction ds rule: dir_buf.induct)
  case 1
  then show ?case using length_i2n [of "de_inum d"] by (simp add: estr_def)
next
  case (2 e)
  then show ?case using length_i2n [of "de_inum d"] by (simp add: estr_def)
qed simp

section \<open>New numbers\<close>

definition fresh_at :: "(nat \<Rightarrow> nat) \<Rightarrow> inum list \<Rightarrow> nat \<Rightarrow> bool" where
  "fresh_at rnd used k = (let r = of_nat (rnd k) mod FILE_BASE in \<not> r \<le> 1 \<and> r \<notin> set used)"

lemma uniq_loop_result:
  "uniq_loop rnd used k = Some r \<Longrightarrow> 1 < r \<and> r \<notin> set used \<and> r < FILE_BASE"
proof (induction rule: uniq_loop.raw_induct [rotated, consumes 1])
  case (1 loop rnd used k r)
  have "(of_nat (rnd k) mod FILE_BASE) < FILE_BASE" by (simp add: FILE_BASE_def word_mod_less_divisor)
  then show ?case using 1 by (auto simp: Let_def split: if_splits)
qed

lemma uniq_loop_returns: "k \<le> j \<Longrightarrow> fresh_at rnd used j \<Longrightarrow> \<exists>r. uniq_loop rnd used k = Some r"
proof (induction "j - k" arbitrary: k)
  case 0
  then show ?case by (simp add: uniq_loop.simps [of rnd used k] fresh_at_def Let_def)
next
  case (Suc m)
  then show ?case using uniq_loop.simps [of rnd used k] Suc.hyps(1) [of "Suc k"]
    by (cases "fresh_at rnd used k") (auto simp: fresh_at_def Let_def)
qed

lemma inum_le_1: "(x :: inum) \<le> 1 \<Longrightarrow> x = 0 \<or> x = 1"
  by (auto simp: le_less)

lemma isfile_bit: "isfile i \<longleftrightarrow> odd (unat i div 2 ^ 31)"
proof -
  have "FILE_BASE = 2 ^ 31" by (simp add: FILE_BASE_def)
  then have "isfile i \<longleftrightarrow> bit i 31" using and_exp_eq_0_iff_not_bit [of i 31] by (simp add: isfile_def)
  also have "\<dots> \<longleftrightarrow> bit (unat i) 31" by (simp add: bit_unsigned_iff)
  finally show ?thesis by (simp add: bit_iff_odd)
qed

lemma isfile_base:
  assumes "r < FILE_BASE"
  shows "isfile (FILE_BASE + r)" "isdir r"
proof -
  have r: "unat r < 2 ^ 31" using assms by (simp add: FILE_BASE_def word_less_nat_alt)
  then have "unat (FILE_BASE + r) = 2 ^ 31 + unat r" by (simp add: FILE_BASE_def unat_word_ariths)
  moreover have "(2 ^ 31 + unat r) div 2 ^ 31 = 1" using r by (subst div_add_self1) simp_all
  ultimately show "isfile (FILE_BASE + r)" by (simp only: isfile_bit) simp
  show "isdir r" using r by (simp add: isdir_def isfile_bit)
qed

section \<open>Properties of the file system\<close>

text \<open>C32: Finding an unused number ends, with a number that is not in use, greater than 1 and below the file
  bit, as soon as the generator gives three values more than there are numbers in use.\<close>

theorem new_inum_terminates:
  assumes "inj_on (\<lambda>k. (of_nat (rnd k) :: inum) mod FILE_BASE) {..< length (y_used y) + 3}"
  shows "\<exists>n y'. new_uniq_number rnd y = Some (n, y') \<and> 1 < n \<and> n < FILE_BASE \<and> n \<notin> set (y_used y) \<and> n \<in> set (y_used y') \<and>
    isdir n \<and> isfile (FILE_BASE + n)"
proof -
  let ?f = "\<lambda>k. (of_nat (rnd k) :: inum) mod FILE_BASE" and ?K = "{..< length (y_used y) + 3}"
  let ?bad = "{0, 1} \<union> set (y_used y)"
  have "card (?f ` ?K) = length (y_used y) + 3" using assms by (simp add: card_image)
  moreover have "card ?bad \<le> length (y_used y) + 2"
    using card_Un_le [of "{0 :: inum, 1}" "set (y_used y)"] card_length [of "y_used y"] by simp
  ultimately have "\<not> ?f ` ?K \<subseteq> ?bad"
    using card_mono [of ?bad "?f ` ?K"] by auto
  then obtain j where "?f j \<notin> ?bad" by blast
  then have "fresh_at rnd (y_used y) j" 
    by (auto simp: fresh_at_def Let_def dest: inum_le_1)
  then obtain r where r: "uniq_loop rnd (y_used y) 0 = Some r" using uniq_loop_returns [of 0 j] by auto
  show ?thesis using uniq_loop_result [OF r] isfile_base [of r] r by (simp add: new_uniq_number_def)
qed

theorem new_inum_terminates_witness:
  "\<exists>n y'. new_uniq_number (\<lambda>k. k + 1) \<lparr> y_ec = extent_client_new, y_w = \<lparr> xw_srv = extent_server_new, xw_net = [], xw_now = 0 \<rparr>,
      y_used = [2], y_trace = [] \<rparr> = Some (n, y') \<and> 1 < n"
proof -
  let ?y = "\<lparr> y_ec = extent_client_new, y_w = \<lparr> xw_srv = extent_server_new, xw_net = [], xw_now = 0 \<rparr>, y_used = [2], y_trace = [] \<rparr>"
  have "{..< length (y_used ?y) + 3} = {0, 1, 2, 3}" by (auto simp: numeral_eq_Suc less_Suc_eq)
  then have "inj_on (\<lambda>k. (of_nat (k + 1) :: inum) mod FILE_BASE) {..< length (y_used ?y) + 3}"
    by (simp add: FILE_BASE_def)
  from new_inum_terminates [OF this] show ?thesis by auto
qed

text \<open>The extents are the root and those whose numbers this client has drawn: the numbers in use are kept in the
  memory of one client, and other clients do not see them.\<close>

definition owns :: "yfs \<Rightarrow> (inum \<Rightarrow> string option) \<Rightarrow> bool" where
  "owns y st = (\<forall>e. st e \<noteq> None \<longrightarrow> e = 1 \<or> (\<exists>u\<in>set (y_used y). u < FILE_BASE \<and> (e = u \<or> e = FILE_BASE + u)))"

lemma owns_fresh:
  assumes "owns y st" "n < FILE_BASE" "n \<notin> set (y_used y)"
  shows "st (FILE_BASE + n) = None"
proof (rule ccontr)
  assume "st (FILE_BASE + n) \<noteq> None"
  then consider "FILE_BASE + n = 1" | u where "u < FILE_BASE" "FILE_BASE + n = u" | "n \<in> set (y_used y)"
    using assms(1) by (auto simp: owns_def)
  then show False
  proof cases
    case 1
    then have "isfile 1" using isfile_base(1) [OF assms(2)] by metis
    moreover have "isdir 1" by (rule isfile_base) (simp add: FILE_BASE_def)
    ultimately show ?thesis by (simp add: isdir_def)
  next
    case 2
    then show ?thesis using isfile_base(1) [OF assms(2)] isfile_base(2) [of u] by (simp add: isdir_def)
  qed (use assms(3) in simp)
qed

lemma owns_add:
  assumes "owns y st" "n < FILE_BASE" "y_used y' = oset_insert n (y_used y)"
  shows "owns y' st" "st parent \<noteq> None \<Longrightarrow> owns y' (st(FILE_BASE + n := v, parent := v'))"
  using assms by (auto simp: owns_def)

text \<open>
  C9: \<open>create\<close> in a directory whose names, like the new one, contain no colon and no semicolon, when no remote call
  fails.  The number of the file is one that this client has not used before, with the file bit set; no
  extent has it if all extents are of this client's making, and then this holds again after the call.
  A new name gets an empty file and is added at the end of the directory, as the next
  \<open>readdir\<close> shows, and no other extent changes; a name that is there is refused, the store stays as it is and the
  number is spent.
\<close>

theorem create_adds_file:
  assumes tok: "separates tok" and y: "y_ok y g st" "\<not> g parent" and dir: "st parent = Some (dir_buf ds)"
    and names: "\<forall>d\<in>set ds. name_ok (de_name d)" "name_ok nm" and n: "uniq_loop rnd (y_used y) 0 = Some n"
    and ne: "parent \<noteq> FILE_BASE + n" and len: "length (dir_buf ds) + length nm + 22 < 2 ^ 32"
  shows "isfile (FILE_BASE + n) \<and> n \<notin> set (y_used y) \<and> (owns y st \<longrightarrow> st (FILE_BASE + n) = None) \<and>
    (\<exists>r y' st'. yfs_create tok rnd junk parent nm y = Some (r, FILE_BASE + n, y') \<and>
      y_used y' = oset_insert n (y_used y) \<and> (owns y st \<longrightarrow> owns y' st') \<and>
      (if nm \<in> de_name ` set ds then r = yfs_EXIST \<and> st' = st \<and> y_ok y' g st'
       else r = yfs_OK \<and> y_ok y' (g(FILE_BASE + n := False)) st' \<and>
         st' = st(FILE_BASE + n := Some [], parent := Some (dir_buf (ds @ [\<lparr> de_name = nm, de_inum = FILE_BASE + n \<rparr>]))) \<and>
         (\<exists>y''. yfs_readdir tok junk parent y' = Some (yfs_OK, ds @ [\<lparr> de_name = nm, de_inum = FILE_BASE + n \<rparr>], y''))))"
proof -
  let ?ino = "FILE_BASE + n" and ?ds = "ds @ [\<lparr> de_name = nm, de_inum = FILE_BASE + n \<rparr>]"
  let ?y1 = "y_log (LAcquire ?ino) ((y_log (LAcquire parent) y)\<lparr> y_used := oset_insert n (y_used y) \<rparr>)"
  have y1: "y_ok ?y1 g st" "y_used ?y1 = oset_insert n (y_used y)" using y(1) by (simp_all add: y_ok_def y_log_def)
  have new: "new_file_inum rnd (y_log (LAcquire parent) y) =
      Some (?ino, (y_log (LAcquire parent) y)\<lparr> y_used := oset_insert n (y_used y) \<rparr>)"
    using n by (simp add: new_file_inum_def new_uniq_number_def)
  have res: "n < FILE_BASE" "n \<notin> set (y_used y)" using uniq_loop_result [OF n] by auto
  have here: "st parent \<noteq> None" using dir by simp
  obtain y2 where r: "readdir_internal tok junk parent ?y1 = Some (yfs_OK, ds, y2)" "y_ok y2 g st" "y_used y2 = y_used ?y1"
    by (rule readdir_ok [OF tok y1(1) y(2) dir names(1)]) auto
  note fresh = isfile_base(1) [OF res(1)] res(2) owns_fresh [OF _ res]
  show ?thesis
  proof (cases "nm \<in> de_name ` set ds")
    case True
    let ?y3 = "y_log (LRelease ?ino) (y_log (LRelease parent) y2)"
    have "yfs_create tok rnd junk parent nm y = Some (yfs_EXIST, ?ino, ?y3)" using True r new by (simp add: yfs_create_def)
    moreover have "y_ok ?y3 g st" "y_used ?y3 = oset_insert n (y_used y)" using r(2,3) y1(2) by simp_all
    moreover have "owns y st \<longrightarrow> owns ?y3 st" using owns_add(1) [OF _ res(1) calculation(3)] by blast
    ultimately show ?thesis using True fresh by simp
  next
    case False
    obtain y3 where p: "y_put ?ino [] y2 = (xp_OK, y3)" "y_ok y3 (g(?ino := False)) (st(?ino := Some []))" "y_used y3 = y_used y2"
      using y_put_ok [OF r(2), of "[]"] by (metis list.size(3) zero_less_numeral zero_less_power)
    have l: "length (dir_buf ?ds) < 2 ^ 32" using length_dir_buf_snoc [of ds "\<lparr> de_name = nm, de_inum = ?ino \<rparr>"] len by simp
    obtain y4 where w: "writedir parent ?ds y3 = (yfs_OK, y4)"
        "y_ok y4 (g(?ino := False, parent := False)) (st(?ino := Some [], parent := Some (dir_buf ?ds)))" "y_used y4 = y_used y3"
      using writedir_ok [OF p(2) l] by metis
    let ?y5 = "y_log (LRelease ?ino) (y_log (LRelease parent) y4)" and ?st = "st(?ino := Some [], parent := Some (dir_buf ?ds))"
    have g: "g(?ino := False, parent := False) = g(?ino := False)" using y(2) ne by (auto simp: fun_eq_iff)
    have c: "yfs_create tok rnd junk parent nm y = Some (yfs_OK, ?ino, ?y5)" using False r(1) new p(1) w(1) by (simp add: yfs_create_def)
    have ok: "y_ok ?y5 (g(?ino := False)) ?st" using w(2) g by simp
    have u: "y_used ?y5 = oset_insert n (y_used y)" using w(3) p(3) r(3) y1(2) by simp
    have ok2: "y_ok (y_log (LAcquire parent) ?y5) (g(?ino := False)) ?st" using ok by simp
    obtain y6 where "readdir_internal tok junk parent (y_log (LAcquire parent) ?y5) = Some (yfs_OK, ?ds, y6)"
      by (rule readdir_ok [OF tok ok2, of parent ?ds junk]) (use y(2) ne names in auto)
    then have "yfs_readdir tok junk parent ?y5 = Some (yfs_OK, ?ds, y_log (LRelease parent) y6)" by (simp add: yfs_readdir_def)
    moreover have "owns y st \<longrightarrow> owns ?y5 ?st" using owns_add(2) [OF _ res(1) u, where parent = parent] here by blast
    ultimately show ?thesis using False c ok u fresh by auto
  qed
qed

text \<open>A tokenizer with the documented behaviour, for the concrete runs.\<close>

fun cut :: "string \<Rightarrow> string \<Rightarrow> string list" where
  "cut acc [] = (if acc = [] then [] else [rev acc])"
| "cut acc (c # s) = (if c = CHR '';'' then (if acc = [] then cut [] s else rev acc # cut [] s) else cut (c # acc) s)"

lemma cut_prefix: "CHR '';'' \<notin> set t \<Longrightarrow> cut acc (t @ s) = cut (rev t @ acc) s"
  by (induction t arbitrary: acc) auto

lemma separates_cut: "separates (cut [])"
proof -
  have "cut [] (sep_join ts) = ts" if "\<forall>t\<in>set ts. t \<noteq> [] \<and> CHR '';'' \<notin> set t" for ts
    using that
  proof (induction ts rule: sep_join.induct)
    case (2 t)
    then show ?case using cut_prefix [of t "[]" "[]"] by simp
  next
    case (3 t t' ts)
    then show ?case using cut_prefix [of t "[]" "CHR '';'' # sep_join (t' # ts)"] by simp
  qed simp
  then show ?thesis by (simp add: separates_def)
qed

definition yfs_new :: yfs where
  "yfs_new = \<lparr> y_ec = extent_client_new, y_w = \<lparr> xw_srv = extent_server_new, xw_net = [], xw_now = 7 \<rparr>, y_used = [], y_trace = [] \<rparr>"

lemma y_ok_new: "y_ok yfs_new (\<lambda>_. False) ((\<lambda>_. None)(1 := Some []))"
  by (simp add: y_ok_def yfs_new_def ec_slot_def extent_client_new_def extent_server_new_def es_content_def omap_find_def)

lemma uniq_id: "uniq_loop (\<lambda>k. k) [] 0 = Some 2"
  by (simp add: uniq_loop.simps [of "\<lambda>k. k" _ 0] uniq_loop.simps [of "\<lambda>k. k" _ "Suc 0"]
      uniq_loop.simps [of "\<lambda>k. k" _ "Suc (Suc 0)"] FILE_BASE_def word_le_def)

theorem create_adds_file_witness:
  "\<exists>ino y' y''. yfs_create (cut []) (\<lambda>k. k) 0 1 ''a'' yfs_new = Some (yfs_OK, ino, y') \<and> isfile ino \<and>
     owns y' ((\<lambda>_. None)(1 := Some (dir_buf [\<lparr> de_name = ''a'', de_inum = ino \<rparr>]), ino := Some [])) \<and>
     yfs_readdir (cut []) 0 1 y' = Some (yfs_OK, [\<lparr> de_name = ''a'', de_inum = ino \<rparr>], y'')"
proof -
  have "uniq_loop (\<lambda>k. k) (y_used yfs_new) 0 = Some 2" by (simp add: yfs_new_def uniq_id)
  moreover have "owns yfs_new ((\<lambda>_. None)(1 := Some []))" by (simp add: owns_def)
  moreover have "FILE_BASE + 2 \<noteq> 1" by (simp add: FILE_BASE_def)
  ultimately show ?thesis
    using create_adds_file [OF separates_cut y_ok_new, where ds = "[]" and parent = 1 and nm = "''a''" and junk = 0 and rnd = "\<lambda>k. k" and n = 2]
    by (auto simp: name_ok_def fun_upd_twist)
qed

lemma splice_nth:
  "k < length (splice t off b) \<Longrightarrow> splice t off b ! k =
     (if off \<le> k \<and> k < off + length b then b ! (k - off) else if k < length t then t ! k else CHR 0x00)"
  by (auto simp: splice_def nth_append min_def)

text \<open>C15: \<open>write\<close> replaces exactly the bytes of its range, fills a gap after the old end with null bytes, changes no
  other extent, and a following \<open>read\<close> of the range returns what was written.\<close>

theorem write_then_read:
  assumes y: "y_ok y g st" "\<not> g i" "st i = Some t" and len: "length (splice t off b) < 2 ^ 32"
  shows "\<exists>y' t' y''. yfs_write junk i b off y = Some (yfs_OK, y') \<and> y_ok y' g (st(i := Some t')) \<and>
    length t' = max (length t) (off + length b) \<and>
    (\<forall>k < length t'. t' ! k = (if off \<le> k \<and> k < off + length b then b ! (k - off) else if k < length t then t ! k else CHR 0x00)) \<and>
    yfs_read i (length b) off [] y' = Some (Done (yfs_OK, b, y''))"
proof -
  let ?t = "splice t off b"
  have "y_ok (y_log (LAcquire i) y) g st" using y(1) by simp
  from y_get_Some [OF this y(2,3)] obtain y1 where g: "y_get i [] (y_log (LAcquire i) y) = Some (xp_OK, t, y1)" "y_ok y1 g st"
    by blast
  obtain y2 where p: "y_put i ?t y1 = (xp_OK, y2)" "y_ok y2 (g(i := False)) (st(i := Some ?t))"
    using y_put_ok [OF g(2) len] by metis
  obtain y3 where a: "y_setattr i (junk\<lparr> at_size := of_nat (length ?t) \<rparr>) y2 = (xp_OK, y3)" "y_ok y3 (g(i := False)) (st(i := Some ?t))"
    using y_setattr_ok [OF p(2)] by metis
  let ?y4 = "y_log (LRelease i) y3"
  have w: "yfs_write junk i b off y = Some (yfs_OK, ?y4)" using g(1) p(1) a(1) by (simp add: yfs_write_def)
  have ok: "y_ok ?y4 g (st(i := Some ?t))" using a(2) y(2) by (simp add: fun_upd_idem)
  then have "y_ok (y_log (LAcquire i) ?y4) g (st(i := Some ?t))" by simp
  from y_get_Some [OF this y(2) fun_upd_same] obtain y5 where "y_get i [] (y_log (LAcquire i) ?y4) = Some (xp_OK, ?t, y5)"
    by blast
  moreover have "off \<le> length ?t" "take (length b) (drop off ?t) = b" by (auto simp: splice_def)
  ultimately have "yfs_read i (length b) off [] ?y4 = Some (Done (yfs_OK, b, y_log (LRelease i) y5))" by (simp add: yfs_read_def)
  moreover have "length ?t = max (length t) (off + length b)" by (auto simp: splice_def)
  ultimately show ?thesis using w ok splice_nth [of _ t off b] by blast
qed

theorem write_then_read_witness:
  "\<exists>y' t' y''. yfs_write attr_zero 1 ''ab'' 2 yfs_new = Some (yfs_OK, y') \<and> length t' = 4 \<and>
     y_ok y' (\<lambda>_. False) ((\<lambda>_. None)(1 := Some t')) \<and> yfs_read 1 2 2 [] y' = Some (Done (yfs_OK, ''ab'', y''))"
proof -
  have l: "length (splice [] 2 ''ab'') < 2 ^ 32" by (simp add: splice_def)
  obtain y' t' y'' where "yfs_write attr_zero 1 ''ab'' 2 yfs_new = Some (yfs_OK, y')"
      "y_ok y' (\<lambda>_. False) (((\<lambda>_. None)(1 := Some []))(1 := Some t'))" "length t' = max (length []) (2 + length ''ab'')"
      "yfs_read 1 (length ''ab'') 2 [] y' = Some (Done (yfs_OK, ''ab'', y''))"
    using write_then_read [OF y_ok_new _ _ l, of 1 attr_zero] by fastforce
  then show ?thesis by (intro exI [of _ y'] exI [of _ t'] exI [of _ y'']) (simp add: numeral_eq_Suc)
qed

section \<open>Locking\<close>

text \<open>Every extent is used under its lock, no lock is taken twice, and none is left at the end.\<close>

fun bracketed :: "inum list \<Rightarrow> yev list \<Rightarrow> bool" where
  "bracketed held [] = (held = [])"
| "bracketed held (LAcquire i # t) = (i \<notin> set held \<and> bracketed (i # held) t)"
| "bracketed held (LRelease i # t) = (i \<in> set held \<and> bracketed (remove1 i held) t)"
| "bracketed held (Use i # t) = (i \<in> set held \<and> bracketed held t)"

datatype yop =
    YGetfile inum fileinfo
  | YGetdir inum dirinfo
  | YSetattr inum "int \<times> int \<times> int \<times> int"
  | YReaddir inum
  | YCreate inum string
  | YMkdir inum string
  | YUnlink inum string
  | YRead inum nat nat
  | YWrite inum string nat

definition y_exec :: "(string \<Rightarrow> string list) \<Rightarrow> (nat \<Rightarrow> nat) \<Rightarrow> attr \<Rightarrow> inum \<Rightarrow> yop \<Rightarrow> yfs \<Rightarrow> yfs outcome option" where
  "y_exec tok rnd ja ji p y =
     (case p of
        YGetfile i f \<Rightarrow> Some (Done (snd (snd (getfile ja i f y))))
      | YGetdir i d \<Rightarrow> Some (Done (snd (snd (getdir ja i d y))))
      | YSetattr i st \<Rightarrow> Some (Done (snd (yfs_setattr i st y)))
      | YReaddir i \<Rightarrow> map_option (Done \<circ> snd \<circ> snd) (yfs_readdir tok ji i y)
      | YCreate i nm \<Rightarrow> map_option (Done \<circ> snd \<circ> snd) (yfs_create tok rnd ji i nm y)
      | YMkdir i nm \<Rightarrow> map_option (Done \<circ> snd \<circ> snd) (yfs_mkdir tok rnd ji i nm ji y)
      | YUnlink i nm \<Rightarrow> map_option (Done \<circ> snd) (yfs_unlink tok ji i nm y)
      | YRead i sz off \<Rightarrow> map_option (map_outcome (snd \<circ> snd)) (yfs_read i sz off [] y)
      | YWrite i b off \<Rightarrow> map_option (Done \<circ> snd) (yfs_write ja i b off y))"

lemma y_traces:
  "y_get i buf y = Some (ret, x, y') \<Longrightarrow> y_trace y' = y_trace y @ [Use i] \<and> y_used y' = y_used y"
  "y_put i buf y = (ret, y') \<Longrightarrow> y_trace y' = y_trace y @ [Use i]"
  "y_remove i y = (ret, y') \<Longrightarrow> y_trace y' = y_trace y @ [Use i]"
  "y_getattr i a y = (ret, a', y') \<Longrightarrow> y_trace y' = y_trace y @ [Use i]"
  "y_setattr i a y = (ret, y') \<Longrightarrow> y_trace y' = y_trace y @ [Use i]"
  by (auto simp: y_get_def y_put_def y_remove_def y_getattr_def y_setattr_def y_log_def split: bind_splits prod.splits)

lemma dir_traces:
  "readdir_internal tok junk i y = Some (r, ds, y') \<Longrightarrow> y_trace y' = y_trace y @ [Use i] \<and> y_used y' = y_used y"
  "writedir i ds y = (r, y') \<Longrightarrow> y_trace y' = y_trace y @ [Use i]"
  by (auto simp: readdir_internal_def writedir_def Let_def dest!: y_traces split: bind_splits prod.splits if_splits)

lemma inum_traces:
  "new_file_inum rnd y = Some (i, y') \<Longrightarrow> y_trace y' = y_trace y \<and> isfile i"
  "new_dir_inum rnd y = Some (i, y') \<Longrightarrow> y_trace y' = y_trace y \<and> 1 < i \<and> i \<notin> set (y_used y)"
  by (auto simp: new_file_inum_def new_dir_inum_def new_uniq_number_def isfile_base dest!: uniq_loop_result split: bind_splits)

definition adds :: "yfs \<Rightarrow> yfs \<Rightarrow> yev list \<Rightarrow> bool" where
  "adds y y' t = (y_trace y' = y_trace y @ t)"

lemma create_trace:
  assumes "yfs_create tok rnd ji i nm y = Some (r, ino, y')"
  shows "isfile ino \<and> (adds y y' [LAcquire i, LAcquire ino, Use i, LRelease i, LRelease ino] \<or>
    adds y y' [LAcquire i, LAcquire ino, Use i, Use ino, LRelease i, LRelease ino] \<or>
    adds y y' [LAcquire i, LAcquire ino, Use i, Use ino, Use i, LRelease i, LRelease ino])"
  using assms unfolding yfs_create_def adds_def
  by (auto simp: Let_def dest!: inum_traces dir_traces y_traces split: bind_splits prod.splits if_splits)

lemma mkdir_trace:
  assumes "yfs_mkdir tok rnd ji i nm ji y = Some (r, ino, y')"
  shows "adds y y' [LAcquire i, Use i, LRelease i] \<or> 1 < ino \<and> ino \<notin> set (y_used y) \<and>
    (adds y y' [LAcquire i, Use i, LAcquire ino, Use ino, LRelease i, LRelease ino] \<or>
     adds y y' [LAcquire i, Use i, LAcquire ino, Use ino, Use i, LRelease i, LRelease ino])"
  using assms unfolding yfs_mkdir_def adds_def
  by (auto simp: Let_def dest!: inum_traces dir_traces y_traces split: bind_splits prod.splits if_splits)

lemma simple_traces:
  "adds y (snd (snd (getfile ja i f y))) [LAcquire i, Use i, LRelease i]"
  "adds y (snd (snd (getdir ja i d y))) [LAcquire i, Use i, LRelease i]"
  "adds y (snd (yfs_setattr i st y)) [LAcquire i, Use i, LRelease i]"
  "yfs_readdir tok ji i y = Some (r, ds, y') \<Longrightarrow> adds y y' [LAcquire i, Use i, LRelease i]"
  "yfs_read i sz off buf y = Some (Done (r, b, y')) \<Longrightarrow> adds y y' [LAcquire i, Use i, LRelease i]"
  "yfs_write ja i b off y = Some (r, y') \<Longrightarrow>
     adds y y' [LAcquire i, Use i, LRelease i] \<or> adds y y' [LAcquire i, Use i, Use i, LRelease i] \<or>
     adds y y' [LAcquire i, Use i, Use i, Use i, LRelease i]"
  by (auto simp: getfile_def getdir_def yfs_setattr_def yfs_readdir_def yfs_read_def yfs_write_def adds_def Let_def
      dest!: y_traces dir_traces split: bind_splits prod.splits if_splits)

lemma adds_bracketed: "adds y y' [LAcquire i, Use i, LRelease i] \<Longrightarrow> \<exists>t. y_trace y' = y_trace y @ t \<and> bracketed [] t"
  by (simp add: adds_def)

lemma read_throws:
  "yfs_read i sz off buf y = Some (Throws y') \<Longrightarrow> adds y y' [LAcquire i, Use i]"
  by (auto simp: yfs_read_def adds_def dest!: y_traces split: bind_splits prod.splits if_splits)

lemma done_bracketed:
  assumes "y_exec tok rnd ja ji p y = Some (Done y')"
    "case p of YUnlink _ _ \<Rightarrow> False | YCreate i _ \<Rightarrow> isdir i | YMkdir i _ \<Rightarrow> i = 1 \<or> i \<in> set (y_used y) | _ \<Rightarrow> True"
  shows "\<exists>t. y_trace y' = y_trace y @ t \<and> bracketed [] t"
proof -
  have one: "\<exists>t. y_trace y' = y_trace y @ t \<and> bracketed [] t" if "adds y y' t" "bracketed [] t" for t
    using that by (auto simp: adds_def)
  show ?thesis
  proof (cases p)
    case (YCreate i nm)
    then obtain r ino where c: "yfs_create tok rnd ji i nm y = Some (r, ino, y')" using assms(1) by (auto simp: y_exec_def)
    have "ino \<noteq> i" using create_trace [OF c] assms(2) YCreate by (auto simp: isdir_def)
    then show ?thesis using create_trace [OF c] by (elim conjE disjE) (erule one, simp)+
  next
    case (YMkdir i nm)
    then obtain r ino where c: "yfs_mkdir tok rnd ji i nm ji y = Some (r, ino, y')" using assms(1) by (auto simp: y_exec_def)
    have "ino \<noteq> i" if "1 < ino" "ino \<notin> set (y_used y)" using that assms(2) YMkdir by auto
    then show ?thesis using mkdir_trace [OF c] by (elim conjE disjE) (erule one, simp)+
  next
    case (YRead i sz off)
    then obtain z where z: "yfs_read i sz off [] y = Some z" "map_outcome (snd \<circ> snd) z = Done y'"
      using assms(1) by (auto simp: y_exec_def)
    then obtain r b where "z = Done (r, b, y')" by (cases z) auto
    then show ?thesis using z(1) by (auto intro: adds_bracketed simple_traces(5))
  next
    case (YWrite i b off)
    then obtain r where "yfs_write ja i b off y = Some (r, y')" using assms(1) by (auto simp: y_exec_def)
    from simple_traces(6) [OF this] show ?thesis by (elim disjE) (erule one, simp)+
  qed (use assms in \<open>auto simp: y_exec_def intro: adds_bracketed simple_traces(1-4)\<close>)
qed

lemma exec_throws:
  assumes "y_exec tok rnd ja ji p y = Some (Throws y')"
  shows "\<exists>i sz off. p = YRead i sz off \<and> y_trace y' = y_trace y @ [LAcquire i, Use i]"
proof (cases p)
  case (YRead i sz off)
  then obtain z where z: "yfs_read i sz off [] y = Some z" "map_outcome (snd \<circ> snd) z = Throws y'"
    using assms by (auto simp: y_exec_def)
  then have "z = Throws y'" by (cases z) auto
  then show ?thesis using z(1) read_throws [of i sz off "[]" y y'] YRead by (simp add: adds_def)
qed (use assms in \<open>auto simp: y_exec_def\<close>)

text \<open>
  C10: Which locks an operation leaves behind, whatever fails on the way; \<open>unlink\<close> is left out, the parent of a
  new file is a directory, and the parent of a new directory is the root or a directory that this client
  has made.  An operation that returns, with whichever status, has used extents only while it held their
  locks, has taken no lock twice and has given back all of them.  An exception leaves only \<open>read\<close>, with
  the lock of the file taken and not given back; a file that is there and ends before the offset is such a case.
\<close>

theorem locks_bracketed:
  assumes "case p of YUnlink _ _ \<Rightarrow> False | YCreate i _ \<Rightarrow> isdir i | YMkdir i _ \<Rightarrow> i = 1 \<or> i \<in> set (y_used y) | _ \<Rightarrow> True"
  shows "(\<forall>y'. y_exec tok rnd ja ji p y = Some (Done y') \<longrightarrow> (\<exists>t. y_trace y' = y_trace y @ t \<and> bracketed [] t)) \<and>
    (\<forall>y'. y_exec tok rnd ja ji p y = Some (Throws y') \<longrightarrow>
       (\<exists>i sz off. p = YRead i sz off \<and> y_trace y' = y_trace y @ [LAcquire i, Use i])) \<and>
    (\<forall>i sz off g st t. p = YRead i sz off \<longrightarrow> y_ok y g st \<longrightarrow> \<not> g i \<longrightarrow> st i = Some t \<longrightarrow> length t < off \<longrightarrow>
       (\<exists>y'. y_exec tok rnd ja ji p y = Some (Throws y')))"
proof (intro conjI allI impI)
  fix i sz off g st t
  assume p: "p = YRead i sz off" and y: "y_ok y g st" "\<not> g i" "st i = Some t" and off: "length t < off"
  have "y_ok (y_log (LAcquire i) y) g st" using y(1) by simp
  from y_get_Some [OF this y(2,3)] obtain y1 where "y_get i [] (y_log (LAcquire i) y) = Some (xp_OK, t, y1)" by blast
  then show "\<exists>y'. y_exec tok rnd ja ji p y = Some (Throws y')" using p off by (simp add: y_exec_def yfs_read_def)
qed (use done_bracketed assms exec_throws in blast)+

theorem locks_bracketed_witness:
  "(\<exists>y' t. y_exec (cut []) (\<lambda>k. k) attr_zero 0 (YMkdir 1 ''d'') yfs_new = Some (Done y') \<and> y_trace y' = t \<and> bracketed [] t \<and> length t = 7) \<and>
   (\<exists>y'. y_exec (cut []) (\<lambda>k. k) attr_zero 0 (YRead 1 8 5) yfs_new = Some (Throws y') \<and> y_trace y' = [LAcquire 1, Use 1])"
proof
  have "map_option (map_outcome y_trace) (y_exec (cut []) (\<lambda>k. k) attr_zero 0 (YMkdir 1 ''d'') yfs_new) =
      Some (Done [LAcquire 1, Use 1, LAcquire 2, Use 2, Use 1, LRelease 1, LRelease 2])"
    by (simp add: y_exec_def yfs_mkdir_def readdir_internal_def y_get_def yfs_new_def y_log_def ec_get_def extent_client_new_def
        omap_find_def call_get_def x_call_def extent_server_new_def es_get_def xp_codes omap_get_def attr_zero_def set_attr_def
        yfs_codes new_dir_inum_def new_uniq_number_def uniq_id y_put_def ec_put_def writedir_def call_getattr_def es_getattr_def
        Let_def case_prod_beta ec_attr_def)
  then obtain z where "y_exec (cut []) (\<lambda>k. k) attr_zero 0 (YMkdir 1 ''d'') yfs_new = Some z"
      "map_outcome y_trace z = Done [LAcquire 1, Use 1, LAcquire 2, Use 2, Use 1, LRelease 1, LRelease 2]" by auto
  then obtain y' where e: "y_exec (cut []) (\<lambda>k. k) attr_zero 0 (YMkdir 1 ''d'') yfs_new = Some (Done y')"
      "y_trace y' = [LAcquire 1, Use 1, LAcquire 2, Use 2, Use 1, LRelease 1, LRelease 2]" by (cases z) auto
  show "\<exists>y' t. y_exec (cut []) (\<lambda>k. k) attr_zero 0 (YMkdir 1 ''d'') yfs_new = Some (Done y') \<and> y_trace y' = t \<and> bracketed [] t \<and> length t = 7"
    using locks_bracketed [where p = "YMkdir 1 ''d''" and y = yfs_new and tok = "cut []" and rnd = "\<lambda>k. k" and ja = attr_zero and ji = 0] e by (auto simp: yfs_new_def)
  have "case YRead 1 8 5 of YUnlink _ _ \<Rightarrow> False | YCreate i _ \<Rightarrow> isdir i | YMkdir i _ \<Rightarrow> i = 1 \<or> i \<in> set (y_used yfs_new) | _ \<Rightarrow> True"
    by simp
  note r = locks_bracketed [OF this, of "cut []" "\<lambda>k. k" attr_zero 0]
  have "((\<lambda>_. None)(1 := Some [])) (1 :: inum) = Some []" "length [] < (5 :: nat)" by simp_all
  with r [THEN conjunct2, THEN conjunct2, rule_format, OF refl y_ok_new] obtain y' where
    y': "y_exec (cut []) (\<lambda>k. k) attr_zero 0 (YRead 1 8 5) yfs_new = Some (Throws y')" by blast
  moreover have "y_trace y' = [LAcquire 1, Use 1]"
    using r [THEN conjunct2, THEN conjunct1, rule_format, OF y'] by (auto simp: yfs_new_def)
  ultimately show "\<exists>y'. y_exec (cut []) (\<lambda>k. k) attr_zero 0 (YRead 1 8 5) yfs_new = Some (Throws y') \<and> y_trace y' = [LAcquire 1, Use 1]"
    by blast
qed

text \<open>C35: \<open>unlink\<close> of a file that is not the last entry removes the file and its entry, but it reads the entry to
  release after it was erased from the vector: it gives back the lock of the next entry, which it never
  took, and keeps the lock of the removed file.  For the last entry and for a name that is not there it
  reads past the end of the vector.\<close>

theorem unlink_releases_next:
  assumes tok: "separates tok" and y: "y_ok y g st" "\<not> g parent" and dir: "st parent = Some (dir_buf ds)"
    and names: "\<forall>d\<in>set ds. name_ok (de_name d)" and i: "entry_index nm ds = i"
    and fl: "i < length ds \<longrightarrow> isfile (de_inum (ds ! i)) \<and> st (de_inum (ds ! i)) \<noteq> None \<and> \<not> g (de_inum (ds ! i))"
    and len: "length (dir_buf (take i ds @ drop (Suc i) ds)) < 2 ^ 32"
  shows "if Suc i < length ds
    then \<exists>y'. yfs_unlink tok junk parent nm y = Some (yfs_OK, y') \<and>
      y_ok y' (g(de_inum (ds ! i) := True, parent := False))
        (st(de_inum (ds ! i) := None, parent := Some (dir_buf (take i ds @ drop (Suc i) ds)))) \<and>
      y_trace y' = y_trace y @ [LAcquire parent, Use parent, LAcquire (de_inum (ds ! i)), Use (de_inum (ds ! i)), Use parent,
        LRelease parent, LRelease (de_inum (ds ! Suc i))]
    else yfs_unlink tok junk parent nm y = None"
proof -
  let ?d = "de_inum (ds ! i)" and ?ds = "take i ds @ drop (Suc i) ds"
  have y1: "y_ok (y_log (LAcquire parent) y) g st" using y(1) by simp
  obtain y2 where r: "readdir_internal tok junk parent (y_log (LAcquire parent) y) = Some (yfs_OK, ds, y2)" "y_ok y2 g st"
      "y_trace y2 = y_trace y @ [LAcquire parent, Use parent]"
    by (rule readdir_ok [OF tok y1 y(2) dir names, of junk]) auto
  have le: "i \<le> length ds" using i length_takeWhile_le [of _ ds] by (auto simp: entry_index_def)
  show ?thesis
  proof (cases "i < length ds")
    case False
    then show ?thesis using r(1) i le by (simp add: yfs_unlink_def dirent_at_def)
  next
    case True
    then have f: "isfile ?d" "st ?d \<noteq> None" "\<not> g ?d" using fl by auto
    have y2: "y_ok (y_log (LAcquire ?d) y2) g st" using r(2) by simp
    obtain y3 where m: "y_remove ?d (y_log (LAcquire ?d) y2) = (xp_OK, y3)" "y_ok y3 (g(?d := True)) (st(?d := None))"
        "y_trace y3 = y_trace (y_log (LAcquire ?d) y2) @ [Use ?d]"
      using y_remove_ok [OF y2 f(3,2)] by metis
    obtain y4 where w: "writedir parent ?ds y3 = (yfs_OK, y4)" "y_ok y4 (g(?d := True, parent := False)) (st(?d := None, parent := Some (dir_buf ?ds)))"
        "y_trace y4 = y_trace y3 @ [Use parent]"
      using writedir_ok [OF m(2) len] by metis
    have at: "dirent_at ds i = Some (ds ! i)" "dirent_at ?ds i = (if Suc i < length ds then Some (ds ! Suc i) else None)"
      using True by (auto simp: dirent_at_def nth_append)
    show ?thesis
      using r i True f(1) m w at by (auto simp: yfs_unlink_def isdir_def)
  qed
qed

theorem unlink_releases_next_witness:
  "\<exists>st y y'. st 1 = Some (dir_buf [\<lparr> de_name = ''a'', de_inum = FILE_BASE + 2 \<rparr>, \<lparr> de_name = ''b'', de_inum = FILE_BASE + 3 \<rparr>]) \<and>
     y_ok y (\<lambda>_. False) st \<and> yfs_unlink (cut []) 0 1 ''a'' y = Some (yfs_OK, y') \<and>
     y_trace y' = y_trace y @ [LAcquire 1, Use 1, LAcquire (FILE_BASE + 2), Use (FILE_BASE + 2), Use 1, LRelease 1, LRelease (FILE_BASE + 3)]"
proof -
  define ds where "ds = [\<lparr> de_name = ''a'', de_inum = FILE_BASE + 2 \<rparr>, \<lparr> de_name = ''b'', de_inum = FILE_BASE + 3 \<rparr>]"
  let ?st = "(\<lambda>_. None)(1 := Some (dir_buf ds), FILE_BASE + 2 := Some [])"
  let ?y = "yfs_new\<lparr> y_ec := extent_client_new\<lparr> cached_extents := [(1, dir_buf ds), (FILE_BASE + 2, [])], dirty_extents := [1, FILE_BASE + 2] \<rparr> \<rparr>"
  have l: "length (dir_buf ds) < 2 ^ 32" "length (dir_buf (tl ds)) < 2 ^ 32"
    using length_dir_buf_snoc [of "[hd ds]" "ds ! 1"] length_dir_buf_snoc [of "[]" "hd ds"] length_dir_buf_snoc [of "[]" "ds ! 1"]
    by (simp_all add: ds_def)
  have ne: "FILE_BASE + 2 \<noteq> 1" by (simp add: FILE_BASE_def)
  have y: "y_ok ?y (\<lambda>_. False) ?st"
    using l ne by (auto simp: y_ok_def yfs_new_def ec_slot_def extent_client_new_def extent_server_new_def es_content_def omap_find_def)
  have e: "entry_index ''a'' ds = 0" by (simp add: entry_index_def ds_def)
  have f: "isfile (FILE_BASE + 2)" by (intro isfile_base) (simp add: FILE_BASE_def)
  have st: "?st 1 = Some (dir_buf ds)" using ne by simp
  have "0 < length ds \<longrightarrow> isfile (de_inum (ds ! 0)) \<and> ?st (de_inum (ds ! 0)) \<noteq> None \<and> \<not> False" using f by (simp add: ds_def)
  from unlink_releases_next [OF separates_cut y _ st _ e this, of 0] l(2)
  have "\<exists>y'. yfs_unlink (cut []) 0 1 ''a'' ?y = Some (yfs_OK, y') \<and>
     y_trace y' = y_trace ?y @ [LAcquire 1, Use 1, LAcquire (FILE_BASE + 2), Use (FILE_BASE + 2), Use 1, LRelease 1, LRelease (FILE_BASE + 3)]"
    by (auto simp: ds_def name_ok_def)
  then show ?thesis using y st unfolding ds_def [symmetric] by blast
qed

end
