(* ===== verification/Sorting.thy ===== *)
theory Sorting
  imports Prelude "HOL-Library.Multiset" "HOL-Library.Monad_Syntax"
begin

text \<open>
  The two quicksorts (\<open>sorting/qsort.cpp\<close>, \<open>sorting/qsort2.cpp\<close>).  An array is a list, indices are
  natural numbers, and \<open>None\<close> is a failed \<open>assert\<close> or an access outside the array.  \<open>rnd\<close> is the sequence
  of values that \<open>rand()\<close> returns.  The locale \<open>quicksort\<close> proves once that recursion over a partition
  step sorts; both programs interpret it.
\<close>

section \<open>Arrays\<close>

definition swap :: "'a list \<Rightarrow> nat \<Rightarrow> nat \<Rightarrow> 'a list" where
  "swap a i j = a[i := a ! j, j := a ! i]"

lemma length_swap [simp]: "length (swap a i j) = length a"
  by (simp add: swap_def)

lemma swap_nth: "i < length a \<Longrightarrow> j < length a \<Longrightarrow> k < length a \<Longrightarrow>
    swap a i j ! k = (if k = i then a ! j else if k = j then a ! i else a ! k)"
  by (auto simp: swap_def nth_list_update)

lemma mset_swap_array [simp]: "i < length a \<Longrightarrow> j < length a \<Longrightarrow> mset (swap a i j) = mset a"
  by (simp add: swap_def mset_swap)

text \<open>\<open>a'\<close> is \<open>a\<close> with the elements at \<open>l, ..., h - 1\<close> rearranged.\<close>

definition perm_on :: "nat \<Rightarrow> nat \<Rightarrow> 'a list \<Rightarrow> 'a list \<Rightarrow> bool" where
  "perm_on l h a a' = (length a' = length a \<and> mset a' = mset a \<and> (\<forall>i < length a. i < l \<or> h \<le> i \<longrightarrow> a' ! i = a ! i))"

definition sorted_on :: "nat \<Rightarrow> nat \<Rightarrow> 'a::linorder list \<Rightarrow> bool" where
  "sorted_on l h a = (\<forall>i j. l \<le> i \<and> i < j \<and> j < h \<longrightarrow> a ! i \<le> a ! j)"

lemma perm_on_refl [simp]: "perm_on l h a a"
  by (simp add: perm_on_def)

lemma perm_on_trans: "perm_on l h a b \<Longrightarrow> perm_on l h b c \<Longrightarrow> perm_on l h a c"
  by (auto simp: perm_on_def)

lemma perm_on_mono: "perm_on l h a b \<Longrightarrow> l' \<le> l \<Longrightarrow> h \<le> h' \<Longrightarrow> perm_on l' h' a b"
  by (auto simp: perm_on_def)

lemma perm_on_swap: "l \<le> i \<Longrightarrow> i < h \<Longrightarrow> l \<le> j \<Longrightarrow> j < h \<Longrightarrow> h \<le> length a \<Longrightarrow> perm_on l h a (swap a i j)"
  by (auto simp: perm_on_def swap_nth)

lemma slice_split: "l \<le> h \<Longrightarrow> h \<le> length a \<Longrightarrow> a = take l a @ take (h - l) (drop l a) @ drop h a"
  by (metis append_take_drop_id drop_drop le_add_diff_inverse2)

lemma perm_on_slice:
  assumes "perm_on l h a a'" "l \<le> h" "h \<le> length a"
  shows "mset (take (h - l) (drop l a')) = mset (take (h - l) (drop l a))"
proof -
  have len: "length a' = length a" using assms(1) by (simp add: perm_on_def)
  have "take l a' = take l a" using assms by (intro nth_equalityI) (auto simp: perm_on_def)
  moreover have "drop h a' = drop h a" using assms by (intro nth_equalityI) (auto simp: perm_on_def)
  moreover have "mset a' = mset a" using assms(1) by (simp add: perm_on_def)
  moreover have m: "mset b = mset (take l b) + (mset (take (h - l) (drop l b)) + mset (drop h b))" if "length b = length a" for b :: "'a list"
    using arg_cong [OF slice_split [OF assms(2), of b], of mset] that assms(3) by (simp only: mset_append)
  ultimately show ?thesis using m [OF refl] m [OF len] by simp
qed

lemma perm_on_from:
  assumes "perm_on l h a a'" "h \<le> length a" "l \<le> i" "i < h"
  obtains j where "l \<le> j" "j < h" "a' ! i = a ! j"
proof -
  have len: "length a' = length a" using assms(1) by (simp add: perm_on_def)
  have "a' ! i \<in> set (take (h - l) (drop l a'))"
    unfolding in_set_conv_nth using assms len by (intro exI [of _ "i - l"]) auto
  then have "a' ! i \<in> set (take (h - l) (drop l a))"
    using perm_on_slice [OF assms(1)] assms by (metis less_imp_le order_trans set_mset_mset)
  then obtain k where "k < h - l" "a' ! i = a ! (l + k)" using assms by (auto simp: in_set_conv_nth)
  then show ?thesis using that [of "l + k"] by simp
qed

text \<open>Blocks of small, equal and large elements, the outer ones sorted one after the other.\<close>

lemma sorted_blocks:
  fixes a :: "'a::linorder list"
  assumes perm: "perm_on l h a a1" and b: "l \<le> p" "p \<le> q" "q \<le> h" "h \<le> length a"
    and small: "\<forall>i. l \<le> i \<and> i < p \<longrightarrow> a1 ! i \<le> v" and eq: "\<forall>i. p \<le> i \<and> i < q \<longrightarrow> a1 ! i = v"
    and large: "\<forall>i. q \<le> i \<and> i < h \<longrightarrow> v \<le> a1 ! i"
    and left: "perm_on l p a1 a2" "sorted_on l p a2" and right: "perm_on q h a2 a3" "sorted_on q h a3"
  shows "perm_on l h a a3 \<and> sorted_on l h a3"
proof
  have len: "length a1 = length a" "length a2 = length a" using perm left(1) by (auto simp: perm_on_def)
  show "perm_on l h a a3"
    using perm perm_on_mono [OF left(1), of l h] perm_on_mono [OF right(1), of l h] b perm_on_trans by (metis order_refl order_trans)
  have keep: "a3 ! i = a2 ! i" if "i < q" for i using right(1) that b len by (auto simp: perm_on_def)
  have low: "a3 ! i \<le> v" if i: "l \<le> i" "i < p" for i
  proof -
    obtain j where "l \<le> j" "j < p" "a2 ! i = a1 ! j" using perm_on_from [OF left(1) _ i] b len by auto
    then show ?thesis using small keep [of i] i b by simp
  qed
  have mid: "a3 ! i = v" if "p \<le> i" "i < q" for i
    using keep [of i] left(1) eq that b len by (auto simp: perm_on_def)
  have high: "v \<le> a3 ! i" if i: "q \<le> i" "i < h" for i
  proof -
    obtain j where j: "q \<le> j" "j < h" "a3 ! i = a2 ! j" using perm_on_from [OF right(1) _ i] b len by auto
    then have "a2 ! j = a1 ! j" using b left(1) len by (auto simp: perm_on_def)
    then show ?thesis using large j by simp
  qed
  show "sorted_on l h a3"
    unfolding sorted_on_def
  proof (intro allI impI)
    fix i j assume ij: "l \<le> i \<and> i < j \<and> j < h"
    consider "j < p" | "q \<le> i" | "i < q" "p \<le> j" using ij by linarith
    then show "a3 ! i \<le> a3 ! j"
    proof cases
      case 1
      then show ?thesis using left(2) ij keep [of i] keep [of j] b by (simp add: sorted_on_def)
    next
      case 2
      then show ?thesis using right(2) ij by (simp add: sorted_on_def)
    next
      case 3
      have "a3 ! i \<le> v" using low [of i] mid [of i] 3 ij by (cases "i < p") auto
      moreover have "v \<le> a3 ! j" using high [of j] mid [of j] 3 ij by (cases "j < q") auto
      ultimately show ?thesis by simp
    qed
  qed
qed

section \<open>The contract of a partition step\<close>

definition part_ok :: "nat \<Rightarrow> nat \<Rightarrow> int list \<Rightarrow> nat \<Rightarrow> int list \<Rightarrow> bool" where
  "part_ok l h a p a' =
     (l \<le> p \<and> p < h \<and> perm_on l h a a' \<and> (\<forall>i. l \<le> i \<and> i < p \<longrightarrow> a' ! i \<le> a' ! p) \<and> (\<forall>i. p < i \<and> i < h \<longrightarrow> a' ! p \<le> a' ! i))"

text \<open>The array, the number of \<open>rand()\<close> calls so far and the counter of calls.\<close>

type_synonym qstate = "int list \<times> nat \<times> nat"

locale quicksort =
  fixes part :: "nat \<Rightarrow> int list \<Rightarrow> nat \<Rightarrow> nat \<Rightarrow> (nat \<times> int list) option"
    and qs :: "(nat \<Rightarrow> nat) \<Rightarrow> qstate \<Rightarrow> nat \<Rightarrow> nat \<Rightarrow> qstate option"
  assumes part_sound: "l + 1 < h \<Longrightarrow> h \<le> length a \<Longrightarrow> \<exists>p a'. part r a l h = Some (p, a') \<and> part_ok l h a p a'"
    and qs_rec: "qs rnd (a, k, cnt) l h =
      (if h \<le> l + 1 then Some (a, k, cnt + 1)
       else do {
         (p, a) \<leftarrow> part (rnd k) a l h;
         st \<leftarrow> qs rnd (a, k + 1, cnt + 1) l p;
         qs rnd st (p + 1) h })"
begin

lemma combine:
  assumes "part_ok l h a p a1" "h \<le> length a" "perm_on l p a1 a2" "sorted_on l p a2" "perm_on (p + 1) h a2 a3" "sorted_on (p + 1) h a3"
  shows "perm_on l h a a3 \<and> sorted_on l h a3"
  using assms by (intro sorted_blocks [of l h a a1 p "p + 1" "a1 ! p" a2 a3]) (auto simp: part_ok_def less_Suc_eq)

lemma qs_sorts:
  "h \<le> length a \<Longrightarrow> \<exists>a' k' cnt'. qs rnd (a, k, cnt) l h = Some (a', k', cnt') \<and> perm_on l h a a' \<and> sorted_on l h a'"
proof (induction "h - l" arbitrary: a k cnt l h rule: less_induct)
  case less
  show ?case
  proof (cases "h \<le> l + 1")
    case True
    then show ?thesis by (auto simp: qs_rec [of rnd a k cnt l h] sorted_on_def)
  next
    case False
    obtain p a1 where p: "part (rnd k) a l h = Some (p, a1)" "part_ok l h a p a1" using part_sound [of l h a "rnd k"] False less.prems by auto
    then have b: "l \<le> p" "p < h" "length a1 = length a" by (auto simp: part_ok_def perm_on_def)
    then have d: "p - l < h - l" "h - (p + 1) < h - l" by linarith+
    obtain a2 k2 c2 where q: "qs rnd (a1, k + 1, cnt + 1) l p = Some (a2, k2, c2)" "perm_on l p a1 a2" "sorted_on l p a2"
      using less.hyps [OF d(1), of a1 "k + 1" "cnt + 1"] b less.prems by auto
    then have "length a2 = length a" using b by (simp add: perm_on_def)
    then obtain a3 k3 c3 where q2: "qs rnd (a2, k2, c2) (p + 1) h = Some (a3, k3, c3)" "perm_on (p + 1) h a2 a3" "sorted_on (p + 1) h a3"
      using less.hyps [OF d(2), of a2 k2 c2] less.prems by auto
    show ?thesis
      using combine [OF p(2) less.prems q(2,3) q2(2,3)] p(1) q(1) q2(1) False by (auto simp: qs_rec [of rnd a k cnt l h])
  qed
qed

end

section \<open>The first program\<close>

function part_loop :: "int \<Rightarrow> nat \<Rightarrow> nat \<Rightarrow> nat \<Rightarrow> int list \<Rightarrow> nat \<times> int list" where
  "part_loop pv hi i k a =
     (if i < hi then
        if a ! i \<le> pv then part_loop pv hi (i + 1) (k + 1) (swap a i k) else part_loop pv hi (i + 1) k a
      else (k, a))"
  by pat_completeness auto

termination
  by (relation "measure (\<lambda>(pv, hi, i, k, a). hi - i)") auto

declare part_loop.simps [simp del]

definition partition1 :: "nat \<Rightarrow> int list \<Rightarrow> nat \<Rightarrow> nat \<Rightarrow> (nat \<times> int list) option" where
  "partition1 r a l h =
     (if \<not> l + 1 < h \<or> \<not> h \<le> length a then None
      else let pivot = l + r mod (h - l);
               pv = a ! pivot;
               (k, a) = part_loop pv (h - 1) l l (swap a pivot (h - 1))
           in Some (k, swap a (h - 1) k))"

lemma part_loop_inv:
  assumes "l \<le> k" "k \<le> i" "i \<le> hi" "hi < length a" "\<forall>j. l \<le> j \<and> j < k \<longrightarrow> a ! j \<le> pv" "\<forall>j. k \<le> j \<and> j < i \<longrightarrow> pv < a ! j"
    "part_loop pv hi i k a = (k', a')"
  shows "l \<le> k' \<and> k' \<le> hi \<and> perm_on l hi a a' \<and> (\<forall>j. l \<le> j \<and> j < k' \<longrightarrow> a' ! j \<le> pv) \<and> (\<forall>j. k' \<le> j \<and> j < hi \<longrightarrow> pv < a' ! j)"
  using assms
proof (induction pv hi i k a rule: part_loop.induct)
  case (1 pv hi i k a)
  consider (stop) "i = hi" | (le) "i < hi" "a ! i \<le> pv" | (gt) "i < hi" "pv < a ! i" using "1.prems"(3) by linarith
  then show ?case
  proof cases
    case stop
    then have "k' = k" "a' = a" using "1.prems"(7) by (auto simp: part_loop.simps [of pv hi hi k a])
    then show ?thesis using "1.prems" stop by simp
  next
    case le
    let ?a = "swap a i k"
    have n: "?a ! j = (if j = i then a ! k else if j = k then a ! i else a ! j)" if "j < length a" for j
      using le "1.prems" that by (intro swap_nth) auto
    have "part_loop pv hi (i + 1) (k + 1) ?a = (k', a')" using le "1.prems"(7) by (simp add: part_loop.simps [of pv hi i k a])
    moreover have "\<forall>j. l \<le> j \<and> j < k + 1 \<longrightarrow> ?a ! j \<le> pv" "\<forall>j. k + 1 \<le> j \<and> j < i + 1 \<longrightarrow> pv < ?a ! j"
      using le "1.prems" n by (auto simp: less_Suc_eq)
    ultimately have "l \<le> k' \<and> k' \<le> hi \<and> perm_on l hi ?a a' \<and> (\<forall>j. l \<le> j \<and> j < k' \<longrightarrow> a' ! j \<le> pv) \<and> (\<forall>j. k' \<le> j \<and> j < hi \<longrightarrow> pv < a' ! j)"
      using le "1.prems" by (intro "1.IH"(1)) auto
    moreover have "perm_on l hi a ?a" using le "1.prems" by (intro perm_on_swap) auto
    ultimately show ?thesis using perm_on_trans by blast
  next
    case gt
    then show ?thesis using "1.prems" by (intro "1.IH"(2)) (auto simp: part_loop.simps [of pv hi i k a] less_Suc_eq)
  qed
qed

lemma partition1_ok:
  assumes "l + 1 < h" "h \<le> length a"
  shows "\<exists>p a'. partition1 r a l h = Some (p, a') \<and> part_ok l h a p a'"
proof -
  define pivot where "pivot = l + r mod (h - l)"
  have pv: "l \<le> pivot" "pivot < h" using assms(1) mod_less_divisor [of "h - l" r] unfolding pivot_def by linarith+
  let ?a1 = "swap a pivot (h - 1)"
  obtain k a2 where r: "part_loop (a ! pivot) (h - 1) l l ?a1 = (k, a2)" by fastforce
  have i: "l \<le> k" "k \<le> h - 1" "perm_on l (h - 1) ?a1 a2" "\<forall>j. l \<le> j \<and> j < k \<longrightarrow> a2 ! j \<le> a ! pivot" "\<forall>j. k \<le> j \<and> j < h - 1 \<longrightarrow> a ! pivot < a2 ! j"
    using part_loop_inv [OF _ _ _ _ _ _ r, of l] assms by auto
  have len: "length a2 = length a" using i(3) by (simp add: perm_on_def)
  have last: "a2 ! (h - 1) = a ! pivot" using i(3) assms pv by (auto simp: perm_on_def swap_nth)
  have n: "swap a2 (h - 1) k ! j = (if j = h - 1 then a2 ! k else if j = k then a2 ! (h - 1) else a2 ! j)" if "j < h" for j
    using that assms i(2) len by (intro swap_nth) auto
  have "perm_on l h a ?a1" using assms pv by (intro perm_on_swap) auto
  moreover have "perm_on l h ?a1 a2" using perm_on_mono [OF i(3), of l h] by simp
  moreover have "perm_on l h a2 (swap a2 (h - 1) k)" using assms i(1,2) len by (intro perm_on_swap) auto
  ultimately have "perm_on l h a (swap a2 (h - 1) k)" using perm_on_trans by blast
  moreover have "\<forall>j. l \<le> j \<and> j < k \<longrightarrow> swap a2 (h - 1) k ! j \<le> swap a2 (h - 1) k ! k"
    using i(2,4) n last assms by auto
  moreover have "\<forall>j. k < j \<and> j < h \<longrightarrow> swap a2 (h - 1) k ! k \<le> swap a2 (h - 1) k ! j"
  proof (intro allI impI)
    fix j assume j: "k < j \<and> j < h"
    have "a ! pivot < a2 ! k" using i(5) j assms by auto
    moreover have "a ! pivot < a2 ! j" if "j \<noteq> h - 1" using i(5) j that by auto
    ultimately show "swap a2 (h - 1) k ! k \<le> swap a2 (h - 1) k ! j" using n [of k] n [of j] last j by auto
  qed
  ultimately have "part_ok l h a k (swap a2 (h - 1) k)" using i(1,2) assms by (auto simp: part_ok_def)
  then show ?thesis using r assms by (simp add: partition1_def pivot_def Let_def)
qed

lemma partition1_range: "partition1 r a l h = Some (p, a') \<Longrightarrow> l \<le> p \<and> p < h"
  using partition1_ok [of l h a r] by (auto simp: partition1_def part_ok_def split: if_splits)

function qsort1 :: "(nat \<Rightarrow> nat) \<Rightarrow> qstate \<Rightarrow> nat \<Rightarrow> nat \<Rightarrow> qstate option" where
  "qsort1 rnd (a, k, cnt) l h =
     (if h \<le> l + 1 then Some (a, k, cnt + 1)
      else do {
        (p, a) \<leftarrow> partition1 (rnd k) a l h;
        st \<leftarrow> qsort1 rnd (a, k + 1, cnt + 1) l p;
        qsort1 rnd st (p + 1) h })"
  by pat_completeness auto

termination
  by (relation "measure (\<lambda>(rnd, st, l, h). h - l)") (auto dest!: partition1_range)

declare qsort1.simps [simp del]

interpretation q1: quicksort partition1 qsort1
  by unfold_locales (simp_all add: partition1_ok qsort1.simps)

section \<open>The second program\<close>

function dec_high :: "int list \<Rightarrow> int \<Rightarrow> nat \<Rightarrow> nat \<Rightarrow> nat" where
  "dec_high a pv low high = (if low < high \<and> a ! high \<ge> pv then dec_high a pv low (high - 1) else high)"
  by pat_completeness auto

termination
  by (relation "measure (\<lambda>(a, pv, low, high). high - low)") auto

function inc_low :: "int list \<Rightarrow> int \<Rightarrow> nat \<Rightarrow> nat \<Rightarrow> nat" where
  "inc_low a pv low high = (if low < high \<and> a ! low \<le> pv then inc_low a pv (low + 1) high else low)"
  by pat_completeness auto

termination
  by (relation "measure (\<lambda>(a, pv, low, high). high - low)") auto

declare dec_high.simps [simp del] inc_low.simps [simp del]

lemma dec_high_spec:
  "low \<le> high \<Longrightarrow> low \<le> dec_high a pv low high \<and> dec_high a pv low high \<le> high \<and>
   (\<forall>j. dec_high a pv low high < j \<and> j \<le> high \<longrightarrow> pv \<le> a ! j) \<and>
   (dec_high a pv low high = low \<or> a ! dec_high a pv low high < pv)"
proof (induction a pv low high rule: dec_high.induct)
  case (1 a pv low high)
  show ?case
  proof (cases "low < high \<and> a ! high \<ge> pv")
    case True
    then have e: "dec_high a pv low high = dec_high a pv low (high - 1)" by (simp add: dec_high.simps [of a pv low high])
    have "pv \<le> a ! j" if "j \<le> high" "\<not> j \<le> high - 1" for j using True that by (metis One_nat_def Suc_pred le_Suc_eq not_less_zero neq0_conv)
    then show ?thesis using "1.IH" [OF True] True unfolding e by fastforce
  next
    case False
    then show ?thesis using "1.prems" by (auto simp: dec_high.simps [of a pv low high])
  qed
qed

lemma inc_low_spec:
  "low \<le> high \<Longrightarrow> low \<le> inc_low a pv low high \<and> inc_low a pv low high \<le> high \<and>
   (\<forall>j. low \<le> j \<and> j < inc_low a pv low high \<longrightarrow> a ! j \<le> pv) \<and>
   (inc_low a pv low high = high \<or> pv < a ! inc_low a pv low high)"
proof (induction a pv low high rule: inc_low.induct)
  case (1 a pv low high)
  show ?case
  proof (cases "low < high \<and> a ! low \<le> pv")
    case True
    then have e: "inc_low a pv low high = inc_low a pv (low + 1) high" by (simp add: inc_low.simps [of a pv low high])
    have "a ! j \<le> pv" if "low \<le> j" "\<not> low + 1 \<le> j" for j using True that by (metis Suc_eq_plus1 le_antisym not_less_eq_eq)
    then show ?thesis using "1.IH" [OF True] True unfolding e by fastforce
  next
    case False
    then show ?thesis using "1.prems" by (auto simp: inc_low.simps [of a pv low high])
  qed
qed

text \<open>When neither index moves, the swap makes the upper one move in the next round.\<close>

function hoare :: "int \<Rightarrow> nat \<Rightarrow> nat \<Rightarrow> int list \<Rightarrow> (nat \<times> int list) option" where
  "hoare pv low high a =
     (if \<not> low < high then Some (low, a)
      else if \<not> high < length a then None
      else let high' = dec_high a pv low high
           in if low = high' then Some (low, a)
              else let low' = inc_low a pv low high'
                   in hoare pv low' high' (swap a low' high'))"
  by pat_completeness auto

termination
proof (relation "measure (\<lambda>(pv, low, high, a). 2 * (high - low) + (if a ! high < pv then 1 else 0))", goal_cases)
  case 1
  then show ?case by simp
next
  case (2 pv low high a h' l')
  have h: "low \<le> h'" "h' \<le> high" "h' = low \<or> a ! h' < pv" using dec_high_spec [of low high a pv] 2 by auto
  have l: "low \<le> l'" "l' \<le> h'" "l' = h' \<or> pv < a ! l'" using inc_low_spec [OF h(1), of a pv] 2 by auto
  have "swap a l' h' ! h' = a ! l'" using h l 2 by (auto simp: swap_nth)
  then show ?case using h l 2 by (cases "l' = h'"; cases "h' = high") auto
qed

declare hoare.simps [simp del]

definition partition2 :: "nat \<Rightarrow> int list \<Rightarrow> nat \<Rightarrow> nat \<Rightarrow> (nat \<times> int list) option" where
  "partition2 r a l h =
     (if \<not> l + 2 \<le> h \<or> \<not> h \<le> length a then None
      else do {
        let pivot = l + r mod (h - l);
        let pv = a ! pivot;
        (low, a) \<leftarrow> hoare pv l (h - 1) (swap a pivot l);
        Some (low, swap a l low) })"

lemma hoare_inv:
  assumes "l \<le> low" "low \<le> high" "high < h" "h \<le> length a" "a ! l = pv"
    "\<forall>j. l \<le> j \<and> j \<le> low \<longrightarrow> a ! j \<le> pv" "\<forall>j. high < j \<and> j < h \<longrightarrow> pv \<le> a ! j"
  shows "\<exists>p a'. hoare pv low high a = Some (p, a') \<and> l \<le> p \<and> p < h \<and> perm_on (l + 1) h a a' \<and>
    (\<forall>j. l \<le> j \<and> j \<le> p \<longrightarrow> a' ! j \<le> pv) \<and> (\<forall>j. p < j \<and> j < h \<longrightarrow> pv \<le> a' ! j)"
  using assms
proof (induction pv low high a rule: hoare.induct)
  case (1 pv low high a)
  show ?case
  proof (cases "low < high")
    case False
    then have "hoare pv low high a = Some (low, a)" by (simp add: hoare.simps [of pv low high a])
    moreover have "low = high" using False "1.prems"(2) by simp
    ultimately show ?thesis using "1.prems" by (intro exI [of _ low] exI [of _ a]) auto
  next
    case True
    define h' where "h' = dec_high a pv low high"
    have dh: "low \<le> h'" "h' \<le> high" "\<forall>j. h' < j \<and> j \<le> high \<longrightarrow> pv \<le> a ! j" "h' = low \<or> a ! h' < pv"
      using dec_high_spec [OF "1.prems"(2), of a pv] by (auto simp: h'_def)
    have up: "\<forall>j. h' < j \<and> j < h \<longrightarrow> pv \<le> a ! j" using dh(3) "1.prems"(7) by (metis not_le)
    have in_range: "high < length a" using "1.prems"(3,4) by simp
    show ?thesis
    proof (cases "low = h'")
      case eq: True
      have "hoare pv low high a = Some (low, a)"
        using True in_range eq [symmetric] by (simp add: hoare.simps [of pv low high a] h'_def Let_def)
      then show ?thesis using "1.prems" up eq by auto
    next
      case ne: False
      define l' where "l' = inc_low a pv low h'"
      have il: "low \<le> l'" "l' \<le> h'" "\<forall>j. low \<le> j \<and> j < l' \<longrightarrow> a ! j \<le> pv" "l' = h' \<or> pv < a ! l'"
        using inc_low_spec [OF dh(1), of a pv] by (auto simp: l'_def)
      have first: "a ! low \<le> pv" using "1.prems"(1,6) by simp
      have "l' \<noteq> low" using first dh(1,4) il(4) ne by auto
      then have lt: "l < l'" using il(1) "1.prems"(1) by simp
      let ?a = "swap a l' h'"
      have n: "?a ! j = (if j = l' then a ! h' else if j = h' then a ! l' else a ! j)" if "j < length a" for j
        using that in_range dh(2) il(2) by (intro swap_nth) auto
      have e: "hoare pv low high a = hoare pv l' h' ?a"
        using True in_range ne by (simp add: hoare.simps [of pv low high a] h'_def [symmetric] l'_def [symmetric] Let_def)
      have lo: "a ! j \<le> pv" if "l \<le> j" "j < l'" for j
        using that il(3) "1.prems"(6) by (cases "j \<le> low") auto
      have A: "\<forall>j. l \<le> j \<and> j \<le> l' \<longrightarrow> ?a ! j \<le> pv"
      proof (intro allI impI)
        fix j assume j: "l \<le> j \<and> j \<le> l'"
        show "?a ! j \<le> pv"
        proof (cases "j = l'")
          case True
          then show ?thesis using n [of j] dh ne in_range il(2) by auto
        next
          case False
          then show ?thesis using n [of j] lo [of j] j in_range dh(2) il(2) by auto
        qed
      qed
      have B: "\<forall>j. h' < j \<and> j < h \<longrightarrow> pv \<le> ?a ! j" using n up il(2) "1.prems"(4) by auto
      have C: "?a ! l = pv" using n [of l] lt il(2) in_range dh(2) "1.prems"(5) by simp
      have "\<exists>p a'. hoare pv l' h' ?a = Some (p, a') \<and> l \<le> p \<and> p < h \<and> perm_on (l + 1) h ?a a' \<and>
          (\<forall>j. l \<le> j \<and> j \<le> p \<longrightarrow> a' ! j \<le> pv) \<and> (\<forall>j. p < j \<and> j < h \<longrightarrow> pv \<le> a' ! j)"
        by (rule "1.IH" [OF _ _ h'_def ne l'_def])
          (use True in_range lt il(2) dh(2) "1.prems" A B C in auto)
      moreover have "perm_on (l + 1) h a ?a" using lt il(2) dh(2) "1.prems"(3,4) by (intro perm_on_swap) auto
      ultimately show ?thesis unfolding e using perm_on_trans by blast
    qed
  qed
qed

lemma partition2_ok:
  assumes "l + 1 < h" "h \<le> length a"
  shows "\<exists>p a'. partition2 r a l h = Some (p, a') \<and> part_ok l h a p a'"
proof -
  define pivot where "pivot = l + r mod (h - l)"
  have pv: "l \<le> pivot" "pivot < h" using assms(1) mod_less_divisor [of "h - l" r] unfolding pivot_def by linarith+
  let ?a1 = "swap a pivot l"
  have n1: "?a1 ! l = a ! pivot" using assms pv by (auto simp: swap_nth)
  obtain p a2 where r: "hoare (a ! pivot) l (h - 1) ?a1 = Some (p, a2)" "l \<le> p" "p < h" "perm_on (l + 1) h ?a1 a2"
      "\<forall>j. l \<le> j \<and> j \<le> p \<longrightarrow> a2 ! j \<le> a ! pivot" "\<forall>j. p < j \<and> j < h \<longrightarrow> a ! pivot \<le> a2 ! j"
  proof -
    have "\<forall>j. l \<le> j \<and> j \<le> l \<longrightarrow> ?a1 ! j \<le> a ! pivot" using n1 by (metis le_antisym order_refl)
    moreover have "\<forall>j. h - 1 < j \<and> j < h \<longrightarrow> a ! pivot \<le> ?a1 ! j" by auto
    moreover have "l \<le> h - 1" "h - 1 < h" using assms(1) by auto
    ultimately show ?thesis using that hoare_inv [of l l "h - 1" h ?a1 "a ! pivot"] assms n1 by (metis length_swap order_refl)
  qed
  have len: "length a2 = length a" and l2: "a2 ! l = a ! pivot" using r(4) n1 assms by (auto simp: perm_on_def)
  have n: "swap a2 l p ! j = (if j = l then a2 ! p else if j = p then a2 ! l else a2 ! j)" if "j < h" for j
    using that r(2,3) assms len by (intro swap_nth) auto
  have "perm_on l h a ?a1" using assms pv by (intro perm_on_swap) auto
  moreover have "perm_on l h ?a1 a2" using perm_on_mono [OF r(4), of l h] by simp
  moreover have "perm_on l h a2 (swap a2 l p)" using assms r(2,3) len by (intro perm_on_swap) auto
  ultimately have "perm_on l h a (swap a2 l p)" using perm_on_trans by blast
  moreover have "swap a2 l p ! j \<le> swap a2 l p ! p" if "l \<le> j" "j < p" for j
    using n [of j] n [of p] r(2,3,5) l2 that by auto
  moreover have "swap a2 l p ! p \<le> swap a2 l p ! j" if "p < j" "j < h" for j
    using n [of j] n [of p] r(2,3,5,6) l2 that by auto
  ultimately have "part_ok l h a p (swap a2 l p)" using r(2,3) by (auto simp: part_ok_def)
  then show ?thesis using r(1) assms by (simp add: partition2_def pivot_def Let_def)
qed

lemma partition2_range: "partition2 r a l h = Some (p, a') \<Longrightarrow> l \<le> p \<and> p < h"
  using partition2_ok [of l h a r] by (auto simp: partition2_def part_ok_def split: if_splits)

function qsort2 :: "(nat \<Rightarrow> nat) \<Rightarrow> qstate \<Rightarrow> nat \<Rightarrow> nat \<Rightarrow> qstate option" where
  "qsort2 rnd (a, k, cnt) l h =
     (if h \<le> l + 1 then Some (a, k, cnt + 1)
      else do {
        (p, a) \<leftarrow> partition2 (rnd k) a l h;
        st \<leftarrow> qsort2 rnd (a, k + 1, cnt + 1) l p;
        qsort2 rnd st (p + 1) h })"
  by pat_completeness auto

termination
  by (relation "measure (\<lambda>(rnd, st, l, h). h - l)") (auto dest!: partition2_range)

declare qsort2.simps [simp del]

interpretation q2: quicksort partition2 qsort2
  by unfold_locales (simp_all add: partition2_ok qsort2.simps)

section \<open>Both sort\<close>

lemma perm_on_sorted_unique:
  assumes "perm_on 0 (length a) a a'" "sorted_on 0 (length a) a'"
  shows "a' = sort a"
proof -
  have "sorted a'" using assms by (auto simp: sorted_iff_nth_mono_less sorted_on_def perm_on_def)
  then show ?thesis using assms(1) by (metis perm_on_def properties_for_sort)
qed

text \<open>C25: For every array, every range within it and every outcome of \<open>rand()\<close>, both quicksorts return without
  leaving the range, rearrange only the range, and leave it sorted; on the whole array the two programs
  compute the same array, the sorted one.\<close>

theorem quicksorts_sort:
  assumes "h \<le> length a"
  shows "(\<exists>a' k' c'. qsort1 rnd (a, k, cnt) l h = Some (a', k', c') \<and> perm_on l h a a' \<and> sorted_on l h a' \<and>
      (l = 0 \<and> h = length a \<longrightarrow> a' = sort a)) \<and>
    (\<exists>a' k' c'. qsort2 rnd (a, k, cnt) l h = Some (a', k', c') \<and> perm_on l h a a' \<and> sorted_on l h a' \<and>
      (l = 0 \<and> h = length a \<longrightarrow> a' = sort a))"
  using q1.qs_sorts [OF assms, of rnd k cnt l] q2.qs_sorts [OF assms, of rnd k cnt l] perm_on_sorted_unique by blast

theorem quicksorts_sort_witness:
  "\<exists>a1 k1 c1 a2 k2 c2. qsort1 (\<lambda>n. n) ([3, 1, 2], 0, 0) 0 3 = Some (a1, k1, c1) \<and> a1 = [1, 2, 3] \<and>
     qsort2 (\<lambda>n. n) ([3, 1, 2], 0, 0) 0 3 = Some (a2, k2, c2) \<and> a2 = a1"
  using quicksorts_sort [of 3 "[3, 1, 2]" "\<lambda>n. n" 0 0 0] by fastforce

end
