(* ===== verification/Three_Way.thy ===== *)
theory Three_Way
  imports Sorting
begin

text \<open>
  The three-way partition (\<open>sorting/3way_partition.cpp\<close>), the quicksort over it
  (\<open>sorting/3way_qsort.cpp\<close>) and the two-pointer partition of \<open>sorting/partition.cpp\<close>.  Upper bounds of
  ranges are inclusive in the code; here they are one more, so that \<open>gt = l - 1\<close> is a natural number.
\<close>

section \<open>Three-way partition\<close>

function part3 :: "int \<Rightarrow> nat \<Rightarrow> nat \<Rightarrow> nat \<Rightarrow> int list \<Rightarrow> nat \<times> nat \<times> int list" where
  "part3 pv lt i g a =
     (if i < g then
        if a ! i < pv then part3 pv (lt + 1) (i + 1) g (swap a i lt)
        else if a ! i = pv then part3 pv lt (i + 1) g a
        else part3 pv lt i (g - 1) (swap a i (g - 1))
      else (lt, i, a))"
  by pat_completeness auto

termination
  by (relation "measure (\<lambda>(pv, lt, i, g, a). g - i)") auto

declare part3.simps [simp del]

definition blocks3 :: "int \<Rightarrow> nat \<Rightarrow> nat \<Rightarrow> nat \<Rightarrow> nat \<Rightarrow> nat \<Rightarrow> int list \<Rightarrow> bool" where
  "blocks3 pv l lt i g h a =
     (l \<le> lt \<and> lt \<le> i \<and> i \<le> g \<and> g \<le> h \<and> h \<le> length a \<and> (\<forall>j. l \<le> j \<and> j < lt \<longrightarrow> a ! j < pv) \<and>
      (\<forall>j. lt \<le> j \<and> j < i \<longrightarrow> a ! j = pv) \<and> (\<forall>j. g \<le> j \<and> j < h \<longrightarrow> pv < a ! j))"

lemma part3_inv:
  assumes "blocks3 pv l lt i g h a" "part3 pv lt i g a = (p, q, a')"
  shows "blocks3 pv l p q q h a' \<and> perm_on l h a a'"
  using assms
proof (induction pv lt i g a rule: part3.induct)
  case (1 pv lt i g a)
  have b: "l \<le> lt" "lt \<le> i" "i \<le> g" "g \<le> h" "h \<le> length a" "\<forall>j. l \<le> j \<and> j < lt \<longrightarrow> a ! j < pv"
      "\<forall>j. lt \<le> j \<and> j < i \<longrightarrow> a ! j = pv" "\<forall>j. g \<le> j \<and> j < h \<longrightarrow> pv < a ! j"
    using "1.prems"(1) by (auto simp: blocks3_def)
  consider (stop) "i = g" | (lt) "i < g" "a ! i < pv" | (eq) "i < g" "a ! i = pv" | (gt) "i < g" "pv < a ! i" using b(3) by linarith
  then show ?case
  proof cases
    case stop
    then have "(p, q, a') = (lt, i, a)" using "1.prems"(2) by (simp add: part3.simps [of pv lt g g a])
    then show ?thesis using "1.prems"(1) stop by auto
  next
    case lt
    let ?a = "swap a i lt"
    have n: "?a ! j = (if j = i then a ! lt else if j = lt then a ! i else a ! j)" if "j < length a" for j
      using lt b that by (intro swap_nth) auto
    have "part3 pv (lt + 1) (i + 1) g ?a = (p, q, a')" using lt "1.prems"(2) by (simp add: part3.simps [of pv lt i g a])
    moreover have "blocks3 pv l (lt + 1) (i + 1) g h ?a"
      using b lt n by (auto simp: blocks3_def less_Suc_eq)
    ultimately have "blocks3 pv l p q q h a' \<and> perm_on l h ?a a'"
      using lt by (intro "1.IH"(1)) auto
    moreover have "perm_on l h a ?a" using lt b by (intro perm_on_swap) auto
    ultimately show ?thesis using perm_on_trans by auto
  next
    case eq
    then have "part3 pv lt (i + 1) g a = (p, q, a')" using "1.prems"(2) by (simp add: part3.simps [of pv lt i g a])
    moreover have "blocks3 pv l lt (i + 1) g h a" using b eq by (auto simp: blocks3_def less_Suc_eq)
    ultimately show ?thesis using "1.IH"(2) eq by auto
  next
    case gt
    let ?a = "swap a i (g - 1)"
    have n: "?a ! j = (if j = i then a ! (g - 1) else if j = g - 1 then a ! i else a ! j)" if "j < length a" for j
      using gt b that by (intro swap_nth) auto
    have "part3 pv lt i (g - 1) ?a = (p, q, a')" using gt "1.prems"(2) by (simp add: part3.simps [of pv lt i g a])
    moreover have "blocks3 pv l lt i (g - 1) h ?a"
      using b gt n by (auto simp: blocks3_def)
    ultimately have "blocks3 pv l p q q h a' \<and> perm_on l h ?a a'"
      using gt by (intro "1.IH"(3)) auto
    moreover have "perm_on l h a ?a" using gt b by (intro perm_on_swap) auto
    ultimately show ?thesis using perm_on_trans by auto
  qed
qed

lemma part3_correct:
  assumes "l \<le> h" "h \<le> length a" "part3 pv l l h a = (p, q, a')"
  shows "l \<le> p" "p \<le> q" "q \<le> h" "perm_on l h a a'" "\<forall>j. l \<le> j \<and> j < p \<longrightarrow> a' ! j < pv" "\<forall>j. p \<le> j \<and> j < q \<longrightarrow> a' ! j = pv"
    "\<forall>j. q \<le> j \<and> j < h \<longrightarrow> pv < a' ! j"
  using part3_inv [OF _ assms(3), of l h] assms(1,2) by (auto simp: blocks3_def)

text \<open>When the pivot value occurs, the middle block is not empty.\<close>

lemma part3_nonempty:
  assumes "h \<le> length a" "part3 pv l l h a = (p, q, a')" "l \<le> i" "i < h" "a ! i = pv"
  shows "p < q"
proof (rule ccontr)
  assume n: "\<not> p < q"
  have lh: "l \<le> h" using assms(3,4) by simp
  note c = part3_correct [OF lh assms(1,2)]
  have "mset (take (h - l) (drop l a')) = mset (take (h - l) (drop l a))" using perm_on_slice [OF c(4) lh assms(1)] .
  moreover have "pv \<in> set (take (h - l) (drop l a))"
    unfolding in_set_conv_nth using assms by (intro exI [of _ "i - l"]) auto
  ultimately have "pv \<in> set (take (h - l) (drop l a'))" by (metis set_mset_mset)
  moreover have "length a' = length a" using c(4) by (simp add: perm_on_def)
  ultimately obtain k where "k < h - l" "a' ! (l + k) = pv" using assms(1) by (auto simp: in_set_conv_nth)
  then have j: "l \<le> l + k" "l + k < h" "a' ! (l + k) = pv" by auto
  consider "l + k < p" | "q \<le> l + k" using n by linarith
  then show False using c(5,7) j by cases (metis less_irrefl)+
qed

section \<open>Partition by a fixed value\<close>

definition partition3 :: "int list \<Rightarrow> nat \<Rightarrow> nat \<Rightarrow> int list option" where
  "partition3 a l h =
     (if \<not> h \<le> length a then None else case part3 1 l l h a of (_, _, a') \<Rightarrow> Some a')"

section \<open>Quicksort over three blocks\<close>

lemma pivot3: "l + 1 < (h :: nat) \<Longrightarrow> l \<le> l + r mod (h - 1 - l) + 1 \<and> l + r mod (h - 1 - l) + 1 < h"
  using mod_less_divisor [of "h - 1 - l" r] by linarith

lemma qsort3_shrinks:
  assumes "l + 1 < h" "h \<le> length a" "part3 (a ! (l + r mod (h - 1 - l) + 1)) l l h a = (p, q, a')"
  shows "p < h" "l < q"
proof -
  have lh: "l \<le> h" using assms(1) by simp
  have "p < q" using pivot3 [OF assms(1), of r] by (intro part3_nonempty [OF assms(2,3) _ _ refl]) auto
  then show "p < h" "l < q" using part3_correct(1-3) [OF lh assms(2,3)] by auto
qed

function qsort3 :: "(nat \<Rightarrow> nat) \<Rightarrow> qstate \<Rightarrow> nat \<Rightarrow> nat \<Rightarrow> qstate option" where
  "qsort3 rnd (a, k, cnt) l h =
     (if h \<le> l + 1 then Some (a, k, cnt + 1)
      else if \<not> h \<le> length a then None
      else let pivot = l + rnd k mod (h - 1 - l) + 1;
               (lt, i, a) = part3 (a ! pivot) l l h a
           in do {
             st \<leftarrow> qsort3 rnd (a, k + 1, cnt + 1) l lt;
             qsort3 rnd st i h })"
  by pat_completeness auto

termination
proof (relation "measure (\<lambda>(rnd, st, l, h). h - l)", goal_cases)
  case 1
  then show ?case by simp
next
  case (2 rnd a k cnt l h pivot y lt ya i a')
  then show ?case using qsort3_shrinks(1) [of l h a "rnd k" lt i a'] by auto
next
  case (3 rnd a k cnt l h pivot y lt ya i a' st)
  then show ?case using qsort3_shrinks(2) [of l h a "rnd k" lt i a'] by auto
qed

declare qsort3.simps [simp del]

lemma qsort3_sorts:
  "h \<le> length a \<Longrightarrow> \<exists>a' k' cnt'. qsort3 rnd (a, k, cnt) l h = Some (a', k', cnt') \<and> perm_on l h a a' \<and> sorted_on l h a'"
proof (induction "h - l" arbitrary: a k cnt l h rule: less_induct)
  case less
  show ?case
  proof (cases "h \<le> l + 1")
    case True
    then show ?thesis by (auto simp: qsort3.simps [of rnd a k cnt l h] sorted_on_def)
  next
    case False
    obtain p q a1 where p: "part3 (a ! (l + rnd k mod (h - 1 - l) + 1)) l l h a = (p, q, a1)" by (metis prod_cases3)
    have lh: "l \<le> h" using False by simp
    note c = part3_correct [OF lh less.prems p]
    have d: "p - l < h - l" "h - q < h - l" using qsort3_shrinks [OF _ less.prems p] False c(1-3) by auto
    have len: "length a1 = length a" using c(4) by (simp add: perm_on_def)
    obtain a2 k2 c2 where q: "qsort3 rnd (a1, k + 1, cnt + 1) l p = Some (a2, k2, c2)" "perm_on l p a1 a2" "sorted_on l p a2"
      using less.hyps [OF d(1), of a1 "k + 1" "cnt + 1"] c(2,3) len less.prems by auto
    then have "length a2 = length a" using len by (simp add: perm_on_def)
    then obtain a3 k3 c3 where q2: "qsort3 rnd (a2, k2, c2) q h = Some (a3, k3, c3)" "perm_on q h a2 a3" "sorted_on q h a3"
      using less.hyps [OF d(2), of a2 k2 c2] less.prems by auto
    have "perm_on l h a a3 \<and> sorted_on l h a3"
      by (rule sorted_blocks [OF c(4,1-3) less.prems _ c(6) _ q(2,3) q2(2,3)]) (use c(5,7) in \<open>auto intro: less_imp_le\<close>)
    then show ?thesis using p q(1) q2(1) False less.prems by (simp add: qsort3.simps [of rnd a k cnt l h] Let_def)
  qed
qed

section \<open>Partition with two pointers\<close>

text \<open>Both scans read the element before they compare the indices.  The lower end of the downward scan is
  never 0: it stops at \<open>i - 1\<close>, and \<open>i\<close> is at least \<open>low + 1\<close>.\<close>

function scan_up :: "int list \<Rightarrow> nat \<Rightarrow> nat \<Rightarrow> nat \<Rightarrow> nat option" where
  "scan_up a low i j =
     (if \<not> i < length a then None
      else if a ! i \<le> a ! low \<and> i \<le> j then scan_up a low (i + 1) j else Some i)"
  by pat_completeness auto

termination
  by (relation "measure (\<lambda>(a, low, i, j). length a - i)") auto

function scan_down :: "int list \<Rightarrow> nat \<Rightarrow> nat \<Rightarrow> nat \<Rightarrow> nat option" where
  "scan_down a low i j =
     (if \<not> j < length a then None
      else if a ! j \<ge> a ! low \<and> i \<le> j \<and> 0 < j then scan_down a low i (j - 1) else Some j)"
  by pat_completeness auto

termination
  by (relation "measure (\<lambda>(a, low, i, j). j)") auto

declare scan_up.simps [simp del] scan_down.simps [simp del]

lemma scan_up_spec:
  "i \<le> j + 1 \<Longrightarrow> j + 1 < length a \<Longrightarrow> \<exists>i'. scan_up a low i j = Some i' \<and> i \<le> i' \<and> i' \<le> j + 1 \<and>
     (\<forall>x. i \<le> x \<and> x < i' \<longrightarrow> a ! x \<le> a ! low) \<and> (i' \<le> j \<longrightarrow> a ! low < a ! i')"
proof (induction a low i j rule: scan_up.induct)
  case (1 a low i j)
  show ?case
  proof (cases "a ! i \<le> a ! low \<and> i \<le> j")
    case True
    then obtain i' where i: "scan_up a low (i + 1) j = Some i'" "i + 1 \<le> i'" "i' \<le> j + 1"
        "\<forall>x. i + 1 \<le> x \<and> x < i' \<longrightarrow> a ! x \<le> a ! low" "i' \<le> j \<longrightarrow> a ! low < a ! i'"
      using 1 by auto
    have "\<forall>x. i \<le> x \<and> x < i' \<longrightarrow> a ! x \<le> a ! low" using i(4) True by (metis Suc_eq_plus1 le_neq_implies_less Suc_leI)
    moreover have "scan_up a low i j = Some i'" using True i(1) "1.prems" by (simp add: scan_up.simps [of a low i j])
    ultimately show ?thesis using i by auto
  next
    case False
    then show ?thesis using "1.prems" by (auto simp: scan_up.simps [of a low i j])
  qed
qed

lemma scan_down_spec:
  "0 < i \<Longrightarrow> i \<le> j + 1 \<Longrightarrow> j < length a \<Longrightarrow> \<exists>j'. scan_down a low i j = Some j' \<and> i \<le> j' + 1 \<and> j' \<le> j \<and>
     (\<forall>x. j' < x \<and> x \<le> j \<longrightarrow> a ! low \<le> a ! x) \<and> (i \<le> j' \<longrightarrow> a ! j' < a ! low)"
proof (induction a low i j rule: scan_down.induct)
  case (1 a low i j)
  show ?case
  proof (cases "a ! j \<ge> a ! low \<and> i \<le> j \<and> 0 < j")
    case True
    then obtain j' where i: "scan_down a low i (j - 1) = Some j'" "i \<le> j' + 1" "j' \<le> j - 1"
        "\<forall>x. j' < x \<and> x \<le> j - 1 \<longrightarrow> a ! low \<le> a ! x" "i \<le> j' \<longrightarrow> a ! j' < a ! low"
      using 1 by fastforce
    have "\<forall>x. j' < x \<and> x \<le> j \<longrightarrow> a ! low \<le> a ! x" using i(4) True by (metis Suc_pred' le_Suc_eq One_nat_def)
    moreover have "scan_down a low i j = Some j'" using True i(1) "1.prems" by (simp add: scan_down.simps [of a low i j])
    ultimately show ?thesis using i True by auto
  next
    case False
    then show ?thesis using "1.prems" by (auto simp: scan_down.simps [of a low i j])
  qed
qed

lemma scan_up_le: "scan_up a low i j = Some i' \<Longrightarrow> i \<le> i'"
proof (induction a low i j rule: scan_up.induct)
  case (1 a low i j)
  then show ?case using scan_up.simps [of a low i j] by (cases "i < length a"; cases "a ! i \<le> a ! low \<and> i \<le> j") auto
qed

lemma scan_down_le: "scan_down a low i j = Some j' \<Longrightarrow> j' \<le> j"
proof (induction a low i j rule: scan_down.induct)
  case (1 a low i j)
  then show ?case using scan_down.simps [of a low i j] by (cases "j < length a"; cases "a ! j \<ge> a ! low \<and> i \<le> j \<and> 0 < j") auto
qed

function two_ends :: "nat \<Rightarrow> nat \<Rightarrow> nat \<Rightarrow> int list \<Rightarrow> (nat \<times> int list) option" where
  "two_ends low i j a =
     (if i \<le> j then do {
        i \<leftarrow> scan_up a low i j;
        j \<leftarrow> scan_down a low i j;
        if i > j then Some (j, a) else two_ends low (i + 1) (j - 1) (swap a i j) }
      else Some (j, a))"
  by pat_completeness auto

termination
  by (relation "measure (\<lambda>(low, i, j, a). j + 1 - i)") (auto dest!: scan_up_le scan_down_le)

declare two_ends.simps [simp del]

definition partition_ends :: "int list \<Rightarrow> nat \<Rightarrow> nat \<Rightarrow> (nat \<times> int list) option" where
  "partition_ends a low high = do { (j, a) \<leftarrow> two_ends low (low + 1) high a; Some (j, swap a low j) }"

lemma two_ends_inv:
  assumes "low < i" "i \<le> j + 1" "j \<le> high" "high + 1 < length a"
    "\<forall>x. low < x \<and> x < i \<longrightarrow> a ! x \<le> a ! low" "\<forall>x. j < x \<and> x \<le> high \<longrightarrow> a ! low \<le> a ! x"
  shows "\<exists>p a'. two_ends low i j a = Some (p, a') \<and> low \<le> p \<and> p \<le> high \<and> perm_on (low + 1) (high + 1) a a' \<and>
    (\<forall>x. low < x \<and> x \<le> p \<longrightarrow> a' ! x \<le> a ! low) \<and> (\<forall>x. p < x \<and> x \<le> high \<longrightarrow> a ! low \<le> a' ! x)"
  using assms
proof (induction low i j a rule: two_ends.induct)
  case (1 low i j a)
  show ?case
  proof (cases "i \<le> j")
    case False
    then have "two_ends low i j a = Some (j, a)" "i = j + 1" using "1.prems"(2) by (simp_all add: two_ends.simps [of low i j a])
    then show ?thesis using "1.prems" by (intro exI [of _ j] exI [of _ a]) auto
  next
    case True
    obtain i' where i: "scan_up a low i j = Some i'" "i \<le> i'" "i' \<le> j + 1" "\<forall>x. i \<le> x \<and> x < i' \<longrightarrow> a ! x \<le> a ! low"
        "i' \<le> j \<longrightarrow> a ! low < a ! i'"
      using scan_up_spec [of i j a low] "1.prems" by auto
    obtain j' where j: "scan_down a low i' j = Some j'" "i' \<le> j' + 1" "j' \<le> j" "\<forall>x. j' < x \<and> x \<le> j \<longrightarrow> a ! low \<le> a ! x"
        "i' \<le> j' \<longrightarrow> a ! j' < a ! low"
      using scan_down_spec [of i' j a low] i "1.prems" by auto
    have lo: "a ! x \<le> a ! low" if "low < x" "x < i'" for x using that i(4) "1.prems"(5) by (cases "x < i") auto
    have hi: "a ! low \<le> a ! x" if "j' < x" "x \<le> high" for x using that j(4) "1.prems"(6) by (cases "x \<le> j") auto
    show ?thesis
    proof (cases "i' > j'")
      case stop: True
      then have "two_ends low i j a = Some (j', a)" "i' = j' + 1" using True i(1) j(1,2) by (simp_all add: two_ends.simps [of low i j a])
      then show ?thesis using lo hi i(2) j(3) "1.prems"(1,3) by (intro exI [of _ j'] exI [of _ a]) auto
    next
      case go: False
      then have lt: "i' < j'" using i(5) j(3,5) by (cases "i' = j'") auto
      let ?a = "swap a i' j'"
      have n: "?a ! x = (if x = i' then a ! j' else if x = j' then a ! i' else a ! x)" if "x \<le> high" for x
        using that lt j(3) "1.prems"(3,4) by (intro swap_nth) auto
      have l: "?a ! low = a ! low" using n [of low] "1.prems"(1-3) i(2) lt j(3) by auto
      have A: "\<forall>x. low < x \<and> x < i' + 1 \<longrightarrow> ?a ! x \<le> ?a ! low"
        unfolding l using n lo lt j(3,5) "1.prems"(3) by (auto simp: less_Suc_eq)
      have B: "\<forall>x. j' - 1 < x \<and> x \<le> high \<longrightarrow> ?a ! low \<le> ?a ! x"
      proof (intro allI impI)
        fix x assume x: "j' - 1 < x \<and> x \<le> high"
        show "?a ! low \<le> ?a ! x"
        proof (cases "x = j'")
          case True
          then show ?thesis unfolding l using n [of x] x lt i(5) j(3) by auto
        next
          case False
          then show ?thesis unfolding l using n [of x] x lt hi [of x] by auto
        qed
      qed
      have e: "two_ends low i j a = two_ends low (i' + 1) (j' - 1) ?a" using True go i(1) j(1) by (simp add: two_ends.simps [of low i j a])
      have "\<exists>p a'. two_ends low (i' + 1) (j' - 1) ?a = Some (p, a') \<and> low \<le> p \<and> p \<le> high \<and> perm_on (low + 1) (high + 1) ?a a' \<and>
          (\<forall>x. low < x \<and> x \<le> p \<longrightarrow> a' ! x \<le> ?a ! low) \<and> (\<forall>x. p < x \<and> x \<le> high \<longrightarrow> ?a ! low \<le> a' ! x)"
        by (rule "1.IH" [OF True i(1) j(1) go]) (use lt i(2) j(3) "1.prems" A B in auto)
      moreover have "perm_on (low + 1) (high + 1) a ?a" using lt i(2) j(3) "1.prems" by (intro perm_on_swap) auto
      ultimately show ?thesis unfolding e l using perm_on_trans by blast
    qed
  qed
qed

lemma partition_ends_ok:
  assumes "low \<le> high" "high + 1 < length a"
  shows "\<exists>p a'. partition_ends a low high = Some (p, a') \<and> part_ok low (high + 1) a p a'"
proof -
  obtain p a1 where r: "two_ends low (low + 1) high a = Some (p, a1)" "low \<le> p" "p \<le> high" "perm_on (low + 1) (high + 1) a a1"
      "\<forall>x. low < x \<and> x \<le> p \<longrightarrow> a1 ! x \<le> a ! low" "\<forall>x. p < x \<and> x \<le> high \<longrightarrow> a ! low \<le> a1 ! x"
    using two_ends_inv [of low "low + 1" high high a] assms by auto
  have len: "length a1 = length a" and l: "a1 ! low = a ! low" using r(4) assms by (auto simp: perm_on_def)
  have n: "swap a1 low p ! x = (if x = low then a1 ! p else if x = p then a1 ! low else a1 ! x)" if "x \<le> high" for x
    using that r(2,3) assms len by (intro swap_nth) auto
  have "perm_on low (high + 1) a a1" using perm_on_mono [OF r(4), of low "high + 1"] by simp
  moreover have "perm_on low (high + 1) a1 (swap a1 low p)" using r(2,3) assms len by (intro perm_on_swap) auto
  ultimately have "perm_on low (high + 1) a (swap a1 low p)" using perm_on_trans by blast
  moreover have "swap a1 low p ! x \<le> swap a1 low p ! p" if "low \<le> x" "x < p" for x
    using n [of x] n [of p] r(2,3,5) l that by (auto simp: le_less)
  moreover have "swap a1 low p ! p \<le> swap a1 low p ! x" if "p < x" "x < high + 1" for x
    using n [of x] n [of p] r(2,3,6) l that by auto
  ultimately have "part_ok low (high + 1) a p (swap a1 low p)" using r(2,3) by (auto simp: part_ok_def)
  then show ?thesis using r(1) by (simp add: partition_ends_def)
qed

lemma scan_up_runs_off:
  "\<forall>x. i \<le> x \<and> x < length a \<longrightarrow> a ! x \<le> a ! low \<Longrightarrow> j + 1 = length a \<Longrightarrow> scan_up a low i j = None"
proof (induction a low i j rule: scan_up.induct)
  case (1 a low i j)
  then show ?case by (cases "i < length a") (auto simp: scan_up.simps [of a low i j])
qed

section \<open>Properties\<close>

text \<open>The three-way quicksort returns for every range within the array and every outcome of \<open>rand()\<close>, and sorts
  the range; the three-way partition puts the values below, equal to and above 1 in this order, so that it
  sorts an array of the values 0, 1 and 2.\<close>

theorem three_way_sorts:
  assumes "h \<le> length a" "l \<le> h"
  shows "(\<exists>a' k' c'. qsort3 rnd (a, k, cnt) l h = Some (a', k', c') \<and> perm_on l h a a' \<and> sorted_on l h a') \<and>
    (\<exists>a'. partition3 a l h = Some a' \<and> perm_on l h a a' \<and> ((\<forall>i. l \<le> i \<and> i < h \<longrightarrow> a ! i \<in> {0, 1, 2}) \<longrightarrow> sorted_on l h a'))"
proof
  show "\<exists>a' k' c'. qsort3 rnd (a, k, cnt) l h = Some (a', k', c') \<and> perm_on l h a a' \<and> sorted_on l h a'"
    by (rule qsort3_sorts [OF assms(1)])
  obtain p q a' where p: "part3 1 l l h a = (p, q, a')" by (metis prod_cases3)
  note c = part3_correct [OF assms(2,1) p]
  have "sorted_on l h a'" if v: "\<forall>i. l \<le> i \<and> i < h \<longrightarrow> a ! i \<in> {0, 1, 2}"
  proof -
    have w: "a' ! i \<in> {0, 1, 2}" if i: "l \<le> i" "i < h" for i
      using perm_on_from [OF c(4) assms(1) i] v by metis
    have e: "a' ! i = (if i < p then 0 else if i < q then 1 else 2)" if "l \<le> i" "i < h" for i
      using w [OF that] c(5-7) [rule_format, of i] that by (cases "i < p"; cases "i < q") auto
    show ?thesis unfolding sorted_on_def
    proof (intro allI impI)
      fix i j assume "l \<le> i \<and> i < j \<and> j < h"
      then show "a' ! i \<le> a' ! j" using e [of i] e [of j] c(2) by (auto split: if_splits)
    qed
  qed
  then show "\<exists>a'. partition3 a l h = Some a' \<and> perm_on l h a a' \<and> ((\<forall>i. l \<le> i \<and> i < h \<longrightarrow> a ! i \<in> {0, 1, 2}) \<longrightarrow> sorted_on l h a')"
    using p c(4) assms(1) by (simp add: partition3_def)
qed

theorem three_way_sorts_witness:
  "\<exists>a' k' c'. qsort3 (\<lambda>n. n) ([2, 0, 1, 0], 0, 0) 0 4 = Some (a', k', c') \<and> sorted_on 0 4 a' \<and> partition3 [2, 0, 1, 0] 0 4 \<noteq> None"
  using three_way_sorts [of 4 "[2, 0, 1, 0]" 0 "\<lambda>n. n" 0 0] by fastforce

text \<open>The two-pointer partition places the pivot correctly for every range that is followed by another element;
  for a range that ends the array and whose elements are all at most the pivot it reads past the end.\<close>

theorem partition_ends_bounds:
  assumes "low \<le> high" "high < length a"
  shows "(high + 1 < length a \<longrightarrow> (\<exists>p a'. partition_ends a low high = Some (p, a') \<and> part_ok low (high + 1) a p a')) \<and>
    (high + 1 = length a \<and> low < high \<and> (\<forall>x. low < x \<and> x \<le> high \<longrightarrow> a ! x \<le> a ! low) \<longrightarrow> partition_ends a low high = None)"
proof (intro conjI impI)
  assume "high + 1 < length a"
  then show "\<exists>p a'. partition_ends a low high = Some (p, a') \<and> part_ok low (high + 1) a p a'" using partition_ends_ok assms(1) by blast
next
  assume h: "high + 1 = length a \<and> low < high \<and> (\<forall>x. low < x \<and> x \<le> high \<longrightarrow> a ! x \<le> a ! low)"
  then have "scan_up a low (low + 1) high = None" by (intro scan_up_runs_off) auto
  then show "partition_ends a low high = None" using h by (simp add: partition_ends_def two_ends.simps [of low "Suc low" high a])
qed

theorem partition_ends_bounds_witness:
  "partition_ends [5, 3] 0 1 = None \<and> partition_ends [5, 3, 6] 0 1 \<noteq> None"
  using partition_ends_bounds [of 0 1 "[5, 3]"] partition_ends_bounds [of 0 1 "[5, 3, 6]"] by (auto simp: less_Suc_eq le_Suc_eq)

end
