(* ===== verification/Heapsort.thy ===== *)
theory Heapsort
  imports Sorting
begin

text \<open>
  Heapsort (\<open>sorting/heapsort.cpp\<close>): a binary heap in the first \<open>n\<close> elements of an array, the children of
  \<open>i\<close> at \<open>2 i + 1\<close> and \<open>2 i + 2\<close>.
\<close>

section \<open>The program\<close>

function sink :: "int list \<Rightarrow> nat \<Rightarrow> nat \<Rightarrow> int list" where
  "sink a i n =
     (if i < n then
        let lc = 2 * (i + 1) - 1; rc = 2 * (i + 1)
        in if lc \<ge> n then a
           else if rc \<ge> n then (if a ! i < a ! lc then swap a i lc else a)
           else let mi = (if a ! lc > a ! rc then lc else rc)
                in sink (if a ! i < a ! mi then swap a i mi else a) mi n
      else a)"
  by pat_completeness auto

termination
  by (relation "measure (\<lambda>(a, i, n). n - i)") (auto split: if_splits)

declare sink.simps [simp del]

text \<open>The loop of \<open>heap_make\<close> runs its index from \<open>k - 1\<close> down to 0.\<close>

primrec heap_make_from :: "nat \<Rightarrow> int list \<Rightarrow> nat \<Rightarrow> int list" where
  "heap_make_from 0 a n = a"
| "heap_make_from (Suc k) a n = heap_make_from k (sink a k n) n"

definition heap_make :: "int list \<Rightarrow> nat \<Rightarrow> int list" where
  "heap_make a n = heap_make_from (n div 2) a n"

definition heap_pop :: "int list \<Rightarrow> nat \<Rightarrow> int list" where
  "heap_pop a n = sink (swap a 0 (n - 1)) 0 (n - 1)"

text \<open>The calls \<open>heap_pop(a, n), ..., heap_pop(a, 1)\<close>.\<close>

primrec pop_all :: "nat \<Rightarrow> int list \<Rightarrow> int list" where
  "pop_all 0 a = a"
| "pop_all (Suc m) a = pop_all m (heap_pop a (Suc m))"

definition heapsort :: "int list \<Rightarrow> nat \<Rightarrow> int list option" where
  "heapsort a n = (if \<not> n \<le> length a then None else Some (pop_all n (heap_make a n)))"

section \<open>Heaps\<close>

definition child :: "nat \<Rightarrow> nat \<Rightarrow> bool" where
  "child j c = (c = 2 * j + 1 \<or> c = 2 * j + 2)"

text \<open>The heap order holds from \<open>k\<close> on, except possibly at \<open>i\<close>, whose parent is above its children.\<close>

definition heap_but :: "nat \<Rightarrow> nat \<Rightarrow> nat \<Rightarrow> int list \<Rightarrow> bool" where
  "heap_but k i n a =
     ((\<forall>j c. k \<le> j \<and> j \<noteq> i \<and> child j c \<and> c < n \<longrightarrow> a ! c \<le> a ! j) \<and>
      (\<forall>p c. k \<le> p \<and> child p i \<and> child i c \<and> c < n \<longrightarrow> a ! c \<le> a ! p))"

definition heap_from :: "nat \<Rightarrow> nat \<Rightarrow> int list \<Rightarrow> bool" where
  "heap_from k n a = (\<forall>j c. k \<le> j \<and> child j c \<and> c < n \<longrightarrow> a ! c \<le> a ! j)"

lemma child_less: "child j c \<Longrightarrow> j < c"
  by (auto simp: child_def)

lemma child_unique: "child j c \<Longrightarrow> child j' c \<Longrightarrow> j = j'"
  by (auto simp: child_def)

lemma heap_but_fix:
  "heap_but k i n a \<Longrightarrow> \<forall>c. child i c \<and> c < n \<longrightarrow> a ! c \<le> a ! i \<Longrightarrow> heap_from k n a"
  by (auto simp: heap_but_def heap_from_def)

lemma heap_from_but: "heap_from k n a \<Longrightarrow> k \<le> i \<Longrightarrow> i < n \<Longrightarrow> heap_but k i n a"
  unfolding heap_from_def heap_but_def by (meson child_less dual_order.trans less_imp_le less_trans)

lemma heap_but_swap:
  assumes "heap_but k i n a" "k \<le> i" "child i m" "m < n" "n \<le> length a" "a ! i < a ! m"
    "\<forall>c. child i c \<and> c < n \<longrightarrow> a ! c \<le> a ! m"
  shows "heap_but k m n (swap a i m)"
proof -
  have im: "i < m" using child_less [OF assms(3)] .
  have n: "swap a i m ! j = (if j = i then a ! m else if j = m then a ! i else a ! j)" if "j < n" for j
    using that im assms(4,5) by (intro swap_nth) auto
  have h: "a ! c \<le> a ! j" if "k \<le> j" "j \<noteq> i" "child j c" "c < n" for j c using assms(1) that by (auto simp: heap_but_def)
  have g: "a ! c \<le> a ! p" if "k \<le> p" "child p i" "child i c" "c < n" for p c using assms(1) that by (auto simp: heap_but_def)
  show ?thesis
    unfolding heap_but_def
  proof (intro conjI allI impI)
    fix j c assume j: "k \<le> j \<and> j \<noteq> m \<and> child j c \<and> c < n"
    then have jc: "j < c" "j < n" using child_less [of j c] by auto
    consider "j = i" | "j \<noteq> i" "c = i" | "j \<noteq> i" "c \<noteq> i" by blast
    then show "swap a i m ! c \<le> swap a i m ! j"
    proof cases
      case 1
      then show ?thesis using n [of c] n [of j] j jc assms(6,7) by auto
    next
      case 2
      then show ?thesis using n [of c] n [of j] j jc g [of j m] assms(3,4) im by auto
    next
      case 3
      then have "c \<noteq> m" using child_unique [OF assms(3), of j] j by auto
      then show ?thesis using 3 n [of c] n [of j] j jc h [of j c] by auto
    qed
  next
    fix p c assume p: "k \<le> p \<and> child p m \<and> child m c \<and> c < n"
    then have "p = i" using child_unique assms(3) by blast
    moreover have "c \<noteq> i" "c \<noteq> m" using p child_less [of m c] im by auto
    ultimately show "swap a i m ! c \<le> swap a i m ! p"
      using n [of c] n [of i] p h [of m c] im assms(2,4) by auto
  qed
qed

lemma sink_heap:
  assumes "heap_but k i n a" "k \<le> i" "n \<le> length a"
  shows "heap_from k n (sink a i n) \<and> perm_on 0 n a (sink a i n)"
  using assms
proof (induction a i n rule: sink.induct)
  case (1 a i n)
  show ?case
  proof (cases "2 * i + 1 < n")
    case False
    then have "sink a i n = a" by (simp add: sink.simps [of a i n] Let_def)
    moreover have "\<not> c < n" if "child i c" for c using that False by (auto simp: child_def)
    ultimately show ?thesis using heap_but_fix [OF "1.prems"(1)] by auto
  next
    case lc: True
    show ?thesis
    proof (cases "2 * i + 2 < n")
      case False
      then have one: "child i c \<and> c < n \<longleftrightarrow> c = 2 * i + 1" for c using lc by (auto simp: child_def)
      show ?thesis
      proof (cases "a ! i < a ! (2 * i + 1)")
        case True
        then have e: "sink a i n = swap a i (2 * i + 1)" using lc False by (simp add: sink.simps [of a i n] Let_def)
        have "heap_but k (2 * i + 1) n (swap a i (2 * i + 1))"
          using heap_but_swap [OF "1.prems"(1,2) _ lc "1.prems"(3) True] one by (auto simp: child_def)
        moreover have "\<not> c < n" if "child (2 * i + 1) c" for c using that False lc by (auto simp: child_def)
        ultimately have "heap_from k n (sink a i n)" unfolding e using heap_but_fix by blast
        then show ?thesis using lc "1.prems"(3) unfolding e by (auto intro: perm_on_swap)
      next
        case no: False
        then have "sink a i n = a" using lc False by (simp add: sink.simps [of a i n] Let_def)
        then show ?thesis using heap_but_fix [OF "1.prems"(1)] one no by (metis not_less perm_on_refl)
      qed
    next
      case rc: True
      define m where "m = (if a ! (2 * i + 1) > a ! (2 * i + 2) then 2 * i + 1 else 2 * i + 2)"
      define a1 where "a1 = (if a ! i < a ! m then swap a i m else a)"
      have m: "child i m" "m < n" "i < m" "\<forall>c. child i c \<and> c < n \<longrightarrow> a ! c \<le> a ! m"
        using lc rc by (auto simp: m_def child_def)
      have e: "sink a i n = sink a1 m n"
        using lc rc unfolding sink.simps [of a i n] by (simp add: Let_def a1_def m_def add.commute)
      have b: "heap_but k m n a1"
      proof (cases "a ! i < a ! m")
        case True
        then show ?thesis using heap_but_swap [OF "1.prems"(1,2) m(1,2) "1.prems"(3) True m(4)] by (simp add: a1_def)
      next
        case False
        then have "heap_from k n a" using heap_but_fix [OF "1.prems"(1)] m(4) by (meson not_less order_trans)
        then show ?thesis using False heap_from_but m(2,3) "1.prems"(2) by (simp add: a1_def)
      qed
      have p: "perm_on 0 n a a1" using m(2,3) "1.prems"(3) by (auto simp: a1_def intro: perm_on_swap)
      have "heap_from k n (sink a1 m n) \<and> perm_on 0 n a1 (sink a1 m n)"
        using "1.IH" [OF _ refl refl _ _ _ _ _ _] b m(3) "1.prems"(2,3) p lc rc
        by (auto simp: a1_def m_def perm_on_def)
      then show ?thesis unfolding e using p perm_on_trans by blast
    qed
  qed
qed

lemma heap_make_heap:
  "heap_from k n a \<Longrightarrow> n \<le> length a \<Longrightarrow> k \<le> n \<Longrightarrow> heap_from 0 n (heap_make_from k a n) \<and> perm_on 0 n a (heap_make_from k a n)"
proof (induction k arbitrary: a)
  case (Suc k)
  have "heap_but k k n a"
    unfolding heap_but_def
  proof (intro conjI allI impI)
    fix j c assume "k \<le> j \<and> j \<noteq> k \<and> child j c \<and> c < n"
    then show "a ! c \<le> a ! j" using Suc.prems(1) by (auto simp: heap_from_def)
  next
    fix p c assume "k \<le> p \<and> child p k \<and> child k c \<and> c < n"
    then show "a ! c \<le> a ! p" using child_less [of p k] by auto
  qed
  from sink_heap [OF this order_refl Suc.prems(2)]
  have s: "heap_from k n (sink a k n)" "perm_on 0 n a (sink a k n)" by auto
  then show ?case using Suc.IH [OF s(1)] Suc.prems by (auto simp: perm_on_def)
qed simp

lemma heap_top:
  assumes "heap_from 0 n a"
  shows "j < n \<Longrightarrow> a ! j \<le> a ! 0"
proof (induction j rule: less_induct)
  case (less j)
  show ?case
  proof (cases "j = 0")
    case False
    let ?p = "(j - 1) div 2"
    have c: "child ?p j" using False unfolding child_def by presburger
    then have "a ! j \<le> a ! ?p" using assms less.prems by (auto simp: heap_from_def)
    also have "\<dots> \<le> a ! 0" using less.IH [of ?p] child_less [OF c] less.prems by auto
    finally show ?thesis .
  qed simp
qed

definition popping :: "nat \<Rightarrow> nat \<Rightarrow> int list \<Rightarrow> int list \<Rightarrow> bool" where
  "popping m n a0 a =
     (heap_from 0 m a \<and> perm_on 0 n a0 a \<and> sorted_on m n a \<and> m \<le> n \<and> n \<le> length a \<and> (\<forall>i j. i < m \<and> m \<le> j \<and> j < n \<longrightarrow> a ! i \<le> a ! j))"

lemma popping_step:
  assumes "popping (Suc m) n a0 a"
  shows "popping m n a0 (heap_pop a (Suc m))"
proof -
  have i: "heap_from 0 (Suc m) a" "perm_on 0 n a0 a" "sorted_on (Suc m) n a" "Suc m \<le> n" "n \<le> length a"
      "\<And>i j. i < Suc m \<Longrightarrow> Suc m \<le> j \<Longrightarrow> j < n \<Longrightarrow> a ! i \<le> a ! j"
    using assms by (auto simp: popping_def)
  let ?a1 = "swap a 0 m"
  have n: "?a1 ! j = (if j = 0 then a ! m else if j = m then a ! 0 else a ! j)" if "j < length a" for j
    using that i(4,5) by (intro swap_nth) auto
  have "heap_but 0 0 m ?a1"
    unfolding heap_but_def
  proof (intro conjI allI impI)
    fix j c assume j: "0 \<le> j \<and> j \<noteq> 0 \<and> child j c \<and> c < m"
    then have "j < c" using child_less by auto
    then show "?a1 ! c \<le> ?a1 ! j" using j i(1,4,5) n [of c] n [of j] by (auto simp: heap_from_def)
  next
    fix p c assume "0 \<le> p \<and> child p 0 \<and> child 0 c \<and> c < m"
    then show "?a1 ! c \<le> ?a1 ! p" by (auto simp: child_def)
  qed
  then have s: "heap_from 0 m (sink ?a1 0 m)" "perm_on 0 m ?a1 (sink ?a1 0 m)"
    using sink_heap [of 0 0 m ?a1] i(4,5) by auto
  let ?a2 = "sink ?a1 0 m"
  have e: "heap_pop a (Suc m) = ?a2" by (simp add: heap_pop_def)
  have out: "?a2 ! j = (if j = m then a ! 0 else a ! j)" if "m \<le> j" "j < n" for j
    using that s(2) n [of j] i(4,5) by (auto simp: perm_on_def)
  have in_range: "\<exists>x \<le> m. ?a2 ! j = a ! x" if j: "j < m" for j
  proof -
    obtain x where x: "x < m" "?a2 ! j = ?a1 ! x" using perm_on_from [OF s(2) _ _ j] i(4,5) by auto
    have "?a1 ! x = a ! (if x = 0 then m else x)" using n [of x] x(1) i(4,5) by auto
    then show ?thesis using x by (intro exI [of _ "if x = 0 then m else x"]) auto
  qed
  have "perm_on 0 n a ?a1" using i(4,5) by (intro perm_on_swap) auto
  moreover have "perm_on 0 n ?a1 ?a2" using perm_on_mono [OF s(2), of 0 n] i(4) by simp
  ultimately have "perm_on 0 n a0 ?a2" using i(2) perm_on_trans by blast
  moreover have "sorted_on m n ?a2"
    unfolding sorted_on_def
  proof (intro allI impI)
    fix x y assume "m \<le> x \<and> x < y \<and> y < n"
    then show "?a2 ! x \<le> ?a2 ! y" using out [of x] out [of y] i(3) i(6) [of 0 y] by (auto simp: sorted_on_def)
  qed
  moreover have "?a2 ! x \<le> ?a2 ! y" if xy: "x < m" "m \<le> y" "y < n" for x y
  proof -
    obtain z where "z \<le> m" "?a2 ! x = a ! z" using in_range [OF xy(1)] by auto
    then show ?thesis using heap_top [OF i(1), of z] out [of y] i(6) [of z y] xy by auto
  qed
  moreover have "length ?a2 = length a" using s(2) by (simp add: perm_on_def)
  ultimately show ?thesis unfolding e using s(1) i(4,5) by (auto simp: popping_def)
qed

lemma pop_all_popping: "popping m n a0 a \<Longrightarrow> popping 0 n a0 (pop_all m a)"
  by (induction m arbitrary: a) (auto dest: popping_step)

text \<open>C26: For every array and every \<open>n\<close> up to its length, heapsort rearranges only the first \<open>n\<close> elements and leaves
  them sorted; on the whole array it computes the sorted array.\<close>

theorem heapsort_sorts:
  assumes "n \<le> length a"
  shows "\<exists>a'. heapsort a n = Some a' \<and> perm_on 0 n a a' \<and> sorted_on 0 n a' \<and> (n = length a \<longrightarrow> a' = sort a)"
proof -
  have "heap_from (n div 2) n a" by (auto simp: heap_from_def child_def)
  then have m: "heap_from 0 n (heap_make a n)" "perm_on 0 n a (heap_make a n)"
    unfolding heap_make_def using heap_make_heap [of "n div 2" n a] assms by auto
  have "popping n n a (heap_make a n)" using m assms by (auto simp: popping_def sorted_on_def perm_on_def)
  from pop_all_popping [OF this] show ?thesis
    using assms perm_on_sorted_unique [of a "pop_all n (heap_make a n)"] by (auto simp: heapsort_def popping_def)
qed

theorem heapsort_sorts_witness: "heapsort [3, 1, 4, 1, 5] 5 = Some [1, 1, 3, 4, 5]"
  using heapsort_sorts [of 5 "[3, 1, 4, 1, 5]"] by auto

end
