(* ===== verification/Count_Sort.thy ===== *)
theory Count_Sort
  imports Prelude "HOL-Library.Multiset" "HOL-Library.Monad_Syntax"
begin

text \<open>
  The two counting sorts of students by section (\<open>sorting/count_sort.cpp\<close>, \<open>sorting/count_sort2.cpp\<close>).
  The result array starts uninitialised, which is \<open>None\<close> for each element; \<open>None\<close> as a result is an
  access outside one of the arrays of four counters or outside the result array.
\<close>

section \<open>The programs\<close>

record student =
  st_name :: string
  section_no :: int

definition key :: "student \<Rightarrow> nat option" where
  "key x = (let k = section_no x - 1 in if 0 \<le> k \<and> k < 4 then Some (nat k) else None)"

primrec count_loop :: "student list \<Rightarrow> nat list \<Rightarrow> nat list option" where
  "count_loop [] cnt = Some cnt"
| "count_loop (x # xs) cnt = do { k \<leftarrow> key x; count_loop xs (cnt[k := cnt ! k + 1]) }"

text \<open>\<open>for(int i=1; i<4; i++) key2index[i] = key2index[i-1] + key2count[i-1];\<close>\<close>

definition index_loop :: "nat list \<Rightarrow> nat list" where
  "index_loop cnt = foldl (\<lambda>idx i. idx[i := idx ! (i - 1) + cnt ! (i - 1)]) [0, 0, 0, 0] [1, 2, 3]"

primrec place_loop :: "student list \<Rightarrow> nat list \<Rightarrow> student option list \<Rightarrow> student option list option" where
  "place_loop [] idx out = Some out"
| "place_loop (x # xs) idx out = do {
     k \<leftarrow> key x;
     let new_index = idx ! k;
     if \<not> new_index < length out then None
     else place_loop xs (idx[k := idx ! k + 1]) (out[new_index := Some x]) }"

definition count_sort :: "student list \<Rightarrow> student option list option" where
  "count_sort arr = do {
     cnt \<leftarrow> count_loop arr [0, 0, 0, 0];
     place_loop arr (index_loop cnt) (replicate (length arr) None) }"

definition sum_loop :: "nat list \<Rightarrow> nat list" where
  "sum_loop cnt = foldl (\<lambda>c i. c[i := c ! i + c ! (i - 1)]) cnt [1, 2, 3]"

primrec place_loop2 :: "student list \<Rightarrow> nat list \<Rightarrow> student option list \<Rightarrow> student option list option" where
  "place_loop2 [] cnt out = Some out"
| "place_loop2 (x # xs) cnt out = do {
     k \<leftarrow> key x;
     let new_index = cnt ! k;
     if new_index = 0 \<or> \<not> new_index - 1 < length out then None
     else place_loop2 xs (cnt[k := cnt ! k - 1]) (out[new_index - 1 := Some x]) }"

definition count_sort2 :: "student list \<Rightarrow> student option list option" where
  "count_sort2 arr = do {
     cnt \<leftarrow> count_loop arr [0, 0, 0, 0];
     place_loop2 arr (sum_loop cnt) (replicate (length arr) None) }"

section \<open>What they compute\<close>

abbreviation of_key :: "nat \<Rightarrow> student list \<Rightarrow> student list" where
  "of_key k xs \<equiv> filter (\<lambda>x. key x = Some k) xs"

abbreviation num :: "nat \<Rightarrow> student list \<Rightarrow> nat" where
  "num k xs \<equiv> length (of_key k xs)"

lemma key_cases: "key x = Some k \<Longrightarrow> k = 0 \<or> k = 1 \<or> k = 2 \<or> k = 3"
  by (auto simp: key_def Let_def split: if_splits)

lemma count_loop_counts:
  "\<forall>x\<in>set xs. key x \<noteq> None \<Longrightarrow>
   count_loop xs [a, b, c, d] = Some [a + num 0 xs, b + num 1 xs, c + num 2 xs, d + num 3 xs]"
proof (induction xs arbitrary: a b c d)
  case (Cons x xs)
  obtain k where k: "key x = Some k" using Cons.prems by auto
  from key_cases [OF k] k Cons show ?case by (elim disjE) (simp_all add: numeral_eq_Suc)
qed simp

lemma length_num: "\<forall>x\<in>set xs. key x \<noteq> None \<Longrightarrow> length xs = num 0 xs + num 1 xs + num 2 xs + num 3 xs"
proof (induction xs)
  case (Cons x xs)
  obtain k where k: "key x = Some k" using Cons.prems by auto
  from key_cases [OF k] k Cons show ?case by (elim disjE) simp_all
qed simp

abbreviation gap :: "nat \<Rightarrow> student list \<Rightarrow> student option list" where
  "gap k xs \<equiv> replicate (num k xs) None"

lemma place_loop_fills:
  assumes "\<forall>x\<in>set xs. key x \<noteq> None"
  shows "place_loop xs [length A, length A + num 0 xs + length B, length A + num 0 xs + length B + num 1 xs + length C,
        length A + num 0 xs + length B + num 1 xs + length C + num 2 xs + length D]
      (A @ gap 0 xs @ B @ gap 1 xs @ C @ gap 2 xs @ D @ gap 3 xs) =
    Some (A @ map Some (of_key 0 xs) @ B @ map Some (of_key 1 xs) @ C @ map Some (of_key 2 xs) @ D @ map Some (of_key 3 xs))"
  using assms
proof (induction xs arbitrary: A B C D)
  case (Cons x xs)
  obtain k where k: "key x = Some k" using Cons.prems by auto
  note IH = Cons.IH
  from key_cases [OF k] show ?case
  proof (elim disjE)
    assume "k = 0"
    then show ?thesis using IH [of "A @ [Some x]" B C D] Cons.prems k by (simp add: list_update_append)
  next
    assume "k = 1"
    then show ?thesis using IH [of A "B @ [Some x]" C D] Cons.prems k by (simp add: list_update_append)
  next
    assume "k = 2"
    then show ?thesis using IH [of A B "C @ [Some x]" D] Cons.prems k by (simp add: list_update_append numeral_eq_Suc)
  next
    assume "k = 3"
    then show ?thesis using IH [of A B C "D @ [Some x]"] Cons.prems k by (simp add: list_update_append numeral_eq_Suc)
  qed
qed simp

lemma gap_last: "replicate (Suc n) None @ ys = replicate n None @ None # ys"
  by (simp add: replicate_app_Cons_same)

lemma place_loop2_fills:
  assumes "\<forall>x\<in>set xs. key x \<noteq> None"
  shows "place_loop2 xs [num 0 xs, num 0 xs + length A + num 1 xs, num 0 xs + length A + num 1 xs + length B + num 2 xs,
        num 0 xs + length A + num 1 xs + length B + num 2 xs + length C + num 3 xs]
      (gap 0 xs @ A @ gap 1 xs @ B @ gap 2 xs @ C @ gap 3 xs @ D) =
    Some (map Some (rev (of_key 0 xs)) @ A @ map Some (rev (of_key 1 xs)) @ B @ map Some (rev (of_key 2 xs)) @ C @ map Some (rev (of_key 3 xs)) @ D)"
  using assms
proof (induction xs arbitrary: A B C D)
  case (Cons x xs)
  obtain k where k: "key x = Some k" using Cons.prems by auto
  note IH = Cons.IH
  from key_cases [OF k] show ?case
  proof (elim disjE)
    assume "k = 0"
    then show ?thesis using IH [of "Some x # A" B C D] Cons.prems k
      by (simp add: list_update_append gap_last del: replicate_Suc)
  next
    assume "k = 1"
    then show ?thesis using IH [of A "Some x # B" C D] Cons.prems k
      by (simp add: list_update_append gap_last del: replicate_Suc)
  next
    assume "k = 2"
    then show ?thesis using IH [of A B "Some x # C" D] Cons.prems k
      by (simp add: list_update_append gap_last numeral_eq_Suc del: replicate_Suc)
  next
    assume "k = 3"
    then show ?thesis using IH [of A B C "Some x # D"] Cons.prems k
      by (simp add: list_update_append gap_last numeral_eq_Suc del: replicate_Suc)
  qed
qed simp

lemma gaps: "\<forall>x\<in>set xs. key x \<noteq> None \<Longrightarrow> replicate (length xs) None = gap 0 xs @ gap 1 xs @ gap 2 xs @ gap 3 xs"
  using length_num [of xs] by (simp add: replicate_add)

lemma key_section: "key x = Some k \<longleftrightarrow> k < 4 \<and> section_no x = int k + 1"
  by (auto simp: key_def Let_def)

abbreviation in_section :: "int \<Rightarrow> student list \<Rightarrow> student list" where
  "in_section n xs \<equiv> filter (\<lambda>x. section_no x = n) xs"

lemma of_key_section: "k < 4 \<Longrightarrow> of_key k xs = in_section (int k + 1) xs"
  by (simp add: key_section)

text \<open>C28: With sections from 1 to 4 both programs fill the whole result array without an access outside their
  arrays and put the sections in order; the first keeps the students of a section in their order, the
  second reverses them.  A student with another section is counted outside the array.\<close>

theorem count_sorts_order:
  "if \<forall>x\<in>set arr. 1 \<le> section_no x \<and> section_no x \<le> 4
   then count_sort arr = Some (map Some (in_section 1 arr @ in_section 2 arr @ in_section 3 arr @ in_section 4 arr)) \<and>
     count_sort2 arr = Some (map Some (rev (in_section 1 arr) @ rev (in_section 2 arr) @ rev (in_section 3 arr) @ rev (in_section 4 arr)))
   else count_sort arr = None \<and> count_sort2 arr = None"
proof (cases "\<forall>x\<in>set arr. 1 \<le> section_no x \<and> section_no x \<le> 4")
  case True
  then have k: "\<forall>x\<in>set arr. key x \<noteq> None" by (auto simp: key_def Let_def)
  have c: "count_loop arr [0, 0, 0, 0] = Some [num 0 arr, num 1 arr, num 2 arr, num 3 arr]" using count_loop_counts [OF k, of 0 0 0 0] by simp
  have i: "index_loop [p, q, r, t] = [0, p, p + q, p + q + r]" for p q r t
    by (simp add: index_loop_def numeral_eq_Suc)
  have u: "sum_loop [p, q, r, t] = [p, p + q, p + q + r, p + q + r + t]" for p q r t
    by (simp add: sum_loop_def numeral_eq_Suc add.commute add.left_commute)
  have "count_sort arr = Some (map Some (of_key 0 arr @ of_key 1 arr @ of_key 2 arr @ of_key 3 arr))"
    using place_loop_fills [OF k, of "[]" "[]" "[]" "[]"] by (simp add: count_sort_def c i gaps [OF k])
  moreover have "count_sort2 arr = Some (map Some (rev (of_key 0 arr) @ rev (of_key 1 arr) @ rev (of_key 2 arr) @ rev (of_key 3 arr)))"
    using place_loop2_fills [OF k, of "[]" "[]" "[]" "[]"] by (simp add: count_sort2_def c u gaps [OF k])
  ultimately show ?thesis using True by (simp add: of_key_section)
next
  case False
  have "count_loop xs cnt = None" if "\<exists>x\<in>set xs. key x = None" for xs cnt
    using that by (induction xs arbitrary: cnt) (auto split: bind_splits)
  moreover have "key x = None" if "\<not> (1 \<le> section_no x \<and> section_no x \<le> 4)" for x using that by (auto simp: key_def Let_def)
  then have "\<exists>x\<in>set arr. key x = None" using False by blast
  ultimately have "count_loop arr cnt = None" for cnt by blast
  then have "count_sort arr = None" "count_sort2 arr = None" by (simp_all add: count_sort_def count_sort2_def)
  then show ?thesis using False by (simp only: if_False)
qed

theorem count_sorts_order_witness:
  "count_sort [\<lparr> st_name = ''a'', section_no = 2 \<rparr>, \<lparr> st_name = ''b'', section_no = 1 \<rparr>, \<lparr> st_name = ''c'', section_no = 2 \<rparr>] =
     Some (map Some [\<lparr> st_name = ''b'', section_no = 1 \<rparr>, \<lparr> st_name = ''a'', section_no = 2 \<rparr>, \<lparr> st_name = ''c'', section_no = 2 \<rparr>])"
  using count_sorts_order [of "[\<lparr> st_name = ''a'', section_no = 2 \<rparr>, \<lparr> st_name = ''b'', section_no = 1 \<rparr>, \<lparr> st_name = ''c'', section_no = 2 \<rparr>]"]
  by simp

end
