(* ===== verification/Kmp.thy ===== *)
theory Kmp
  imports Prelude "HOL-Library.Sublist" "HOL-Library.Monad_Syntax"
begin

text \<open>
  String search with the automaton of Knuth, Morris and Pratt (\<open>string_match/kmp_dfa.cpp\<close>).  The table has
  a row for each character and a column for each position of the pattern.  A \<open>char\<close> is signed: one above
  127 is a negative index.  \<open>None\<close> is an access outside the table.
\<close>

section \<open>The program\<close>

type_synonym dfa = "char \<Rightarrow> nat list"

definition ascii :: "char \<Rightarrow> bool" where
  "ascii c = ((of_char c :: nat) < 128)"

function dfa_loop :: "string \<Rightarrow> nat \<Rightarrow> nat \<Rightarrow> dfa \<Rightarrow> dfa" where
  "dfa_loop p X j dfa =
     (if j < length p then
        let dfa = (\<lambda>c. (dfa c)[j := dfa c ! X]);
            dfa = dfa(p ! j := (dfa (p ! j))[j := j + 1]);
            X = dfa (p ! j) ! X
        in dfa_loop p X (j + 1) dfa
      else dfa)"
  by pat_completeness auto

termination
  by (relation "measure (\<lambda>(p, X, j, dfa). length p - j)") auto

declare dfa_loop.simps [simp del]

definition build_dfa :: "string \<Rightarrow> dfa option" where
  "build_dfa p =
     (if p = [] \<or> \<not> list_all ascii p then None
      else let dfa = (\<lambda>_. replicate (length p) 0);
               dfa = dfa(p ! 0 := (dfa (p ! 0))[0 := 1])
           in Some (dfa_loop p 0 1 dfa))"

text \<open>The positions that are printed; \<open>i\<close> is the index of the next character of the text.\<close>

fun search_loop :: "string \<Rightarrow> dfa \<Rightarrow> nat \<Rightarrow> nat \<Rightarrow> string \<Rightarrow> nat list option" where
  "search_loop p dfa i j [] = Some []"
| "search_loop p dfa i j (c # text) =
     (if \<not> ascii c then None
      else let j = dfa c ! j
           in if j = length p then map_option (\<lambda>ms. (i + 1 - length p) # ms) (search_loop p dfa (i + 1) 0 text)
              else search_loop p dfa (i + 1) j text)"

definition search :: "string \<Rightarrow> string \<Rightarrow> nat list option" where
  "search text p = do { dfa \<leftarrow> build_dfa p; search_loop p dfa 0 0 text }"

section \<open>The longest prefix that is a suffix\<close>

definition border :: "string \<Rightarrow> string \<Rightarrow> nat \<Rightarrow> bool" where
  "border p s k = (k \<le> length p \<and> suffix (take k p) s)"

definition longest :: "string \<Rightarrow> string \<Rightarrow> nat \<Rightarrow> bool" where
  "longest p s k = (border p s k \<and> (\<forall>k'. border p s k' \<longrightarrow> k' \<le> k))"

lemma longest_unique: "longest p s k \<Longrightarrow> longest p s k' \<Longrightarrow> k = k'"
  by (auto simp: longest_def intro: le_antisym)

lemma border_0 [simp]: "border p s 0"
  by (simp add: border_def)

lemma border_length: "border p s k \<Longrightarrow> k \<le> length s"
  by (auto simp: border_def dest: suffix_length_le)

lemma border_snoc: "border p (s @ [c]) (Suc k) \<longleftrightarrow> k < length p \<and> border p s k \<and> p ! k = c"
  by (auto simp: border_def take_Suc_conv_app_nth suffix_snoc)

text \<open>A prefix that is a suffix of \<open>s\<close> is one of the longest such prefix.\<close>

lemma border_trans:
  assumes "longest p s k" "border p s i"
  shows "border p (take k p) i"
proof -
  have i: "i \<le> k" "i \<le> length p" "k \<le> length p" "suffix (take i p) s" "suffix (take k p) s"
    using assms by (auto simp: longest_def border_def)
  then have "suffix (take i p) (take k p)" using suffix_length_suffix [OF i(4,5)] by simp
  then show ?thesis using i by (simp add: border_def)
qed

lemma border_up: "border p s k \<Longrightarrow> border p (take k p) i \<Longrightarrow> border p s i"
  by (auto simp: border_def intro: suffix_order.trans)

lemma longest_snoc:
  assumes "longest p s k" "longest p (take k p @ [c]) m"
  shows "longest p (s @ [c]) m"
proof -
  have b: "border p (s @ [c]) i \<longleftrightarrow> border p (take k p @ [c]) i" for i
  proof (cases i)
    case (Suc n)
    have "border p s k" using assms(1) by (simp add: longest_def)
    then have "border p s n \<longleftrightarrow> border p (take k p) n"
      using border_trans [OF assms(1), of n] border_up [of p s k n] by blast
    then show ?thesis by (simp add: Suc border_snoc)
  qed simp
  then show ?thesis using assms(2) by (simp add: longest_def)
qed

lemma longest_match: "k < length p \<Longrightarrow> longest p (take k p @ [p ! k]) (Suc k)"
  using border_length [of p "take k p @ [p ! k]"] by (auto simp: longest_def border_def take_Suc_conv_app_nth)

text \<open>On a mismatch the first character of what was read does not matter.\<close>

lemma longest_mismatch:
  assumes "k < length p" "p ! k \<noteq> c" "0 < k" "longest p (tl (take k p) @ [c]) m"
  shows "longest p (take k p @ [c]) m"
proof -
  have b: "border p (take k p @ [c]) i \<longleftrightarrow> border p (tl (take k p) @ [c]) i" for i
  proof (cases i)
    case (Suc n)
    have ne: "take k p = hd (take k p) # tl (take k p)" using assms(1,3) by (cases "take k p") auto
    have len: "length (tl (take k p)) = k - 1" using assms(1) by simp
    have "border p (take k p) n \<and> p ! n = c \<longleftrightarrow> border p (tl (take k p)) n \<and> p ! n = c"
    proof
      assume a: "border p (take k p) n \<and> p ! n = c"
      then have "n \<le> k" using border_length [of p "take k p" n] assms(1) by simp
      then have "n < k" using a assms(2) by (cases "n = k") auto
      moreover have "suffix (take n p) (hd (take k p) # tl (take k p))" using a ne by (simp add: border_def)
      ultimately have "suffix (take n p) (tl (take k p))"
        using assms(1) len by (auto simp: suffix_Cons dest!: arg_cong [of _ _ length])
      then show "border p (tl (take k p)) n \<and> p ! n = c" using a by (simp add: border_def)
    next
      assume "border p (tl (take k p)) n \<and> p ! n = c"
      then show "border p (take k p) n \<and> p ! n = c" using ne by (metis border_def suffix_ConsI)
    qed
    then show ?thesis by (auto simp: Suc border_snoc)
  qed simp
  then show ?thesis using assms(4) by (simp add: longest_def)
qed

section \<open>The table\<close>

text \<open>The columns below \<open>j\<close> are right, and \<open>X\<close> is the state after the pattern without its first character.\<close>

definition dfa_ok :: "string \<Rightarrow> nat \<Rightarrow> dfa \<Rightarrow> bool" where
  "dfa_ok p j dfa = (\<forall>c. length (dfa c) = length p \<and> (\<forall>k < j. longest p (take k p @ [c]) (dfa c ! k)))"

lemma dfa_loop_ok:
  assumes "dfa_ok p j dfa" "longest p (tl (take j p)) X" "0 < j" "j \<le> length p"
  shows "dfa_ok p (length p) (dfa_loop p X j dfa)"
  using assms
proof (induction p X j dfa rule: dfa_loop.induct)
  case (1 p X j dfa)
  show ?case
  proof (cases "j < length p")
    case False
    then have "dfa_loop p X j dfa = dfa" by (simp add: dfa_loop.simps [of p X j dfa])
    then show ?thesis using "1.prems" False by simp
  next
    case True
    define d1 where "d1 = (\<lambda>c. (dfa c)[j := dfa c ! X])"
    define d2 where "d2 = d1(p ! j := (d1 (p ! j))[j := j + 1])"
    have len: "length (dfa c) = length p" for c using "1.prems"(1) by (simp add: dfa_ok_def)
    have X: "X < j" using border_length [of p "tl (take j p)" X] "1.prems"(2-4) by (auto simp: longest_def)
    have old: "d2 c ! k = dfa c ! k" if "k < j" for c k using that by (simp add: d2_def d1_def)
    have right: "longest p (take k p @ [c]) (dfa c ! k)" if "k < j" for c k using "1.prems"(1) that by (simp add: dfa_ok_def)
    have Xc: "longest p (tl (take j p) @ [c]) (dfa c ! X)" for c by (rule longest_snoc [OF "1.prems"(2) right [OF X]])
    have col: "longest p (take j p @ [c]) (d2 c ! j)" for c
    proof (cases "c = p ! j")
      case c: True
      then show ?thesis using longest_match [OF True] True len by (simp add: d2_def d1_def)
    next
      case c: False
      then have "d2 c ! j = dfa c ! X" using True len by (simp add: d2_def d1_def)
      then show ?thesis using longest_mismatch [OF True _ "1.prems"(3) Xc [of c]] c by auto
    qed
    have ok: "dfa_ok p (j + 1) d2"
      unfolding dfa_ok_def using col old right len by (auto simp: d2_def d1_def less_Suc_eq)
    have "tl (take (j + 1) p) = tl (take j p) @ [p ! j]"
      using True "1.prems"(3) by (simp add: take_Suc_conv_app_nth) (metis list.size(3) length_take min.absorb2 "1.prems"(4) not_less_zero tl_append2)
    then have nx: "longest p (tl (take (j + 1) p)) (d2 (p ! j) ! X)" using Xc [of "p ! j"] old [OF X] by simp
    have "dfa_loop p X j dfa = dfa_loop p (d2 (p ! j) ! X) (j + 1) d2"
      using True by (simp add: dfa_loop.simps [of p X j dfa] d2_def d1_def Let_def)
    then show ?thesis using "1.IH" [OF True d1_def d2_def refl ok nx] True by simp
  qed
qed

lemma border_single:
  assumes "p \<noteq> []"
  shows "border p [c] k \<longleftrightarrow> k = 0 \<or> k = 1 \<and> p ! 0 = c"
proof (cases k)
  case (Suc n)
  have "border p [] n \<longleftrightarrow> n = 0" using border_length [of p "[]" n] by auto
  then show ?thesis using border_snoc [of p "[]" c n] assms Suc by auto
qed simp

lemma build_dfa_ok:
  assumes "p \<noteq> []" "list_all ascii p"
  shows "\<exists>dfa. build_dfa p = Some dfa \<and> dfa_ok p (length p) dfa"
proof -
  define d0 where "d0 = (\<lambda>_ :: char. replicate (length p) (0 :: nat))(p ! 0 := (replicate (length p) 0)[0 := 1])"
  have pos: "0 < length p" using assms(1) by simp
  have "longest p [c] (d0 c ! 0)" for c
    using pos border_single [OF assms(1), of c] by (auto simp: longest_def d0_def)
  then have "dfa_ok p 1 d0" by (auto simp: dfa_ok_def d0_def)
  moreover have "longest p (tl (take 1 p)) 0" using assms(1) border_length [of p "[]"] by (cases p) (auto simp: longest_def)
  ultimately have "dfa_ok p (length p) (dfa_loop p 0 1 d0)" using pos by (intro dfa_loop_ok) (auto simp: Suc_le_eq)
  then show ?thesis using assms by (simp add: build_dfa_def d0_def Let_def)
qed

section \<open>The search\<close>

text \<open>The reference: compare the pattern with the str at each position, and go on after an occurrence.\<close>

function naive_search :: "string \<Rightarrow> string \<Rightarrow> nat \<Rightarrow> nat list" where
  "naive_search p str pos =
     (if p = [] \<or> length str < length p then []
      else if take (length p) str = p then pos # naive_search p (drop (length p) str) (pos + length p)
      else naive_search p (tl str) (pos + 1))"
  by pat_completeness auto

termination
proof (relation "measure (\<lambda>(p, str, pos). length str)", goal_cases)
  case 1
  then show ?case by simp
next
  case (2 p str pos)
  then show ?case by (cases p) auto
next
  case (3 p str pos)
  then have "0 < length str" by (cases p) auto
  then show ?case by simp
qed

declare naive_search.simps [simp del]

definition occurs_at :: "string \<Rightarrow> string \<Rightarrow> nat \<Rightarrow> bool" where
  "occurs_at p str i = (i + length p \<le> length str \<and> take (length p) (drop i str) = p)"

lemma occurs_prefix: "occurs_at p (u @ w) x \<Longrightarrow> x + length p \<le> length u \<Longrightarrow> occurs_at p u x"
  by (simp add: occurs_at_def)

lemma naive_short: "length str < length p \<Longrightarrow> naive_search p str pos = []"
  by (simp add: naive_search.simps [of p str pos])

lemma naive_skip:
  assumes "p \<noteq> []" "\<forall>i < k. \<not> occurs_at p str i" "k \<le> length str"
  shows "naive_search p str pos = naive_search p (drop k str) (pos + k)"
  using assms
proof (induction k arbitrary: str pos)
  case (Suc k)
  obtain c t where t: "str = c # t" using Suc.prems(3) by (cases str) auto
  have n: "\<not> occurs_at p str 0" using Suc.prems(2) by simp
  have "\<forall>i < k. \<not> occurs_at p t i"
  proof (intro allI impI)
    fix i assume "i < k"
    then have "\<not> occurs_at p str (Suc i)" using Suc.prems(2) by simp
    then show "\<not> occurs_at p t i" by (simp add: occurs_at_def t)
  qed
  then have IH: "naive_search p t (pos + 1) = naive_search p (drop k t) (pos + 1 + k)" using Suc.IH [of t "pos + 1"] Suc.prems t by simp
  show ?case
  proof (cases "length str < length p")
    case True
    then show ?thesis using naive_short [of str p] naive_short [of "drop (Suc k) str" p] by simp
  next
    case False
    then show ?thesis using n IH t Suc.prems(1) by (simp add: naive_search.simps [of p "c # t" pos] occurs_at_def)
  qed
qed simp

lemma naive_none: "p \<noteq> [] \<Longrightarrow> \<forall>i. \<not> occurs_at p str i \<Longrightarrow> naive_search p str pos = []"
  using naive_skip [of p "length str" str pos] naive_short [of "[]" p "pos + length str"] by simp

lemma longest_full:
  assumes l: "longest p s k"
  shows "k = length p \<longleftrightarrow> suffix p s"
proof -
  from l have k: "k \<le> length p" "suffix (take k p) s" by (auto simp: longest_def border_def)
  have "suffix p s \<Longrightarrow> length p \<le> k" using l by (simp add: longest_def border_def)
  then show ?thesis using k by auto
qed

lemma search_loop_naive:
  assumes "dfa_ok p (length p) dfa" "p \<noteq> []" "longest p u j" "\<forall>i. \<not> occurs_at p u i" "list_all ascii str" "i = pos + length u"
  shows "search_loop p dfa i j str = Some (naive_search p (u @ str) pos)"
  using assms(3-6)
proof (induction str arbitrary: u j i pos)
  case Nil
  then show ?case using naive_none [OF assms(2)] by simp
next
  case (Cons c str)
  have "\<not> suffix p u"
  proof
    assume "suffix p u"
    then obtain v where "u = v @ p" by (auto simp: suffix_def)
    then have "occurs_at p u (length v)" by (simp add: occurs_at_def)
    then show False using Cons.prems(2) by blast
  qed
  then have j: "j < length p" using longest_full [OF Cons.prems(1)] Cons.prems(1) by (auto simp: longest_def border_def)
  then have n: "longest p (u @ [c]) (dfa c ! j)" using assms(1) longest_snoc [OF Cons.prems(1)] by (simp add: dfa_ok_def)
  have asc: "ascii c" "list_all ascii str" using Cons.prems(3) by auto
  show ?case
  proof (cases "dfa c ! j = length p")
    case True
    then obtain v where v: "u @ [c] = v @ p" using longest_full [OF n] by (auto simp: suffix_def)
    have len: "length v + length p = length u + 1" using arg_cong [OF v, of length] by simp
    have none: "\<forall>i < length v. \<not> occurs_at p (v @ p @ str) i"
    proof (intro allI impI notI)
      fix x assume x: "x < length v" "occurs_at p (v @ p @ str) x"
      have "v @ p @ str = u @ c # str" using v by (metis append_assoc append_Cons append_Nil)
      then have "occurs_at p (u @ c # str) x" using x(2) by metis
      then have "occurs_at p u x" by (rule occurs_prefix) (use x(1) len in simp)
      then show False using Cons.prems(2) by blast
    qed
    have s: "u @ c # str = v @ p @ str" using v by (metis append_assoc append_Cons append_Nil)
    have "naive_search p (u @ c # str) pos = naive_search p (p @ str) (pos + length v)"
      unfolding s using naive_skip [OF assms(2) none, of pos] by simp
    also have "\<dots> = (pos + length v) # naive_search p str (pos + length v + length p)"
      using assms(2) by (simp add: naive_search.simps [of p "p @ str"])
    finally have e: "naive_search p (u @ c # str) pos = (pos + length v) # naive_search p str (pos + length v + length p)" .
    have "search_loop p dfa (i + 1) 0 str = Some (naive_search p ([] @ str) (pos + length v + length p))"
      using Cons.IH [of "[]" 0 "i + 1" "pos + length v + length p"] assms(2) asc Cons.prems(4) len border_length [of p "[]"]
      by (auto simp: longest_def occurs_at_def)
    moreover have "i + 1 - length p = pos + length v" using Cons.prems(4) len by simp
    ultimately show ?thesis using True asc e by (simp add: Let_def)
  next
    case False
    have "\<not> occurs_at p (u @ [c]) x" for x
    proof
      assume o: "occurs_at p (u @ [c]) x"
      show False
      proof (cases "x + length p = length u + 1")
        case True
        have "take (length p) (drop x (u @ [c])) = drop x (u @ [c])" using True by (intro take_all) simp
        then have "suffix p (u @ [c])" using o suffix_drop [of x "u @ [c]"] unfolding occurs_at_def by metis
        then show False using longest_full [OF n] False by simp
      next
        case ne: False
        have "x + length p \<le> length u" using o ne by (auto simp: occurs_at_def)
        then have "occurs_at p u x" using occurs_prefix [OF o] by simp
        then show False using Cons.prems(2) by blast
      qed
    qed
    then show ?thesis using Cons.IH [of "u @ [c]" "dfa c ! j" "i + 1" pos] n asc False Cons.prems(4) by (simp add: Let_def)
  qed
qed

text \<open>C27: For every non-empty pattern and every str of 7-bit characters the automaton search returns and prints
  exactly the positions that a direct comparison at each position finds, going on after each occurrence;
  in particular it misses occurrences that overlap an earlier one.\<close>

theorem kmp_finds_occurrences:
  assumes "p \<noteq> []" "list_all ascii p" "list_all ascii str"
  shows "search str p = Some (naive_search p str 0)"
proof -
  obtain dfa where d: "build_dfa p = Some dfa" "dfa_ok p (length p) dfa" using build_dfa_ok [OF assms(1,2)] by blast
  have "longest p [] 0" using border_length [of p "[]"] by (auto simp: longest_def)
  then have "search_loop p dfa 0 0 str = Some (naive_search p ([] @ str) 0)"
    by (rule search_loop_naive [OF d(2) assms(1) _ _ assms(3)]) (simp_all add: occurs_at_def assms(1))
  then show ?thesis using d(1) by (simp add: search_def)
qed

theorem kmp_finds_occurrences_witness: "search ''ababaxaba'' ''aba'' = Some [0, 6]"
proof -
  have "list_all ascii ''aba''" "list_all ascii ''ababaxaba''" by (simp_all add: ascii_def)
  then have "search ''ababaxaba'' ''aba'' = Some (naive_search ''aba'' ''ababaxaba'' 0)" by (intro kmp_finds_occurrences) auto
  also have "naive_search ''aba'' ''ababaxaba'' 0 = [0, 6]" by (simp add: naive_search.simps)
  finally show ?thesis .
qed

end
