(* ===== verification/Std_Heap.thy ===== *)
theory Std_Heap
  imports Main "HOL-Library.Multiset"
begin

text \<open>
  The heap functions of the C++ library that \<open>huffman/huffman.cpp\<close> uses, in the form of the GNU
  implementation: a hole is moved down to a leaf along the greater children, and the value put there
  is moved up again.  \<open>cmp\<close> is the comparison object.  They permute their vector.
\<close>

function push_hole :: "('a \<Rightarrow> 'a \<Rightarrow> bool) \<Rightarrow> 'a list \<Rightarrow> nat \<Rightarrow> nat \<Rightarrow> 'a \<Rightarrow> 'a list" where
  "push_hole cmp xs hole topi v =
     (if topi < hole \<and> cmp (xs ! ((hole - 1) div 2)) v
      then push_hole cmp (xs[hole := xs ! ((hole - 1) div 2)]) ((hole - 1) div 2) topi v
      else xs[hole := v])"
  by pat_completeness auto

termination
  by (relation "measure (\<lambda>(cmp, xs, hole, topi, v). hole)") auto

declare push_hole.simps [simp del]

function adjust_down :: "('a \<Rightarrow> 'a \<Rightarrow> bool) \<Rightarrow> 'a list \<Rightarrow> nat \<Rightarrow> nat \<Rightarrow> 'a list \<times> nat" where
  "adjust_down cmp xs hole len =
     (if hole < (len - 1) div 2 then
        let c = 2 * (hole + 1);
            c = (if cmp (xs ! c) (xs ! (c - 1)) then c - 1 else c)
        in adjust_down cmp (xs[hole := xs ! c]) c len
      else (xs, hole))"
  by pat_completeness auto

termination
  by (relation "measure (\<lambda>(cmp, xs, hole, len). len - hole)") auto

declare adjust_down.simps [simp del]

definition adjust_heap :: "('a \<Rightarrow> 'a \<Rightarrow> bool) \<Rightarrow> 'a list \<Rightarrow> nat \<Rightarrow> nat \<Rightarrow> 'a \<Rightarrow> 'a list" where
  "adjust_heap cmp xs hole len v =
     (case adjust_down cmp xs hole len of (ys, h) \<Rightarrow>
        if 0 < len \<and> even len \<and> h = (len - 2) div 2
        then push_hole cmp (ys[h := ys ! (2 * h + 1)]) (2 * h + 1) hole v
        else push_hole cmp ys h hole v)"

fun make_from :: "('a \<Rightarrow> 'a \<Rightarrow> bool) \<Rightarrow> 'a list \<Rightarrow> nat \<Rightarrow> 'a list" where
  "make_from cmp xs 0 = adjust_heap cmp xs 0 (length xs) (xs ! 0)"
| "make_from cmp xs (Suc p) = make_from cmp (adjust_heap cmp xs (Suc p) (length xs) (xs ! Suc p)) p"

definition make_heap :: "('a \<Rightarrow> 'a \<Rightarrow> bool) \<Rightarrow> 'a list \<Rightarrow> 'a list" where
  "make_heap cmp xs = (if length xs < 2 then xs else make_from cmp xs ((length xs - 2) div 2))"

definition pop_heap :: "('a \<Rightarrow> 'a \<Rightarrow> bool) \<Rightarrow> 'a list \<Rightarrow> 'a list" where
  "pop_heap cmp xs =
     (if length xs \<le> 1 then xs
      else let n = length xs - 1 in adjust_heap cmp (xs[n := xs ! 0]) 0 n (xs ! n))"

definition push_heap :: "('a \<Rightarrow> 'a \<Rightarrow> bool) \<Rightarrow> 'a list \<Rightarrow> 'a list" where
  "push_heap cmp xs = push_hole cmp xs (length xs - 1) 0 (last xs)"

section \<open>They permute the vector\<close>

lemma mset_move_hole:
  assumes "h < length xs" "c < length xs"
  shows "mset (xs[h := xs ! c, c := v]) = mset (xs[h := v])"
proof (cases "c = h")
  case False
  then show ?thesis using assms mset_swap [of c "xs[h := v]" h] by (simp add: list_update_swap)
qed simp

lemma mset_push_hole: "hole < length xs \<Longrightarrow> mset (push_hole cmp xs hole topi v) = mset (xs[hole := v])"
proof (induction cmp xs hole topi v rule: push_hole.induct)
  case (1 cmp xs hole topi v)
  have "(hole - 1) div 2 < length xs" using "1.prems" by linarith
  then show ?case using 1 mset_move_hole [of hole xs "(hole - 1) div 2" v]
    by (simp add: push_hole.simps [of cmp xs hole topi v])
qed

lemma adjust_down_moves:
  "adjust_down cmp xs hole len = (ys, h) \<Longrightarrow> hole < length xs \<Longrightarrow> len \<le> length xs \<Longrightarrow>
   length ys = length xs \<and> h < length xs \<and> (h = hole \<or> h < len) \<and> mset (ys[h := v]) = mset (xs[hole := v])"
proof (induction cmp xs hole len rule: adjust_down.induct)
  case (1 cmp xs hole len)
  define c where "c = (if cmp (xs ! (2 * (hole + 1))) (xs ! (2 * (hole + 1) - 1)) then 2 * (hole + 1) - 1 else 2 * (hole + 1))"
  show ?case
  proof (cases "hole < (len - 1) div 2")
    case True
    have c: "c < len" using True by (auto simp: c_def)
    have e: "adjust_down cmp (xs[hole := xs ! c]) c len = (ys, h)"
      using "1.prems"(1) True unfolding adjust_down.simps [of cmp xs hole len] Let_def c_def by (simp only: if_True)
    have "length ys = length (xs[hole := xs ! c]) \<and> h < length (xs[hole := xs ! c]) \<and> (h = c \<or> h < len) \<and>
        mset (ys[h := v]) = mset ((xs[hole := xs ! c])[c := v])"
      using "1.IH" [OF True refl c_def] e c "1.prems" by simp
    then show ?thesis using c mset_move_hole [of hole xs c v] "1.prems" by auto
  next
    case False
    then show ?thesis using "1.prems" by (simp add: adjust_down.simps [of cmp xs hole len])
  qed
qed

lemma mset_adjust_heap:
  assumes "hole < length xs" "len \<le> length xs"
  shows "mset (adjust_heap cmp xs hole len v) = mset (xs[hole := v])"
proof -
  obtain ys h where a: "adjust_down cmp xs hole len = (ys, h)" by (cases "adjust_down cmp xs hole len")
  note m = adjust_down_moves [OF a assms]
  show ?thesis
  proof (cases "0 < len \<and> even len \<and> h = (len - 2) div 2")
    case True
    then have l: "2 * h + 1 < len" by auto
    then show ?thesis using True m [of v] a assms mset_move_hole [of h ys "2 * h + 1" v]
      by (simp add: adjust_heap_def mset_push_hole)
  next
    case False
    then have "adjust_heap cmp xs hole len v = push_hole cmp ys h hole v" using a by (auto simp: adjust_heap_def)
    then show ?thesis using m [of v] by (simp add: mset_push_hole)
  qed
qed

lemma mset_make_from: "p < length xs \<Longrightarrow> mset (make_from cmp xs p) = mset xs"
proof (induction cmp xs p rule: make_from.induct)
  case (1 cmp xs)
  then show ?case by (simp add: mset_adjust_heap)
next
  case (2 cmp xs p)
  have m: "mset (adjust_heap cmp xs (Suc p) (length xs) (xs ! Suc p)) = mset xs" using 2 by (simp add: mset_adjust_heap)
  then have "length (adjust_heap cmp xs (Suc p) (length xs) (xs ! Suc p)) = length xs" by (rule mset_eq_length)
  then show ?case using 2 m by simp
qed

lemma mset_make_heap [simp]: "mset (make_heap cmp xs) = mset xs"
  by (auto simp: make_heap_def intro!: mset_make_from)

lemma mset_pop_heap [simp]: "mset (pop_heap cmp xs) = mset xs"
proof (cases "length xs \<le> 1")
  case False
  define n where "n = length xs - 1"
  have n: "n < length xs" "0 < n" using False by (auto simp: n_def)
  have "mset (adjust_heap cmp (xs[n := xs ! 0]) 0 n (xs ! n)) = mset (xs[n := xs ! 0, 0 := xs ! n])"
    by (rule mset_adjust_heap) (use n in auto)
  also have "\<dots> = mset xs" by (rule mset_swap) (use n in auto)
  finally show ?thesis using False by (simp add: pop_heap_def Let_def n_def)
qed (simp add: pop_heap_def)

lemma mset_push_heap [simp]: "xs \<noteq> [] \<Longrightarrow> mset (push_heap cmp xs) = mset xs"
  by (simp add: push_heap_def mset_push_hole last_conv_nth)

lemma length_pop_heap [simp]: "length (pop_heap cmp xs) = length xs"
  by (rule mset_eq_length) simp

lemma length_push_heap [simp]: "xs \<noteq> [] \<Longrightarrow> length (push_heap cmp xs) = length xs"
  by (rule mset_eq_length) simp

end
