(* ===== verification/Huffman.thy ===== *)
theory Huffman
  imports Prelude Containers Std_Heap "HOL-Library.Monad_Syntax"
begin

text \<open>
  The file compressor (\<open>huffman/huffman.cpp\<close>).  A file is its bytes and a position.  An \<open>int\<close> is a
  32-bit word; a \<open>char\<close> is signed, so that the letters above 127 are negative keys of the maps.
  \<open>None\<close> is a failed assertion, an access outside a vector or array, or a use of memory that was never
  written.  Reading and writing regular files transfers all bytes that are there.
\<close>

section \<open>Files\<close>

record os_file =
  f_bytes :: "byte list"
  f_pos :: nat

definition Write :: "byte list \<Rightarrow> os_file \<Rightarrow> os_file" where
  "Write bs f =
     (if bs = [] then f
      else f\<lparr>f_bytes := take (f_pos f) (f_bytes f @ replicate (f_pos f - length (f_bytes f)) 0) @ bs @
                        drop (f_pos f + length bs) (f_bytes f),
             f_pos := f_pos f + length bs\<rparr>)"

text \<open>A read that gets less than it asked for leaves a part of the buffer unwritten.\<close>

definition Read :: "nat \<Rightarrow> os_file \<Rightarrow> (byte list \<times> os_file) option" where
  "Read n f = (if f_pos f + n \<le> length (f_bytes f)
               then Some (take n (drop (f_pos f) (f_bytes f)), f\<lparr>f_pos := f_pos f + n\<rparr>) else None)"

definition int_bytes :: "u32 \<Rightarrow> byte list" where
  "int_bytes x = [ucast x, ucast (drop_bit 8 x), ucast (drop_bit 16 x), ucast (drop_bit 24 x)]"

definition bytes_int :: "byte list \<Rightarrow> u32" where
  "bytes_int bs = ucast (bs ! 0) OR push_bit 8 (ucast (bs ! 1)) OR push_bit 16 (ucast (bs ! 2)) OR
                  push_bit 24 (ucast (bs ! 3))"

section \<open>Nodes\<close>

record hnode =
  letter :: u32
  count :: u32
  parent :: u32
  left :: u32
  right :: u32

definition COMPOUND :: u32 where
  "COMPOUND = -1"

definition BUF_SZ :: nat where
  "BUF_SZ = 4096"

definition Serialize :: "hnode \<Rightarrow> byte list" where
  "Serialize np = int_bytes (letter np) @ int_bytes (count np) @ int_bytes (parent np) @
                  int_bytes (left np) @ int_bytes (right np)"

definition Unserialize :: "byte list \<Rightarrow> hnode" where
  "Unserialize buf =
     \<lparr>letter = bytes_int buf, count = bytes_int (drop 4 buf), parent = bytes_int (drop 8 buf),
      left = bytes_int (drop 12 buf), right = bytes_int (drop 16 buf)\<rparr>"

definition node_Size :: nat where
  "node_Size = 5 * 4"

definition node_at :: "hnode list \<Rightarrow> u32 \<Rightarrow> hnode option" where
  "node_at vs i = (if unat i < length vs then Some (vs ! unat i) else None)"

section \<open>Bits\<close>

record BitVec =
  bit_idx :: nat
  bvec :: "byte list"

definition BitVec_new :: BitVec where
  "BitVec_new = \<lparr>bit_idx = 0, bvec = replicate BUF_SZ 0\<rparr>"

definition Full :: "BitVec \<Rightarrow> bool" where
  "Full v = (BUF_SZ \<le> bit_idx v div 8)"

definition Add :: "bool \<Rightarrow> BitVec \<Rightarrow> BitVec option" where
  "Add b v =
     (let i = bit_idx v div 8; bits = bit_idx v mod 8
      in if i < length (bvec v)
         then Some (v\<lparr>bvec := (if b then (bvec v)[i := bvec v ! i OR push_bit bits 1] else bvec v),
                      bit_idx := bit_idx v + 1\<rparr>)
         else None)"

definition Output :: "BitVec \<Rightarrow> os_file \<Rightarrow> u32 \<times> BitVec \<times> os_file" where
  "Output v f =
     (let i = bit_idx v div 8; i = (if bit_idx v mod 8 > 0 then i + 1 else i)
      in (of_nat (bit_idx v), BitVec_new, if i > 0 then Write (take i (bvec v)) f else f))"

text \<open>The bits of \<open>buf\<close> that no read has written are missing from the list.\<close>

record BitStream =
  remain_bits :: int
  sbuf :: "byte list"
  curr_idx :: nat
  end_idx :: nat
  infd :: os_file

definition BitStream_new :: "os_file \<Rightarrow> u32 \<Rightarrow> BitStream" where
  "BitStream_new f nbits = \<lparr>remain_bits = sint nbits, sbuf = [], curr_idx = 0, end_idx = 0, infd = f\<rparr>"

definition fill :: "BitStream \<Rightarrow> BitStream option" where
  "fill s =
     (if curr_idx s = end_idx s then
        (if remain_bits s < 0 then None
         else let bytesleft = nat (remain_bits s) div 8;
                  bytesleft = (if nat (remain_bits s) mod 8 > 0 then bytesleft + 1 else bytesleft);
                  nbytes = (if bytesleft < BUF_SZ then bytesleft else BUF_SZ)
              in do { (bs, f) \<leftarrow> Read nbytes (infd s);
                      Some (s\<lparr>sbuf := bs @ drop nbytes (sbuf s), curr_idx := 0, end_idx := nbytes * 8, infd := f\<rparr>) })
      else Some s)"

definition Get :: "BitStream \<Rightarrow> (bool \<times> BitStream) option" where
  "Get s = do {
     s \<leftarrow> fill s;
     let i = curr_idx s div 8; bits = curr_idx s mod 8
     in if i < length (sbuf s)
        then Some (bit (sbuf s ! i) bits, s\<lparr>curr_idx := curr_idx s + 1, remain_bits := remain_bits s - 1\<rparr>)
        else None }"

definition Empty :: "BitStream \<Rightarrow> bool" where
  "Empty s = (remain_bits s \<le> 0)"

section \<open>The encoder\<close>

definition count_letters :: "byte list \<Rightarrow> (int, u32) omap" where
  "count_letters file = fold (\<lambda>c m. omap_set (sint c) (omap_get 0 m (sint c) + 1) m) file []"

definition add_leaf :: "int \<times> u32 \<Rightarrow> hnode list \<Rightarrow> hnode list" where
  "add_leaf e vs = vs @ [\<lparr>letter = word_of_int (fst e), count = snd e, parent = of_nat (length vs), left = -1, right = -1\<rparr>]"

definition leaf_nodes :: "(int, u32) omap \<Rightarrow> hnode list" where
  "leaf_nodes lc = fold add_leaf lc []"

definition index_leaves :: "hnode list \<Rightarrow> (int, u32) omap \<times> u32 list" where
  "index_leaves vs =
     fold (\<lambda>i (idx, heap). (omap_set (sint (ucast (letter (vs ! i)) :: byte)) (of_nat i) idx, heap @ [of_nat i]))
       [0..<length vs] ([], [])"

definition heap_cmp :: "hnode list \<Rightarrow> u32 \<Rightarrow> u32 \<Rightarrow> bool" where
  "heap_cmp vs a b = (sint (count (vs ! unat a)) > sint (count (vs ! unat b)))"

text \<open>One round of the loop takes two indices off the heap and puts one back.\<close>

definition join :: "hnode list \<Rightarrow> u32 \<Rightarrow> u32 \<Rightarrow> hnode list" where
  "join vs min1 min2 =
     (let new_idx = of_nat (length vs);
          vs = vs @ [\<lparr>letter = COMPOUND, count = count (vs ! unat min1) + count (vs ! unat min2), parent = new_idx,
                      left = min1, right = min2\<rparr>];
          vs = vs[unat min2 := (vs ! unat min2)\<lparr>parent := new_idx\<rparr>]
      in vs[unat min1 := (vs ! unat min1)\<lparr>parent := new_idx\<rparr>])"

function build_loop :: "hnode list \<Rightarrow> u32 list \<Rightarrow> hnode list \<times> u32 list" where
  "build_loop vs heap =
     (if length heap > 1 then
        let heap = pop_heap (heap_cmp vs) heap; min1 = last heap; heap = butlast heap;
            heap = pop_heap (heap_cmp vs) heap; min2 = last heap; heap = butlast heap;
            vs' = join vs min1 min2
        in build_loop vs' (push_heap (heap_cmp vs') (heap @ [of_nat (length vs)]))
      else (vs, heap))"
  by pat_completeness auto

termination
  by (relation "measure (\<lambda>(vs, heap). length heap)") auto

declare build_loop.simps [simp del]

definition BuildTree :: "(int, u32) omap \<Rightarrow> hnode list \<times> (int, u32) omap \<times> u32 list" where
  "BuildTree lc =
     (let vs = leaf_nodes lc; (idx, heap) = index_leaves vs;
          (vs, heap) = build_loop vs (make_heap (heap_cmp vs) heap)
      in (vs, idx, heap))"

definition OutputTree :: "hnode list \<Rightarrow> os_file \<Rightarrow> os_file" where
  "OutputTree vs f = Write (concat (map Serialize vs)) (Write (int_bytes (of_nat (length vs))) f)"

text \<open>The bits from a leaf up to the root.\<close>

partial_function (option) code_up :: "hnode list \<Rightarrow> u32 \<Rightarrow> bool list \<Rightarrow> bool list option" where
  "code_up vs i code =
     Option.bind (node_at vs i) (\<lambda>nd.
       if parent nd = i then Some code
       else Option.bind (node_at vs (parent nd)) (\<lambda>pn. code_up vs (parent nd) (code @ [i \<noteq> left pn])))"

fun add_bits :: "bool list \<Rightarrow> BitVec \<times> u32 \<times> os_file \<Rightarrow> (BitVec \<times> u32 \<times> os_file) option" where
  "add_bits [] st = Some st"
| "add_bits (b # bs) (v, nbits, f) = do {
     v \<leftarrow> Add b v;
     if Full v then (case Output v f of (n, v, f) \<Rightarrow> add_bits bs (v, nbits + n, f))
     else add_bits bs (v, nbits, f) }"

fun encode_letters :: "hnode list \<Rightarrow> (int, u32) omap \<Rightarrow> byte list \<Rightarrow> BitVec \<times> u32 \<times> os_file \<Rightarrow> (BitVec \<times> u32 \<times> os_file) option" where
  "encode_letters vs idx [] st = Some st"
| "encode_letters vs idx (c # file) st = do {
     code \<leftarrow> code_up vs (omap_get 0 idx (sint c)) [];
     st \<leftarrow> add_bits (rev code) st;
     encode_letters vs idx file st }"

definition LettersEncodeAndOutput :: "hnode list \<Rightarrow> (int, u32) omap \<Rightarrow> byte list \<Rightarrow> os_file \<Rightarrow> (u32 \<times> os_file) option" where
  "LettersEncodeAndOutput vs idx file f = do {
     (v, nbits, f) \<leftarrow> encode_letters vs idx file (BitVec_new, 0, f);
     case Output v f of (n, v, f) \<Rightarrow> Some (nbits + n, f) }"

definition ReserveRoomInt :: "os_file \<Rightarrow> nat \<times> os_file" where
  "ReserveRoomInt f = (f_pos f, f\<lparr>f_pos := length (f_bytes f) + 4\<rparr>)"

definition Encode :: "byte list \<Rightarrow> byte list option" where
  "Encode file =
     (case BuildTree (count_letters file) of (vs, idx, heap) \<Rightarrow>
        if length heap \<noteq> 1 then None
        else do {
          let f = OutputTree vs \<lparr>f_bytes = [], f_pos = 0\<rparr>;
          let (off, f) = ReserveRoomInt f;
          (nbits, f) \<leftarrow> LettersEncodeAndOutput vs idx file f;
          Some (f_bytes (Write (int_bytes nbits) (f\<lparr>f_pos := off\<rparr>))) })"

section \<open>The decoder\<close>

fun read_nodes :: "nat \<Rightarrow> byte list \<Rightarrow> hnode list" where
  "read_nodes 0 buf = []"
| "read_nodes (Suc n) buf = Unserialize buf # read_nodes n (drop node_Size buf)"

definition ReadTree :: "os_file \<Rightarrow> (hnode list \<times> os_file) option" where
  "ReadTree f = do {
     (bs, f) \<leftarrow> Read 4 f;
     let n = bytes_int bs;
     if sint n < 0 then None
     else do {
       (buf, f) \<leftarrow> Read (unat n * node_Size) f;
       Some (read_nodes (unat n) buf, f) } }"

partial_function (option) walk :: "hnode list \<Rightarrow> u32 \<Rightarrow> BitStream \<Rightarrow> (hnode \<times> BitStream) option" where
  "walk vs cur s =
     Option.bind (node_at vs cur) (\<lambda>nd.
       if letter nd = COMPOUND then Option.bind (Get s) (\<lambda>(b, s). walk vs (if \<not> b then left nd else right nd) s)
       else Some (nd, s))"

partial_function (option) decode_loop :: "hnode list \<Rightarrow> BitStream \<Rightarrow> byte list \<Rightarrow> byte list option" where
  "decode_loop vs s out =
     (if Empty s then Some out
      else Option.bind (walk vs (of_nat (length vs - 1)) s) (\<lambda>(nd, s). decode_loop vs s (out @ [ucast (letter nd)])))"

definition DecodeAndOutput :: "hnode list \<Rightarrow> os_file \<Rightarrow> byte list option" where
  "DecodeAndOutput vs f = do {
     (bs, f) \<leftarrow> Read 4 f;
     decode_loop vs (BitStream_new f (bytes_int bs)) [] }"

definition Decode :: "byte list \<Rightarrow> byte list option" where
  "Decode file = do {
     (vs, f) \<leftarrow> ReadTree \<lparr>f_bytes = file, f_pos = 0\<rparr>;
     DecodeAndOutput vs f }"

section \<open>Files and nodes are read back\<close>

lemma bytes_int_int_bytes [simp]: "bytes_int (int_bytes x @ r) = x"
proof (rule bit_eqI, goal_cases)
  case (1 n)
  consider "n < 8" | "8 \<le> n" "n < 16" | "16 \<le> n" "n < 24" | "24 \<le> n" by linarith
  then show ?case using 1 by cases (auto simp: bytes_int_def int_bytes_def bit_simps)
qed

lemma length_int_bytes [simp]: "length (int_bytes x) = 4"
  by (simp add: int_bytes_def)

lemma drop_int_bytes:
  "drop 4 (int_bytes a @ r) = r" "drop 8 (int_bytes a @ r) = drop 4 r" "drop 12 (int_bytes a @ r) = drop 8 r"
  "drop 16 (int_bytes a @ r) = drop 12 r"
  by simp_all

lemma Unserialize_Serialize [simp]: "Unserialize (Serialize nd @ r) = nd"
  by (simp add: Unserialize_def Serialize_def drop_int_bytes)

lemma length_Serialize [simp]: "length (Serialize nd) = node_Size"
  by (simp add: Serialize_def node_Size_def)

lemma read_nodes_Serialize: "read_nodes (length vs) (concat (map Serialize vs) @ r) = vs"
  by (induction vs arbitrary: r) simp_all

lemma length_concat_Serialize: "length (concat (map Serialize vs)) = length vs * node_Size"
  by (induction vs) simp_all

lemma Read_at:
  "f_bytes f = a @ b @ c \<Longrightarrow> f_pos f = length a \<Longrightarrow> length b = n \<Longrightarrow>
   Read n f = Some (b, f\<lparr>f_pos := length a + n\<rparr>)"
  by (simp add: Read_def)

lemma sint_of_nat_small: "k < 2 ^ 31 \<Longrightarrow> sint (of_nat k :: u32) = int k"
  by (simp add: sint_uint unsigned_of_nat take_bit_nat_eq_self signed_take_bit_int_eq_self)

lemma unat_of_nat_small: "k < 2 ^ 32 \<Longrightarrow> unat (of_nat k :: u32) = k"
  by (simp add: unat_of_nat)

lemma of_nat_eq_small: "i < 2 ^ 32 \<Longrightarrow> j < 2 ^ 32 \<Longrightarrow> (of_nat i :: u32) = of_nat j \<longleftrightarrow> i = j"
  by (metis unat_of_nat_small)

lemma ReadTree_OutputTree:
  assumes "f_bytes f = int_bytes (of_nat (length vs)) @ concat (map Serialize vs) @ r" "f_pos f = 0" "length vs < 2 ^ 31"
  shows "ReadTree f = Some (vs, f\<lparr>f_pos := 4 + length vs * node_Size\<rparr>)"
proof -
  have r: "Read 4 f = Some (int_bytes (of_nat (length vs)), f\<lparr>f_pos := 4\<rparr>)"
    using Read_at [of f "[]" "int_bytes (of_nat (length vs))"] assms by simp
  have n: "bytes_int (int_bytes (of_nat (length vs))) = of_nat (length vs)"
    using bytes_int_int_bytes [of _ "[]"] by (simp only: append_Nil2)
  have u: "unat (of_nat (length vs) :: u32) = length vs" "sint (of_nat (length vs) :: u32) = int (length vs)"
    using assms(3) by (simp_all add: unat_of_nat_small sint_of_nat_small)
  have "Read (length vs * node_Size) (f\<lparr>f_pos := 4\<rparr>) = Some (concat (map Serialize vs), f\<lparr>f_pos := 4 + length vs * node_Size\<rparr>)"
    using Read_at [of "f\<lparr>f_pos := 4\<rparr>" "int_bytes (of_nat (length vs))" "concat (map Serialize vs)" r] assms(1)
    by (simp add: length_concat_Serialize)
  then show ?thesis using r n u read_nodes_Serialize [of vs "[]"] by (simp add: ReadTree_def)
qed

section \<open>Bits are read back\<close>

definition bit_at :: "byte list \<Rightarrow> nat \<Rightarrow> bool" where
  "bit_at bs n = bit (bs ! (n div 8)) (n mod 8)"

definition packed :: "byte list \<Rightarrow> bool list \<Rightarrow> bool" where
  "packed ds bits = (length ds = (length bits + 7) div 8 \<and> (\<forall>n < length bits. bit_at ds n = bits ! n))"

text \<open>A file with contents \<open>pre\<close>, room for an integer, and \<open>ws\<close> written after it.\<close>

definition holds_after :: "byte list \<Rightarrow> byte list \<Rightarrow> os_file \<Rightarrow> bool" where
  "holds_after pre ws f =
     (f_bytes f = (if ws = [] then pre else pre @ replicate 4 0 @ ws) \<and> f_pos f = length pre + 4 + length ws)"

lemma Write_after: "holds_after pre ws f \<Longrightarrow> holds_after pre (ws @ bs) (Write bs f)"
  by (cases "ws = []"; cases "bs = []") (auto simp: holds_after_def Write_def)

lemma Write_room:
  "holds_after pre ws f \<Longrightarrow> f_bytes (Write (int_bytes x) (f\<lparr>f_pos := length pre\<rparr>)) = pre @ int_bytes x @ ws"
  by (cases "ws = []") (auto simp: holds_after_def Write_def int_bytes_def)

definition writer_ok :: "byte list \<Rightarrow> bool list \<Rightarrow> BitVec \<times> u32 \<times> os_file \<Rightarrow> bool" where
  "writer_ok pre bits st =
     (case st of (v, nbits, f) \<Rightarrow> \<exists>ws. holds_after pre ws f \<and> nbits = of_nat (8 * length ws) \<and>
        length bits = 8 * length ws + bit_idx v \<and> length (bvec v) = BUF_SZ \<and> bit_idx v < 8 * BUF_SZ \<and>
        (\<forall>n < length bits. bit_at (ws @ bvec v) n = bits ! n) \<and>
        (\<forall>n < 8 * BUF_SZ. bit_idx v \<le> n \<longrightarrow> \<not> bit_at (bvec v) n))"

lemma bit_at_append: "bit_at (a @ b) n = (if n < 8 * length a then bit_at a n else bit_at b (n - 8 * length a))"
proof (cases "n < 8 * length a")
  case True
  then have "n div 8 < length a" by linarith
  then show ?thesis using True by (simp add: bit_at_def nth_append)
next
  case False
  then obtain m where "n = 8 * length a + m" using le_Suc_ex not_less by blast
  then show ?thesis by (simp add: bit_at_def nth_append)
qed

lemma bit_at_set:
  assumes "k div 8 < length bs"
  shows "bit_at (bs[k div 8 := bs ! (k div 8) OR push_bit (k mod 8) 1]) n = (bit_at bs n \<or> n = k)"
proof (cases "n div 8 = k div 8")
  case True
  then have "n = k \<longleftrightarrow> n mod 8 = k mod 8" by (metis div_mult_mod_eq)
  then show ?thesis using True assms by (auto simp: bit_at_def bit_simps)
next
  case False
  then show ?thesis using assms by (auto simp: bit_at_def)
qed

lemma ceil8: "(if n mod 8 > 0 then n div 8 + 1 else n div 8) = (n + 7) div (8 :: nat)"
proof -
  obtain q r where n: "n = 8 * q + r" "r < 8" "q = n div 8" "r = n mod 8"
    by (metis mod_less_divisor mult_div_mod_eq zero_less_numeral)
  have "(8 * q + r + 7) div 8 = q + (r + 7) div 8" by (simp add: add.assoc)
  moreover have "(r + 7) div 8 = (if r > 0 then 1 else 0)" using n(2) by (auto simp: div_if)
  ultimately have "(n + 7) div 8 = q + (if r > 0 then 1 else 0)" by (simp only: n(1))
  then show ?thesis unfolding n(3,4) by simp
qed

lemma bit_at_zeros: "n < 8 * k \<Longrightarrow> \<not> bit_at (replicate k 0) n"
  by (simp add: bit_at_def)

lemma writer_ok_new: "holds_after pre [] f \<Longrightarrow> writer_ok pre [] (BitVec_new, 0, f)"
  unfolding writer_ok_def prod.case
  by (rule exI [of _ "[]"]) (simp add: BitVec_new_def BUF_SZ_def bit_at_zeros)

lemma Add_bits:
  assumes "bit_idx v < 8 * length (bvec v)"
  obtains v' where "Add b v = Some v'" "bit_idx v' = bit_idx v + 1" "length (bvec v') = length (bvec v)"
    "\<And>n. bit_at (bvec v') n = (bit_at (bvec v) n \<or> b \<and> n = bit_idx v)"
proof -
  have i: "bit_idx v div 8 < length (bvec v)" using assms by linarith
  show thesis
    by (rule that [of "v\<lparr>bvec := (if b then (bvec v)[bit_idx v div 8 := bvec v ! (bit_idx v div 8) OR push_bit (bit_idx v mod 8) 1]
          else bvec v), bit_idx := bit_idx v + 1\<rparr>"])
      (use i in \<open>simp_all add: Add_def Let_def bit_at_set [unfolded push_bit_of_1]\<close>)
qed

lemma writer_ok_Output:
  assumes h: "holds_after pre ws f" "nbits = of_nat (8 * length ws)" "length bits = 8 * length ws + bit_idx v"
      "length (bvec v) = BUF_SZ" "bit_idx v \<le> 8 * BUF_SZ" "\<forall>n < length bits. bit_at (ws @ bvec v) n = bits ! n"
    and o: "Output v f = (n, v', f')"
  obtains ds where "holds_after pre (ws @ ds) f'" "nbits + n = of_nat (length bits)" "v' = BitVec_new" "packed (ws @ ds) bits"
proof -
  define i where "i = (if bit_idx v mod 8 > 0 then bit_idx v div 8 + 1 else bit_idx v div 8)"
  have i: "i = (bit_idx v + 7) div 8" unfolding i_def by (rule ceil8)
  have f': "f' = (if i > 0 then Write (take i (bvec v)) f else f)" "n = of_nat (bit_idx v)" "v' = BitVec_new"
    using o by (auto simp: Output_def Let_def i_def)
  have len: "length (take i (bvec v)) = i" using h(4,5) unfolding i by simp
  have at: "bit_at (ws @ take i (bvec v)) m = bits ! m" if "m < length bits" for m
  proof (cases "m < 8 * length ws")
    case True
    then show ?thesis using h(6) that by (auto simp: bit_at_append)
  next
    case False
    then have "m - 8 * length ws < bit_idx v" using that h(3) by linarith
    then have "(m - 8 * length ws) div 8 < i" unfolding i by linarith
    then have "bit_at (take i (bvec v)) (m - 8 * length ws) = bit_at (bvec v) (m - 8 * length ws)" by (simp add: bit_at_def)
    then show ?thesis using h(6) that False by (auto simp: bit_at_append)
  qed
  have "holds_after pre (ws @ take i (bvec v)) f'" using Write_after [OF h(1)] f' h(1) by auto
  moreover have "packed (ws @ take i (bvec v)) bits"
    using at len h(3) unfolding packed_def i by simp
  ultimately show thesis using that f' h(2,3) by simp
qed

lemma add_bit_ok:
  assumes "writer_ok pre bits (v, nbits, f)"
  shows "\<exists>st. add_bits [b] (v, nbits, f) = Some st \<and> writer_ok pre (bits @ [b]) st"
proof -
  from assms obtain ws where h: "holds_after pre ws f" "nbits = of_nat (8 * length ws)" "length bits = 8 * length ws + bit_idx v"
      "length (bvec v) = BUF_SZ" "bit_idx v < 8 * BUF_SZ" "\<forall>n < length bits. bit_at (ws @ bvec v) n = bits ! n"
      "\<forall>n < 8 * BUF_SZ. bit_idx v \<le> n \<longrightarrow> \<not> bit_at (bvec v) n"
    by (auto simp: writer_ok_def)
  obtain v' where v': "Add b v = Some v'" "bit_idx v' = bit_idx v + 1" "length (bvec v') = BUF_SZ"
    "\<And>n. bit_at (bvec v') n = (bit_at (bvec v) n \<or> b \<and> n = bit_idx v)"
    using Add_bits [of v b] h(4,5) by auto
  have at: "\<forall>n < length (bits @ [b]). bit_at (ws @ bvec v') n = (bits @ [b]) ! n"
  proof (intro allI impI)
    fix n assume "n < length (bits @ [b])"
    then consider "n < length bits" | "n = length bits" by fastforce
    then show "bit_at (ws @ bvec v') n = (bits @ [b]) ! n"
    proof cases
      case 1
      then have "n < 8 * length ws \<or> n - 8 * length ws \<noteq> bit_idx v" using h(3) by linarith
      then show ?thesis using 1 h(6) by (auto simp: bit_at_append v'(4) nth_append)
    next
      case 2
      then show ?thesis using h(3,5,7) by (auto simp: bit_at_append v'(4) nth_append)
    qed
  qed
  have len: "length (bits @ [b]) = 8 * length ws + bit_idx v'" using h(3) v'(2) by simp
  show ?thesis
  proof (cases "Full v'")
    case False
    have "bit_idx v' < 8 * BUF_SZ" using False unfolding Full_def by linarith
    moreover have "\<forall>n < 8 * BUF_SZ. bit_idx v' \<le> n \<longrightarrow> \<not> bit_at (bvec v') n" using h(7) v'(2,4) by auto
    ultimately have "writer_ok pre (bits @ [b]) (v', nbits, f)"
      unfolding writer_ok_def prod.case using h(1,2) len v'(3) at by blast
    then show ?thesis using v'(1) False by simp
  next
    case True
    have full: "bit_idx v' = 8 * BUF_SZ" using True v'(2) h(5) unfolding Full_def by linarith
    obtain n v'' f' where o: "Output v' f = (n, v'', f')" by (cases "Output v' f") auto
    obtain ds where ds: "holds_after pre (ws @ ds) f'" "nbits + n = of_nat (length (bits @ [b]))" "v'' = BitVec_new"
        "packed (ws @ ds) (bits @ [b])"
      using writer_ok_Output [OF h(1,2) len v'(3) _ at o] full by auto
    have l: "length (ws @ ds) = length ws + BUF_SZ" using ds(4) len full unfolding packed_def by linarith
    have "length (bits @ [b]) = 8 * length (ws @ ds)" using l len full by linarith
    moreover have "bit_at ((ws @ ds) @ bvec BitVec_new) n = (bits @ [b]) ! n" if "n < length (bits @ [b])" for n
      using that ds(4) calculation unfolding packed_def bit_at_append by presburger
    ultimately have "writer_ok pre (bits @ [b]) (v'', nbits + n, f')"
      unfolding writer_ok_def prod.case using ds
      by (intro exI [of _ "ws @ ds"]) (simp_all add: BitVec_new_def BUF_SZ_def bit_at_zeros)
    then show ?thesis using v'(1) True o by simp
  qed
qed

lemma add_bits_Cons: "add_bits (b # bs) st = Option.bind (add_bits [b] st) (add_bits bs)"
  by (cases st; cases "Add b (fst st)") (auto split: prod.splits)

lemma add_bits_ok:
  "writer_ok pre bits st \<Longrightarrow> \<exists>st'. add_bits bs st = Some st' \<and> writer_ok pre (bits @ bs) st'"
proof (induction bs arbitrary: bits st)
  case (Cons b bs)
  obtain v nbits f where st: "st = (v, nbits, f)" by (cases st)
  obtain st1 where s1: "add_bits [b] st = Some st1" "writer_ok pre (bits @ [b]) st1" using add_bit_ok Cons.prems unfolding st by blast
  obtain st2 where "add_bits bs st1 = Some st2" "writer_ok pre ((bits @ [b]) @ bs) st2" using Cons.IH [OF s1(2)] by blast
  then show ?case using s1(1) add_bits_Cons [of b bs st] by simp
qed simp

text \<open>The reader has delivered \<open>c\<close> of the \<open>bits\<close> packed in \<open>ds\<close>.\<close>

definition reader_ok :: "byte list \<Rightarrow> byte list \<Rightarrow> bool list \<Rightarrow> nat \<Rightarrow> BitStream \<Rightarrow> bool" where
  "reader_ok pre ds bits c s =
     (packed ds bits \<and> c \<le> length bits \<and> remain_bits s = int (length bits) - int c \<and>
      (\<exists>base k. c = 8 * base + curr_idx s \<and> curr_idx s \<le> end_idx s \<and> end_idx s = 8 * k \<and>
         f_bytes (infd s) = pre @ ds \<and> f_pos (infd s) = length pre + base + k \<and> base + k \<le> length ds \<and>
         k \<le> length (sbuf s) \<and> (\<forall>j < k. sbuf s ! j = ds ! (base + j))))"

lemma fill_ok:
  assumes "reader_ok pre ds bits c s" "c < length bits"
  obtains s' where "fill s = Some s'" "reader_ok pre ds bits c s'" "curr_idx s' < end_idx s'"
proof (cases "curr_idx s = end_idx s")
  case False
  then have "fill s = Some s" by (simp add: fill_def)
  moreover have "curr_idx s < end_idx s" using assms(1) False by (auto simp: reader_ok_def)
  ultimately show thesis using that assms(1) by blast
next
  case True
  from assms(1) obtain base k where b: "c = 8 * base + curr_idx s" "end_idx s = 8 * k" "f_bytes (infd s) = pre @ ds"
      "f_pos (infd s) = length pre + base + k" "base + k \<le> length ds" "remain_bits s = int (length bits) - int c"
      "length ds = (length bits + 7) div 8"
    by (auto simp: reader_ok_def packed_def)
  define rem where "rem = length bits - c"
  define left where "left = (if rem mod 8 > 0 then rem div 8 + 1 else rem div 8)"
  define n where "n = (if left < BUF_SZ then left else BUF_SZ)"
  have c: "c = 8 * (base + k)" using b(1,2) True by simp
  have left: "left = (rem + 7) div 8" unfolding left_def by (rule ceil8)
  have "length bits + 7 = (rem + 7) + (base + k) * 8" using assms(2) c by (simp add: rem_def)
  then have ll: "left = length ds - (base + k)" unfolding left b(7) by simp
  have "0 < rem" using assms(2) by (simp add: rem_def)
  then have "0 < left" unfolding left by linarith
  then have n: "0 < n" "n \<le> left" by (auto simp: n_def BUF_SZ_def)
  have r: "nat (remain_bits s) = rem" "\<not> remain_bits s < 0" using b(6) assms(2) by (auto simp: rem_def)
  have "ds = take (base + k) ds @ take n (drop (base + k) ds) @ drop (base + k + n) ds"
    by (metis append_take_drop_id drop_drop add.commute)
  then have rd: "Read n (infd s) = Some (take n (drop (base + k) ds), (infd s)\<lparr>f_pos := length (pre @ take (base + k) ds) + n\<rparr>)"
    using b(3-5) n ll by (intro Read_at [where c = "drop (base + k + n) ds"]) auto
  have "fill s = Option.bind (Read n (infd s)) (\<lambda>(bs, f). Some (s\<lparr>sbuf := bs @ drop n (sbuf s), curr_idx := 0,
      end_idx := n * 8, infd := f\<rparr>))"
    unfolding fill_def Let_def n_def left_def by (simp only: True r if_True if_False refl)
  then have f: "fill s = Some (s\<lparr>sbuf := take n (drop (base + k) ds) @ drop n (sbuf s), curr_idx := 0, end_idx := n * 8,
      infd := (infd s)\<lparr>f_pos := length (pre @ take (base + k) ds) + n\<rparr>\<rparr>)" (is "_ = Some ?s")
    using rd by simp
  have "reader_ok pre ds bits c ?s"
    using assms(1) b(3-5) n ll c unfolding reader_ok_def
    by (intro conjI exI [of _ "base + k"] exI [of _ n]) (auto simp: nth_append)
  then show thesis using that [OF f] n by simp
qed

lemma Get_ok:
  assumes "reader_ok pre ds bits c s" "c < length bits"
  obtains s' where "Get s = Some (bits ! c, s')" "reader_ok pre ds bits (Suc c) s'"
proof -
  obtain s1 where s1: "fill s = Some s1" "reader_ok pre ds bits c s1" "curr_idx s1 < end_idx s1" using fill_ok [OF assms] .
  define s2 where "s2 = s1\<lparr>curr_idx := curr_idx s1 + 1, remain_bits := remain_bits s1 - 1\<rparr>"
  from s1(2) obtain base k where b: "c = 8 * base + curr_idx s1" "end_idx s1 = 8 * k" "k \<le> length (sbuf s1)"
      "\<forall>j < k. sbuf s1 ! j = ds ! (base + j)" "bit_at ds c = bits ! c" using assms(2)
    by (auto simp: reader_ok_def packed_def)
  have i: "curr_idx s1 div 8 < k" using s1(3) b(2) by linarith
  then have "bit (sbuf s1 ! (curr_idx s1 div 8)) (curr_idx s1 mod 8) = bits ! c" using b by (simp add: bit_at_def)
  then have "Get s = Some (bits ! c, s2)" using s1(1) i b(3) by (simp add: Get_def Let_def s2_def)
  moreover have "reader_ok pre ds bits (Suc c) s2"
    using s1(2,3) assms(2) unfolding reader_ok_def s2_def by (auto intro!: exI)
  ultimately show thesis using that by blast
qed

section \<open>The tree\<close>

text \<open>Node \<open>p\<close> is the parent of node \<open>i\<close>.\<close>

definition child_of :: "hnode list \<Rightarrow> nat \<Rightarrow> nat \<Rightarrow> bool" where
  "child_of vs i p = (i < p \<and> p < length vs \<and> parent (vs ! i) = of_nat p \<and> letter (vs ! p) = COMPOUND \<and>
     (left (vs ! p) = of_nat i \<or> left (vs ! p) \<noteq> of_nat i \<and> right (vs ! p) = of_nat i))"

definition tree_ok :: "hnode list \<Rightarrow> bool" where
  "tree_ok vs = (vs \<noteq> [] \<and> length vs < 2 ^ 31 \<and> parent (last vs) = of_nat (length vs - 1) \<and>
     (\<forall>i < length vs - 1. \<exists>p. child_of vs i p))"

text \<open>Following bits down from a node, through compound nodes.\<close>

fun descends :: "hnode list \<Rightarrow> nat \<Rightarrow> bool list \<Rightarrow> nat \<Rightarrow> bool" where
  "descends vs i [] j = (i = j)"
| "descends vs i (b # bs) j =
     (i < length vs \<and> letter (vs ! i) = COMPOUND \<and>
      descends vs (unat (if \<not> b then left (vs ! i) else right (vs ! i))) bs j)"

lemma descends_append: "descends vs i (xs @ ys) k \<longleftrightarrow> (\<exists>j. descends vs i xs j \<and> descends vs j ys k)"
  by (induction xs arbitrary: i) auto

lemma node_at_of_nat: "i < length vs \<Longrightarrow> length vs < 2 ^ 31 \<Longrightarrow> node_at vs (of_nat i) = Some (vs ! i)"
  by (simp add: node_at_def unat_of_nat_small)

lemma code_up_ok:
  assumes "tree_ok vs" "i < length vs"
  shows "\<exists>cs. code_up vs (of_nat i) acc = Some (acc @ cs) \<and> length cs \<le> length vs - 1 - i \<and>
    (i < length vs - 1 \<longrightarrow> cs \<noteq> []) \<and> descends vs (length vs - 1) (rev cs) i"
  using assms(2)
proof (induction "length vs - 1 - i" arbitrary: i acc rule: less_induct)
  case less
  have small: "length vs < 2 ^ 31" using assms(1) by (simp add: tree_ok_def)
  have at: "node_at vs (of_nat i) = Some (vs ! i)" using less.prems small by (rule node_at_of_nat)
  show ?case
  proof (cases "i = length vs - 1")
    case True
    then have "parent (vs ! i) = of_nat i" using assms(1) unfolding tree_ok_def by (metis last_conv_nth)
    then have "code_up vs (of_nat i) acc = Some acc" using at by (simp add: code_up.simps [of vs "of_nat i" acc])
    then show ?thesis using True by (intro exI [of _ "[]"]) simp
  next
    case False
    then have "i < length vs - 1" using less.prems by simp
    then obtain p where "child_of vs i p" using assms(1) unfolding tree_ok_def by blast
    then have p: "i < p" "p < length vs" "parent (vs ! i) = of_nat p" "letter (vs ! p) = COMPOUND"
      "left (vs ! p) = of_nat i \<or> left (vs ! p) \<noteq> of_nat i \<and> right (vs ! p) = of_nat i"
      by (auto simp: child_of_def)
    have ne: "parent (vs ! i) \<noteq> of_nat i" "unat (of_nat i :: u32) = i"
      using p(1-3) small of_nat_eq_small [of p i] unat_of_nat_small [of i] by simp_all
    have closer: "length vs - 1 - p < length vs - 1 - i" using p(1,2) by simp
    define b where "b = (of_nat i \<noteq> left (vs ! p))"
    obtain cs where cs: "code_up vs (of_nat p) (acc @ [b]) = Some ((acc @ [b]) @ cs)" "length cs \<le> length vs - 1 - p"
        "descends vs (length vs - 1) (rev cs) p"
      using less.hyps [OF closer p(2), of "acc @ [b]"] by blast
    have "code_up vs (of_nat i) acc = code_up vs (of_nat p) (acc @ [b])"
      using at ne(1) p(3) node_at_of_nat [OF p(2) small] by (simp add: code_up.simps [of vs "of_nat i" acc] b_def)
    moreover have "(if \<not> b then left (vs ! p) else right (vs ! p)) = of_nat i" using p(5) by (auto simp: b_def)
    then have "descends vs p [b] i" using p(2,4) ne(2) by simp
    ultimately show ?thesis using cs(1-3) closer by (intro exI [of _ "b # cs"]) (auto simp: descends_append)
  qed
qed

lemma walk_ok:
  assumes "reader_ok pre ds bits c s" "descends vs (unat w) bs j" "drop c bits = bs @ rest"
    "letter (vs ! j) \<noteq> COMPOUND" "j < length vs"
  shows "\<exists>s'. walk vs w s = Some (vs ! j, s') \<and> reader_ok pre ds bits (c + length bs) s'"
  using assms(1-3)
proof (induction bs arbitrary: w c s)
  case Nil
  then show ?case using assms(4,5) by (simp add: walk.simps [of vs w s] node_at_def)
next
  case (Cons b bs)
  have d: "c < length bits" "bits ! c = b" "drop (Suc c) bits = bs @ rest" using drop_Cons_nth [of c bits] Cons.prems(3) by auto
  obtain s1 where s1: "Get s = Some (b, s1)" "reader_ok pre ds bits (Suc c) s1" using Get_ok [OF Cons.prems(1) d(1)] d(2) by auto
  define w' where "w' = (if \<not> b then left (vs ! unat w) else right (vs ! unat w))"
  have w: "node_at vs w = Some (vs ! unat w)" "letter (vs ! unat w) = COMPOUND" "descends vs (unat w') bs j"
    using Cons.prems(2) by (auto simp: node_at_def w'_def)
  then have "walk vs w s = walk vs w' s1" using s1(1) by (simp add: walk.simps [of vs w s] w'_def)
  then show ?case using Cons.IH [OF s1(2) w(3) d(3)] by simp
qed

section \<open>Building the tree\<close>

text \<open>The indices on the heap are the roots of a forest; every other node has its parent above it.\<close>

definition forest :: "hnode list \<Rightarrow> u32 list \<Rightarrow> bool" where
  "forest vs heap = (distinct heap \<and> vs \<noteq> [] \<and> of_nat (length vs - 1) \<in> set heap \<and>
     (\<forall>h \<in> set heap. unat h < length vs \<and> parent (vs ! unat h) = h) \<and>
     (\<forall>i < length vs. of_nat i \<notin> set heap \<longrightarrow> (\<exists>p. child_of vs i p)))"

lemma forest_mset:
  assumes "mset heap = mset heap'"
  shows "forest vs heap = forest vs heap'"
  unfolding forest_def mset_eq_setD [OF assms] mset_eq_imp_distinct_iff [OF assms] by (rule refl)

definition same_data :: "hnode \<Rightarrow> hnode \<Rightarrow> bool" where
  "same_data a b = (letter a = letter b \<and> left a = left b \<and> right a = right b)"

lemma length_join [simp]: "length (join vs a b) = Suc (length vs)"
  by (simp add: join_def Let_def)

lemma join_nth:
  assumes "unat a < length vs" "unat b < length vs" "i < length vs"
  shows "join vs a b ! i = (if i = unat a \<or> i = unat b then (vs ! i)\<lparr>parent := of_nat (length vs)\<rparr> else vs ! i)"
  using assms by (auto simp: join_def Let_def nth_append nth_list_update)

lemma join_new:
  assumes "unat a < length vs" "unat b < length vs"
  shows "letter (join vs a b ! length vs) = COMPOUND" "parent (join vs a b ! length vs) = of_nat (length vs)"
    "left (join vs a b ! length vs) = a" "right (join vs a b ! length vs) = b"
  using assms by (simp_all add: join_def Let_def)

lemma join_same_data:
  "unat a < length vs \<Longrightarrow> unat b < length vs \<Longrightarrow> i < length vs \<Longrightarrow> same_data (join vs a b ! i) (vs ! i)"
  by (simp add: join_nth same_data_def)

lemma child_of_join:
  assumes "unat a < length vs" "unat b < length vs" "child_of vs i p" "i \<noteq> unat a" "i \<noteq> unat b"
  shows "child_of (join vs a b) i p"
proof -
  have p: "i < p" "p < length vs" using assms(3) by (auto simp: child_of_def)
  then have "parent (join vs a b ! i) = parent (vs ! i)" using assms by (simp add: join_nth)
  then show ?thesis using assms(3) p join_same_data [OF assms(1,2) p(2)] by (auto simp: child_of_def same_data_def)
qed

lemma forest_join:
  assumes "forest vs (a # b # rest)" "length vs < 2 ^ 31"
  shows "forest (join vs a b) (rest @ [of_nat (length vs)])"
proof -
  have ab: "unat a < length vs" "unat b < length vs" "a \<noteq> b" "a \<notin> set rest" "b \<notin> set rest" "distinct rest"
    and rest: "\<And>h. h \<in> set rest \<Longrightarrow> unat h < length vs \<and> parent (vs ! unat h) = h"
    and other: "\<And>i. i < length vs \<Longrightarrow> of_nat i \<notin> set (a # b # rest) \<Longrightarrow> \<exists>p. child_of vs i p"
    using assms(1) unfolding forest_def by auto
  have u: "unat (of_nat (length vs) :: u32) = length vs" using assms(2) by (simp add: unat_of_nat_small)
  have new: "of_nat (length vs) \<notin> set rest" using rest u by fastforce
  have w: "i < length vs \<Longrightarrow> unat (of_nat i :: u32) = i" for i using assms(2) by (simp add: unat_of_nat_small)
  have child: "child_of (join vs a b) i (length vs)" if "i = unat a \<or> i = unat b" for i
  proof -
    have i: "i < length vs" using that ab by auto
    have e: "(of_nat i :: u32) = (if i = unat a then a else b)" using that by auto
    show ?thesis using i ab(1-3) join_new [OF ab(1,2)] that unfolding child_of_def e by (auto simp: join_nth)
  qed
  have parented: "\<exists>p. child_of (join vs a b) i p" if i: "i < Suc (length vs)" "of_nat i \<notin> set (rest @ [of_nat (length vs)])" for i
  proof (cases "i = unat a \<or> i = unat b")
    case False
    have il: "i < length vs" using i less_Suc_eq by auto
    then have "of_nat i \<noteq> a" "of_nat i \<noteq> b" using w [OF il] False by auto
    then have "of_nat i \<notin> set (a # b # rest)" using i(2) by simp
    then show ?thesis using other [OF il] child_of_join [OF ab(1,2)] False by blast
  qed (use child in blast)
  have root: "parent (join vs a b ! unat h) = h" if "h \<in> set rest" for h
  proof -
    have "h \<noteq> a" "h \<noteq> b" using that ab(4,5) by auto
    then have "unat h \<noteq> unat a" "unat h \<noteq> unat b" by (simp_all add: word_unat_eq_iff)
    then show ?thesis using rest [OF that] ab(1,2) by (simp add: join_nth)
  qed
  have "\<forall>h \<in> set (rest @ [of_nat (length vs)]). unat h < Suc (length vs) \<and> parent (join vs a b ! unat h) = h"
    using rest root u join_new(2) [OF ab(1,2)] by (simp add: less_SucI)
  moreover have "distinct (rest @ [of_nat (length vs)])" using ab(6) new by simp
  moreover have "join vs a b \<noteq> []" by (metis length_join list.size(3) nat.distinct(1))
  ultimately show ?thesis unfolding forest_def length_join using parented by simp
qed

lemma mset_pop: "heap \<noteq> [] \<Longrightarrow> mset heap = add_mset (last (pop_heap cmp heap)) (mset (butlast (pop_heap cmp heap)))"
proof -
  assume "heap \<noteq> []"
  then have ne: "pop_heap cmp heap \<noteq> []" by (metis length_0_conv length_pop_heap)
  have "mset heap = mset (butlast (pop_heap cmp heap) @ [last (pop_heap cmp heap)])" unfolding append_butlast_last_id [OF ne] by simp
  then show ?thesis by simp
qed

lemma build_loop_ok:
  assumes "forest vs heap" "length vs + length heap < 2 ^ 31"
  obtains vs' h where "build_loop vs heap = (vs', [h])" "tree_ok vs'" "length vs' + 1 = length vs + length heap"
    "\<And>i. i < length vs \<Longrightarrow> same_data (vs' ! i) (vs ! i)"
  using assms
proof (induction vs heap arbitrary: thesis rule: build_loop.induct)
  case (1 vs heap)
  show ?case
  proof (cases "length heap > 1")
    case False
    obtain h where h: "heap = [h]" using False "1.prems"(2) unfolding forest_def by (cases heap) auto
    then have e: "h = of_nat (length vs - 1)" "vs \<noteq> []" "unat h < length vs" "parent (vs ! unat h) = h"
      using "1.prems"(2) by (auto simp: forest_def)
    have small: "length vs < 2 ^ 31" using "1.prems"(3) by simp
    then have u: "unat h = length vs - 1" unfolding e(1) by (simp add: unat_of_nat_small)
    have "\<exists>p. child_of vs i p" if "i < length vs - 1" for i
    proof -
      have "of_nat i \<noteq> h" unfolding e(1) using that small of_nat_eq_small [of i "length vs - 1"] by simp
      then show ?thesis using "1.prems"(2) that unfolding forest_def h by simp
    qed
    moreover have "parent (last vs) = of_nat (length vs - 1)" using e(1,2,4) u by (metis last_conv_nth)
    ultimately have t: "tree_ok vs" using e(2) small unfolding tree_ok_def by blast
    have b: "build_loop vs heap = (vs, [h])" using False h by (subst build_loop.simps) simp
    show ?thesis by (rule "1.prems"(1) [OF b t]) (simp_all add: h same_data_def)
  next
    case True
    define h1 where "h1 = pop_heap (heap_cmp vs) heap"
    define h2 where "h2 = pop_heap (heap_cmp vs) (butlast h1)"
    define rest where "rest = butlast h2"
    define vs1 where "vs1 = join vs (last h1) (last h2)"
    define heap1 where "heap1 = push_heap (heap_cmp vs1) (rest @ [of_nat (length vs)])"
    have e: "build_loop vs heap = build_loop vs1 heap1"
      unfolding h1_def h2_def rest_def vs1_def heap1_def by (subst build_loop.simps) (simp only: Let_def True if_True)
    have l1: "length h1 = length heap" by (simp add: h1_def)
    have "mset heap = add_mset (last h1) (mset (butlast h1))" unfolding h1_def by (rule mset_pop) (use True in auto)
    moreover have "butlast h1 \<noteq> []" using l1 True by (cases h1; cases "tl h1") auto
    then have "mset (butlast h1) = add_mset (last h2) (mset rest)" unfolding h2_def rest_def by (rule mset_pop)
    ultimately have m: "mset heap = mset (last h1 # last h2 # rest)" by simp
    have len: "length heap = length rest + 2" using mset_eq_length [OF m] by simp
    have f: "forest vs (last h1 # last h2 # rest)" using "1.prems"(2) forest_mset [OF m] by simp
    then have "forest vs1 (rest @ [of_nat (length vs)])" using "1.prems"(3) len unfolding vs1_def by (intro forest_join) auto
    then have f1: "forest vs1 heap1" using forest_mset [of heap1 "rest @ [of_nat (length vs)]" vs1] by (simp add: heap1_def)
    have lens: "length vs1 = Suc (length vs)" "length heap1 = Suc (length rest)" by (simp_all add: vs1_def heap1_def)
    have IH: "thesis" if "\<And>vs' h. build_loop vs1 heap1 = (vs', [h]) \<Longrightarrow> tree_ok vs' \<Longrightarrow>
        length vs' + 1 = length vs1 + length heap1 \<Longrightarrow> (\<And>i. i < length vs1 \<Longrightarrow> same_data (vs' ! i) (vs1 ! i)) \<Longrightarrow> thesis" for thesis
      using "1.IH" [OF True h1_def refl refl h2_def refl refl vs1_def] f1 "1.prems"(3) lens len that
      unfolding rest_def [symmetric] heap1_def [symmetric] by auto
    have keep: "i < length vs \<Longrightarrow> same_data (vs1 ! i) (vs ! i)" for i
      using f unfolding vs1_def forest_def by (intro join_same_data) auto
    show ?thesis
    proof (rule IH)
      fix vs' h assume "build_loop vs1 heap1 = (vs', [h])" "tree_ok vs'" "length vs' + 1 = length vs1 + length heap1"
        "\<And>i. i < length vs1 \<Longrightarrow> same_data (vs' ! i) (vs1 ! i)"
      then show ?thesis by (intro "1.prems"(1) [of vs' h]) (use e lens len keep in \<open>auto simp: same_data_def\<close>)
    qed
  qed
qed

section \<open>Letters\<close>

lemma count_letters_keys: "fst ` set (count_letters file) = sint ` set file \<and> omap_ok (count_letters file)"
proof -
  have "fst ` set (fold (\<lambda>c m. omap_set (sint c) (omap_get 0 m (sint c) + 1) m) file m) = fst ` set m \<union> sint ` set file \<and>
      (omap_ok m \<longrightarrow> omap_ok (fold (\<lambda>c m. omap_set (sint c) (omap_get 0 m (sint c) + 1) m) file m))" for m :: "(int, u32) omap"
    by (induction "file" arbitrary: m) (auto simp: set_omap_set omap_ok_set)
  from this [of "[]"] show ?thesis by (simp add: count_letters_def omap_ok_def)
qed

lemma length_count_letters: "length (count_letters file) = card (set file)" "distinct (map fst (count_letters file))"
proof -
  show d: "distinct (map fst (count_letters file))"
    using count_letters_keys [of "file"] sorted_wrt_less_distinct by (auto simp: omap_ok_def)
  have "length (count_letters file) = card (fst ` set (count_letters file))" using distinct_card [OF d] by simp
  also have "\<dots> = card (set file)"
    using count_letters_keys [of "file"] by (auto intro!: card_image inj_onI signed_word_eqI)
  finally show "length (count_letters file) = card (set file)" .
qed

lemma card_letters: "card (set (file :: byte list)) \<le> 256"
  using card_mono [OF finite subset_UNIV, of "set file"] by (simp add: card_word)

lemma leaf_nodes_eq:
  "leaf_nodes lc = map (\<lambda>i. \<lparr>letter = word_of_int (fst (lc ! i)), count = snd (lc ! i), parent = of_nat i, left = -1, right = -1\<rparr>) [0..<length lc]"
proof (induction lc rule: rev_induct)
  case (snoc e lc)
  have "length (leaf_nodes lc) = length lc" using snoc by simp
  then show ?case using snoc by (simp add: leaf_nodes_def add_leaf_def nth_append)
qed (simp add: leaf_nodes_def)

lemma index_leaves_eq:
  "index_leaves vs = (fold (\<lambda>i. omap_set (sint (ucast (letter (vs ! i)) :: byte)) (of_nat i)) [0..<length vs] [], map of_nat [0..<length vs])"
proof -
  have "fold (\<lambda>i (idx, heap). (omap_set (k i) (of_nat i) idx, heap @ [of_nat i])) is (m, hs) =
      (fold (\<lambda>i. omap_set (k i) (of_nat i)) is m, hs @ map of_nat is)" for k :: "nat \<Rightarrow> int" and "is" and m :: "(int, u32) omap" and hs :: "u32 list"
    by (induction "is" arbitrary: m hs) auto
  then show ?thesis by (simp add: index_leaves_def)
qed

lemma omap_get_fold:
  "inj_on k {..<n} \<Longrightarrow> i < n \<Longrightarrow> omap_get d (fold (\<lambda>i. omap_set (k i) (v i)) [0..<n] []) (k i) = v i"
proof (induction n)
  case (Suc n)
  then have "inj_on k {..<n}" by (auto simp: inj_on_def)
  moreover have "k i = k n \<Longrightarrow> i = n" using Suc.prems by (auto dest: inj_onD)
  ultimately show ?case using Suc by (cases "i = n") (auto simp: omap_get_set)
qed simp

lemma letter_byte: "(ucast (scast (c :: byte) :: u32) :: byte) = c" "(scast c :: u32) = COMPOUND \<longleftrightarrow> c = -1"
proof -
  show u: "(ucast (scast c :: u32) :: byte) = c"
  proof (rule bit_eqI, goal_cases)
    case (1 n)
    then have "min 7 n = n" "n < 8" "n < 32" by simp_all
    then show ?case by (simp add: bit_simps)
  qed
  show "(scast c :: u32) = COMPOUND \<longleftrightarrow> c = -1"
  proof
    assume "(scast c :: u32) = COMPOUND"
    then have "c = ucast (-1 :: u32)" using u by (simp add: COMPOUND_def)
    then show "c = -1" by (simp add: unsigned_minus_1_eq_mask mask_eq_exp_minus_1)
  qed (simp add: COMPOUND_def scast_eq)
qed

lemma forest_leaves:
  assumes "0 < length lc" "length lc < 2 ^ 31"
  shows "forest (leaf_nodes lc) (map of_nat [0..<length lc])"
proof -
  have "inj_on (of_nat :: nat \<Rightarrow> u32) {0..<length lc}" using assms(2) of_nat_eq_small by (auto simp: inj_on_def)
  then show ?thesis using assms unfolding forest_def by (auto simp: leaf_nodes_eq distinct_map unat_of_nat_small)
qed

text \<open>What the tree of a file gives the coder: for every letter a leaf and the bits that lead to it.\<close>

definition coded :: "hnode list \<Rightarrow> (int, u32) omap \<Rightarrow> nat \<Rightarrow> byte \<Rightarrow> bool list \<Rightarrow> bool" where
  "coded vs idx n c cs = (code_up vs (omap_get 0 idx (sint c)) [] = Some (rev cs) \<and> length cs \<le> length vs - 1 \<and> (1 < n \<longrightarrow> cs \<noteq> []) \<and>
     (\<exists>j < length vs. descends vs (length vs - 1) cs j \<and> letter (vs ! j) = scast c \<and> left (vs ! j) = -1 \<and> right (vs ! j) = -1))"

lemma BuildTree_ok:
  assumes "file \<noteq> []"
  obtains vs idx h where "BuildTree (count_letters file) = (vs, idx, [h])" "tree_ok vs" "length vs = 2 * card (set file) - 1"
    "\<forall>c \<in> set file. \<exists>cs. coded vs idx (card (set file)) c cs"
proof -
  define lc where "lc = count_letters file"
  define n where "n = card (set file)"
  have n: "length lc = n" "0 < n" "n \<le> 256" "distinct (map fst lc)"
    using assms length_count_letters [of "file"] card_letters [of "file"] by (auto simp: lc_def n_def card_gt_0_iff)
  define vs0 where "vs0 = leaf_nodes lc"
  define idx where "idx = fst (index_leaves vs0)"
  have l0: "length vs0 = n" by (simp add: vs0_def leaf_nodes_eq n)
  have "forest vs0 (map of_nat [0..<n])" using forest_leaves [of lc] n by (simp add: vs0_def)
  then have f: "forest vs0 (make_heap (heap_cmp vs0) (map of_nat [0..<n]))" (is "forest vs0 ?heap")
    using forest_mset [of ?heap "map of_nat [0..<n]"] by simp
  have lh: "length ?heap = n" using mset_eq_length [OF mset_make_heap [of "heap_cmp vs0" "map of_nat [0..<n]"]] by simp
  obtain vs h where b: "build_loop vs0 ?heap = (vs, [h])" "tree_ok vs" "length vs + 1 = length vs0 + length ?heap"
      "\<And>i. i < length vs0 \<Longrightarrow> same_data (vs ! i) (vs0 ! i)"
    using build_loop_ok [OF f] lh l0 n by auto
  have t: "BuildTree (count_letters file) = (vs, idx, [h])"
    using b(1) unfolding BuildTree_def Let_def lc_def [symmetric] vs0_def [symmetric] idx_def
    by (simp add: index_leaves_eq l0)
  have len: "length vs = 2 * n - 1" using b(3) l0 lh by simp
  have "\<exists>cs. coded vs idx n c cs" if "c \<in> set file" for c
  proof -
    have "sint c \<in> fst ` set lc" using count_letters_keys [of "file"] that by (simp add: lc_def)
    then obtain i where i: "i < n" "fst (lc ! i) = sint c" using n(1) by (auto simp: in_set_conv_nth)
    define k where "k j = sint (ucast (letter (vs0 ! j)) :: byte)" for j
    have k: "k j = fst (lc ! j)" if "j < n" for j
    proof -
      have "fst (lc ! j) \<in> sint ` set file" using count_letters_keys [of "file"] that n(1) by (metis imageI lc_def nth_mem)
      then obtain c' where "fst (lc ! j) = sint (c' :: byte)" by auto
      then show ?thesis using that n(1) by (simp add: k_def vs0_def leaf_nodes_eq letter_byte)
    qed
    have "inj_on k {..<n}" using n(1,4) k by (auto simp: inj_on_def distinct_conv_nth)
    then have "omap_get 0 idx (k i) = of_nat i" using i(1) omap_get_fold [of k n i 0 of_nat]
      by (simp add: idx_def index_leaves_eq l0 k_def)
    then have ix: "omap_get 0 idx (sint c) = of_nat i" using k [OF i(1)] i(2) by simp
    have il: "i < length vs" using i(1) len by simp
    obtain cs where cs: "code_up vs (of_nat i) [] = Some cs" "length cs \<le> length vs - 1 - i" "i < length vs - 1 \<longrightarrow> cs \<noteq> []"
        "descends vs (length vs - 1) (rev cs) i"
      using code_up_ok [OF b(2) il, of "[]"] by auto
    have "same_data (vs ! i) (vs0 ! i)" using b(4) i(1) l0 by simp
    then have "letter (vs ! i) = scast c" "left (vs ! i) = -1" "right (vs ! i) = -1"
      using i n(1) by (simp_all add: same_data_def vs0_def leaf_nodes_eq)
    then have "coded vs idx n c (rev cs)" unfolding coded_def ix using cs il len n(3) i(1) by auto
    then show ?thesis by blast
  qed
  then show thesis using that [OF t b(2)] len by (simp add: n_def)
qed

section \<open>Encoding and decoding\<close>

lemma encode_letters_ok:
  "writer_ok pre bits st \<Longrightarrow> \<forall>c \<in> set file. code_up vs (omap_get 0 idx (sint c)) [] = Some (rev (cd c)) \<Longrightarrow>
   \<exists>st'. encode_letters vs idx file st = Some st' \<and> writer_ok pre (bits @ concat (map cd file)) st'"
proof (induction "file" arbitrary: bits st)
  case (Cons c fl)
  obtain st1 where "add_bits (cd c) st = Some st1" "writer_ok pre (bits @ cd c) st1" using add_bits_ok [OF Cons.prems(1)] by blast
  then show ?case using Cons.IH [of "bits @ cd c" st1] Cons.prems(2) by auto
qed simp

lemma LettersEncodeAndOutput_ok:
  assumes "holds_after pre [] f" "\<forall>c \<in> set file. code_up vs (omap_get 0 idx (sint c)) [] = Some (rev (cd c))"
  obtains ds f' where "LettersEncodeAndOutput vs idx file f = Some (of_nat (length (concat (map cd file))), f')"
    "holds_after pre ds f'" "packed ds (concat (map cd file))"
proof -
  let ?bits = "concat (map cd file)"
  obtain v nbits f1 where e: "encode_letters vs idx file (BitVec_new, 0, f) = Some (v, nbits, f1)" "writer_ok pre ?bits (v, nbits, f1)"
    using encode_letters_ok [OF writer_ok_new [OF assms(1)] assms(2)] by (metis append_Nil prod_cases3)
  obtain n v' f' where o: "Output v f1 = (n, v', f')" by (metis prod_cases3)
  from e(2) obtain ws where h: "holds_after pre ws f1" "nbits = of_nat (8 * length ws)" "length ?bits = 8 * length ws + bit_idx v"
      "length (bvec v) = BUF_SZ" "bit_idx v < 8 * BUF_SZ" "\<forall>n < length ?bits. bit_at (ws @ bvec v) n = ?bits ! n"
    unfolding writer_ok_def prod.case by blast
  obtain ds where ds: "holds_after pre (ws @ ds) f'" "nbits + n = of_nat (length ?bits)" "packed (ws @ ds) ?bits"
    using writer_ok_Output [OF h(1-4) less_imp_le_nat [OF h(5)] h(6) o] by metis
  have "LettersEncodeAndOutput vs idx file f = Some (of_nat (length ?bits), f')"
    using e(1) o ds(2) by (simp add: LettersEncodeAndOutput_def)
  then show thesis using that ds(1,3) by blast
qed

text \<open>The file that the encoder writes.\<close>

definition image_of :: "hnode list \<Rightarrow> nat \<Rightarrow> byte list \<Rightarrow> byte list" where
  "image_of vs n ds = int_bytes (of_nat (length vs)) @ concat (map Serialize vs) @ int_bytes (of_nat n) @ ds"

lemma Encode_ok:
  assumes "file \<noteq> []"
  obtains vs idx cd ds where "Encode file = Some (image_of vs (length (concat (map cd file))) ds)"
    "packed ds (concat (map cd file))" "tree_ok vs" "length vs = 2 * card (set file) - 1"
    "\<forall>c \<in> set file. coded vs idx (card (set file)) c (cd c)"
proof -
  obtain vs idx h where b: "BuildTree (count_letters file) = (vs, idx, [h])" "tree_ok vs" "length vs = 2 * card (set file) - 1"
      "\<forall>c \<in> set file. \<exists>cs. coded vs idx (card (set file)) c cs"
    using BuildTree_ok [OF assms] .
  from b(4) obtain cd where cd: "\<forall>c \<in> set file. coded vs idx (card (set file)) c (cd c)" by metis
  define pre where "pre = int_bytes (of_nat (length vs)) @ concat (map Serialize vs)"
  have "vs \<noteq> []" using b(2) by (simp add: tree_ok_def)
  then have "concat (map Serialize vs) \<noteq> []" using length_concat_Serialize [of vs] by (auto simp: node_Size_def simp del: concat_eq_Nil_conv)
  then have o: "OutputTree vs \<lparr>f_bytes = [], f_pos = 0\<rparr> = \<lparr>f_bytes = pre, f_pos = length pre\<rparr>"
    by (simp add: OutputTree_def Write_def pre_def int_bytes_def)
  have "holds_after pre [] \<lparr>f_bytes = pre, f_pos = length pre + 4\<rparr>" by (simp add: holds_after_def)
  moreover have "\<forall>c \<in> set file. code_up vs (omap_get 0 idx (sint c)) [] = Some (rev (cd c))" using cd by (simp add: coded_def)
  ultimately obtain ds f' where l: "LettersEncodeAndOutput vs idx file \<lparr>f_bytes = pre, f_pos = length pre + 4\<rparr> = Some (of_nat (length (concat (map cd file))), f')"
    "holds_after pre ds f'" "packed ds (concat (map cd file))"
    by (rule LettersEncodeAndOutput_ok)
  have "Encode file = Some (image_of vs (length (concat (map cd file))) ds)"
    using b(1) o l(1) Write_room [OF l(2)] by (simp add: Encode_def ReserveRoomInt_def image_of_def pre_def)
  then show thesis using that l(3) b(2,3) cd by blast
qed

lemma Decode_image:
  assumes "packed ds bits" "tree_ok vs" "length bits < 2 ^ 31"
  obtains pre s where "Decode (image_of vs (length bits) ds) = decode_loop vs s []" "reader_ok pre ds bits 0 s"
proof -
  define pre0 where "pre0 = int_bytes (of_nat (length vs)) @ concat (map Serialize vs)"
  define pre where "pre = pre0 @ int_bytes (of_nat (length bits))"
  define f where "f = \<lparr>f_bytes = image_of vs (length bits) ds, f_pos = 0\<rparr>"
  define s where "s = BitStream_new (f\<lparr>f_pos := length pre\<rparr>) (of_nat (length bits))"
  have lp: "length pre0 = 4 + length vs * node_Size" by (simp add: pre0_def length_concat_Serialize)
  have "ReadTree f = Some (vs, f\<lparr>f_pos := 4 + length vs * node_Size\<rparr>)"
    using assms(2) by (intro ReadTree_OutputTree) (simp_all add: f_def image_of_def tree_ok_def)
  moreover have "Read 4 (f\<lparr>f_pos := length pre0\<rparr>) = Some (int_bytes (of_nat (length bits)), f\<lparr>f_pos := length pre\<rparr>)"
    using Read_at [of "f\<lparr>f_pos := length pre0\<rparr>" pre0 "int_bytes (of_nat (length bits))" ds 4]
    by (simp add: f_def image_of_def pre0_def pre_def)
  moreover have "bytes_int (int_bytes (of_nat (length bits))) = of_nat (length bits)"
    using bytes_int_int_bytes [of _ "[]"] by (simp only: append_Nil2)
  ultimately have "Decode (image_of vs (length bits) ds) = decode_loop vs s []"
    unfolding Decode_def DecodeAndOutput_def f_def [symmetric] s_def by (simp add: lp)
  moreover have "reader_ok pre ds bits 0 s"
    using assms(1,3) unfolding reader_ok_def s_def
    by (simp add: BitStream_new_def sint_of_nat_small f_def image_of_def pre0_def pre_def)
  ultimately show thesis using that by blast
qed

lemma decode_loop_ok:
  assumes "tree_ok vs" "\<forall>c \<in> set file. coded vs idx n c (cd c)" "1 < n" "-1 \<notin> set file"
    "reader_ok pre ds bits k s" "drop k bits = concat (map cd file) @ rest"
  shows "\<exists>s'. decode_loop vs s out = decode_loop vs s' (out @ file) \<and> reader_ok pre ds bits (k + length (concat (map cd file))) s'"
  using assms(2,4-6)
proof (induction "file" arbitrary: s k out)
  case (Cons c fl)
  define root where "root = (of_nat (length vs - 1) :: u32)"
  have vs: "length vs < 2 ^ 31" "vs \<noteq> []" using assms(1) by (auto simp: tree_ok_def)
  then have r: "unat root = length vs - 1" unfolding root_def by (intro unat_of_nat_small) simp
  obtain j where j: "j < length vs" "descends vs (length vs - 1) (cd c) j" "letter (vs ! j) = scast c" "cd c \<noteq> []"
    using Cons.prems(1) assms(3) by (auto simp: coded_def)
  have "letter (vs ! j) \<noteq> COMPOUND" using j(3) Cons.prems(2) letter_byte(2) [of c] by auto
  then obtain s1 where s1: "walk vs root s = Some (vs ! j, s1)" "reader_ok pre ds bits (k + length (cd c)) s1"
    using walk_ok [OF Cons.prems(3), of vs root "cd c" j "concat (map cd fl) @ rest"] j Cons.prems(4) by (auto simp: r)
  have "k < length bits" using Cons.prems(4) j(4) by (metis append_is_Nil_conv concat.simps(2) drop_all linorder_not_le list.simps(9))
  then have "\<not> Empty s" using Cons.prems(3) by (simp add: Empty_def reader_ok_def)
  then have "decode_loop vs s out = decode_loop vs s1 (out @ [c])"
    using s1(1) j(3) letter_byte(1) [of c] by (simp add: decode_loop.simps [of vs s out] root_def)
  moreover have "drop (k + length (cd c)) bits = concat (map cd fl) @ rest"
    using drop_eq_append_next [of k bits "cd c"] Cons.prems(4) by simp
  ultimately show ?case using Cons.IH [OF _ _ s1(2), of "out @ [c]"] Cons.prems(1,2) by (simp add: add.assoc)
qed auto

lemma bits_bound:
  assumes "length vs = 2 * card (set file) - 1" "\<forall>c \<in> set file. coded vs idx (card (set file)) c (cd c)" "length file < 2 ^ 22"
  shows "length (concat (map cd file)) < 2 ^ 31"
proof -
  have "\<forall>c \<in> set file. length (cd c) \<le> 510" using assms(1,2) card_letters [of "file"] by (fastforce simp: coded_def)
  then have "length (concat (map cd file)) \<le> 510 * length file" by (induction "file") auto
  then show ?thesis using assms(3) by simp
qed

text \<open>A leaf whose letter is taken for a compound node ends in an access outside the vector.\<close>

lemma walk_stuck:
  assumes "reader_ok pre ds bits c s" "descends vs (unat w) bs j" "drop c bits = bs @ rest"
    "letter (vs ! j) = COMPOUND" "left (vs ! j) = -1" "right (vs ! j) = -1" "length vs < 2 ^ 31" "j < length vs"
  shows "walk vs w s = None"
  using assms(1-3)
proof (induction bs arbitrary: w c s)
  case Nil
  have out: "node_at vs (-1) = None" using assms(7) by (simp add: node_at_def unsigned_minus_1_eq_mask mask_eq_exp_minus_1)
  have "walk vs (-1) s' = None" for s' by (simp add: walk.simps [of vs "-1"] out)
  then show ?case using Nil(2) assms(4-6,8) by (cases "Get s") (auto simp: walk.simps [of vs w s] node_at_def)
next
  case (Cons b bs)
  have d: "c < length bits" "bits ! c = b" "drop (Suc c) bits = bs @ rest" using drop_Cons_nth [of c bits] Cons.prems(3) by auto
  obtain s1 where s1: "Get s = Some (b, s1)" "reader_ok pre ds bits (Suc c) s1" using Get_ok [OF Cons.prems(1) d(1)] d(2) by auto
  define w' where "w' = (if \<not> b then left (vs ! unat w) else right (vs ! unat w))"
  have w: "node_at vs w = Some (vs ! unat w)" "letter (vs ! unat w) = COMPOUND" "descends vs (unat w') bs j"
    using Cons.prems(2) by (auto simp: node_at_def w'_def)
  then have "walk vs w s = walk vs w' s1" using s1(1) by (simp add: walk.simps [of vs w s] w'_def)
  then show ?case using Cons.IH [OF s1(2) w(3) d(3)] by simp
qed

lemma decode_loop_stuck:
  assumes "tree_ok vs" "coded vs idx n c cs" "1 < n" "c = -1" "reader_ok pre ds bits k s" "drop k bits = cs @ rest"
  shows "decode_loop vs s out = None"
proof -
  define root where "root = (of_nat (length vs - 1) :: u32)"
  have vs: "length vs < 2 ^ 31" using assms(1) by (auto simp: tree_ok_def)
  then have r: "unat root = length vs - 1" unfolding root_def by (intro unat_of_nat_small) simp
  obtain j where j: "j < length vs" "descends vs (length vs - 1) cs j" "letter (vs ! j) = scast c" "left (vs ! j) = -1"
      "right (vs ! j) = -1" "cs \<noteq> []"
    using assms(2,3) by (auto simp: coded_def)
  have "walk vs root s = None"
    by (rule walk_stuck [OF assms(5) _ assms(6), where j = j]) (use j vs r letter_byte(2) [of c] assms(4) in auto)
  moreover have "k < length bits" using assms(6) j(6) by (metis append_is_Nil_conv drop_all linorder_not_le)
  then have "\<not> Empty s" using assms(5) by (simp add: Empty_def reader_ok_def)
  ultimately show ?thesis by (simp add: decode_loop.simps [of vs s out] root_def)
qed

lemma two_letters: "a \<in> set file \<Longrightarrow> b \<in> set file \<Longrightarrow> a \<noteq> b \<Longrightarrow> 1 < card (set file)"
  using card_mono [of "set file" "{a, b}"] by simp

text \<open>C21: A file of less than 4 MiB with at least two different bytes, none of them 0xFF, is restored: the
  encoder returns a file, and the decoder returns from it the original bytes.\<close>

theorem huffman_roundtrip:
  assumes "a \<in> set file" "b \<in> set file" "a \<noteq> b" "-1 \<notin> set file" "length file < 2 ^ 22"
  shows "\<exists>enc. Encode file = Some enc \<and> Decode enc = Some file"
proof -
  have n: "1 < card (set file)" by (rule two_letters [OF assms(1-3)])
  have "file \<noteq> []" using assms(1) by auto
  then obtain vs idx cd ds where e: "Encode file = Some (image_of vs (length (concat (map cd file))) ds)"
      "packed ds (concat (map cd file))" "tree_ok vs" "length vs = 2 * card (set file) - 1" "\<forall>c \<in> set file. coded vs idx (card (set file)) c (cd c)"
    by (rule Encode_ok)
  have "length (concat (map cd file)) < 2 ^ 31" by (rule bits_bound [OF e(4,5) assms(5)])
  then obtain pre s where d: "Decode (image_of vs (length (concat (map cd file))) ds) = decode_loop vs s []"
      "reader_ok pre ds (concat (map cd file)) 0 s"
    using Decode_image [OF e(2,3)] by blast
  obtain s' where s': "decode_loop vs s [] = decode_loop vs s' file" "reader_ok pre ds (concat (map cd file)) (length (concat (map cd file))) s'"
    using decode_loop_ok [OF e(3,5) n assms(4) d(2), of "[]" "[]"] by auto
  have "Empty s'" using s'(2) by (simp add: Empty_def reader_ok_def)
  then have "decode_loop vs s' file = Some file" by (simp add: decode_loop.simps [of vs s' "file"])
  then show ?thesis using e(1) d(1) s'(1) by simp
qed

theorem huffman_roundtrip_witness: "\<exists>enc. Encode [104, 117, 102, 102] = Some enc \<and> Decode enc = Some [104, 117, 102, 102]"
  by (rule huffman_roundtrip [of 104 _ 117]) simp_all

lemma Encode_empty: "Encode [] = None"
proof -
  have "build_loop [] [] = ([], [])" by (subst build_loop.simps) simp
  then show ?thesis by (simp add: Encode_def BuildTree_def count_letters_def leaf_nodes_def index_leaves_def make_heap_def)
qed

lemma Encode_single: "\<exists>enc. Encode (replicate (Suc m) c) = Some enc \<and> Decode enc = Some []"
proof -
  define fl where "fl = replicate (Suc m) c"
  have one: "set fl = {c}" "fl \<noteq> []" by (auto simp: fl_def simp del: replicate_Suc)
  obtain vs idx cd ds where e: "Encode fl = Some (image_of vs (length (concat (map cd fl))) ds)"
      "packed ds (concat (map cd fl))" "tree_ok vs" "length vs = 2 * card (set fl) - 1" "\<forall>c \<in> set fl. coded vs idx (card (set fl)) c (cd c)"
    using Encode_ok [OF one(2)] .
  have "cd c = []" using e(4,5) by (simp add: one coded_def)
  then have none: "concat (map cd fl) = []" using one(1) by simp
  obtain pre s where d: "Decode (image_of vs 0 ds) = decode_loop vs s []" "reader_ok pre ds [] 0 s"
    using Decode_image [OF e(2,3)] unfolding none by (metis length_0_conv less_eq_nat.simps(1) zero_less_numeral zero_less_power)
  have "Empty s" using d(2) by (simp add: Empty_def reader_ok_def)
  then have "decode_loop vs s [] = Some []" by (simp add: decode_loop.simps [of vs s "[]"])
  then show ?thesis using e(1) d(1) none unfolding fl_def by simp
qed

lemma Encode_ff:
  assumes f: "a \<in> set file" "-1 \<in> set file" "a \<noteq> -1" "length file < 2 ^ 22"
  shows "\<exists>enc. Encode file = Some enc \<and> Decode enc = None"
proof -
  have n: "1 < card (set file)" by (rule two_letters [OF f(1-3)])
  have "file \<noteq> []" using f(1) by auto
  then obtain vs idx cd ds where e: "Encode file = Some (image_of vs (length (concat (map cd file))) ds)"
      "packed ds (concat (map cd file))" "tree_ok vs" "length vs = 2 * card (set file) - 1" "\<forall>c \<in> set file. coded vs idx (card (set file)) c (cd c)"
    by (rule Encode_ok)
  have "length (concat (map cd file)) < 2 ^ 31" by (rule bits_bound [OF e(4,5) f(4)])
  then obtain pre s where d: "Decode (image_of vs (length (concat (map cd file))) ds) = decode_loop vs s []"
      "reader_ok pre ds (concat (map cd file)) 0 s"
    using Decode_image [OF e(2,3)] by blast
  obtain xs ys where xy: "file = xs @ -1 # ys" "-1 \<notin> set xs" using split_list_first [OF f(2)] by blast
  obtain s' where s': "decode_loop vs s [] = decode_loop vs s' xs" "reader_ok pre ds (concat (map cd file)) (length (concat (map cd xs))) s'"
    using decode_loop_ok [OF e(3) _ n xy(2) d(2), of idx cd "cd (-1) @ concat (map cd ys)" "[]"] e(5) xy(1) by auto
  have "decode_loop vs s' xs = None"
    by (rule decode_loop_stuck [OF e(3) _ n refl s'(2), of idx "cd (-1)" "concat (map cd ys)"]) (use e(5) f(2) xy(1) in auto)
  then show ?thesis using e(1) d(1) s'(1) by simp
qed

text \<open>C40: The files that are not restored.  The empty file fails an assertion.  A file that repeats one byte is
  encoded in no bits and decoded to the empty file.  With a byte 0xFF and another one the decoder takes the
  letter -1 for a compound node and reads outside its vector.\<close>

theorem huffman_failures:
  assumes "a \<in> set file" "-1 \<in> set file" "a \<noteq> -1" "length file < 2 ^ 22"
  shows "Encode [] = None \<and>
    (\<exists>enc. Encode (replicate (Suc m) c) = Some enc \<and> Decode enc = Some []) \<and>
    (\<exists>enc. Encode file = Some enc \<and> Decode enc = None)"
  using Encode_empty Encode_single [of m c] Encode_ff [OF assms] by blast

theorem huffman_failures_witness:
  "(\<exists>enc. Encode [97, 97, 97] = Some enc \<and> Decode enc = Some []) \<and> (\<exists>enc. Encode [97, -1] = Some enc \<and> Decode enc = None)"
proof -
  have "Encode [] = None \<and> (\<exists>enc. Encode (replicate (Suc 2) 97) = Some enc \<and> Decode enc = Some []) \<and>
      (\<exists>enc. Encode [97, -1] = Some enc \<and> Decode enc = None)"
    by (rule huffman_failures [of 97]) simp_all
  then show ?thesis by (simp add: numeral_2_eq_2)
qed

end
