(* ===== verification/Segment_Tree.thy ===== *)
theory Segment_Tree
  imports Prelude "HOL-Library.Monad_Syntax"
begin

text \<open>
  The segment tree for range sums (\<open>segment_tree.cpp\<close>).  Values are 32-bit words, whose addition wraps
  around; a missing child is a null pointer and \<open>None\<close> as a result is its dereference or an access
  outside the vector.
\<close>

section \<open>The program\<close>

datatype node = Node (val: u32) (start: int) (end_ix: int) (left: "node option") (right: "node option")

function createNode :: "u32 list \<Rightarrow> int \<Rightarrow> int \<Rightarrow> node option" where
  "createNode nodes s e =
     (if s < e then do {
        let mid = (s + e) div 2;
        l \<leftarrow> createNode nodes s mid;
        r \<leftarrow> createNode nodes (mid + 1) e;
        Some (Node (val l + val r) s e (Some l) (Some r)) }
      else if 0 \<le> s \<and> nat s < length nodes then Some (Node (nodes ! nat s) s e None None) else None)"
  by pat_completeness auto

termination
  by (relation "measure (\<lambda>(nodes, s, e). nat (e - s))") auto

declare createNode.simps [simp del]

text \<open>The change of the value and the updated node.\<close>

fun update_internal :: "node \<Rightarrow> int \<Rightarrow> u32 \<Rightarrow> (u32 \<times> node) option" where
  "update_internal (Node w s e l r) i v =
     (if s = e \<and> s = i then Some (v - w, Node v s e l r)
      else case r of
        None \<Rightarrow> None
      | Some rn \<Rightarrow>
          if i < start rn then
            (case l of None \<Rightarrow> None | Some ln \<Rightarrow> do { (delta, ln) \<leftarrow> update_internal ln i v; Some (delta, Node (w + delta) s e (Some ln) r) })
          else do { (delta, rn) \<leftarrow> update_internal rn i v; Some (delta, Node (w + delta) s e l (Some rn)) })"

fun sumRange_internal :: "node \<Rightarrow> int \<Rightarrow> int \<Rightarrow> u32 option" where
  "sumRange_internal (Node w s e l r) i j =
     (if i > j then Some 0
      else if s = i \<and> e = j then Some w
      else case r of
        None \<Rightarrow> None
      | Some rn \<Rightarrow>
         (case l of
            None \<Rightarrow> None
          | Some ln \<Rightarrow>
              if j < start rn then sumRange_internal ln i j
              else if i > end_ix ln then sumRange_internal rn i j
              else do { a \<leftarrow> sumRange_internal ln i (end_ix ln); b \<leftarrow> sumRange_internal rn (start rn) j; Some (a + b) }))"

definition SegmentTree :: "u32 list \<Rightarrow> node option" where
  "SegmentTree nodes = createNode nodes 0 (int (length nodes) - 1)"

definition update :: "node \<Rightarrow> int \<Rightarrow> u32 \<Rightarrow> node option" where
  "update t i v = map_option snd (update_internal t i v)"

definition sumRange :: "node \<Rightarrow> int \<Rightarrow> int \<Rightarrow> u32 option" where
  "sumRange t i j = sumRange_internal t i j"

section \<open>Well-formed trees\<close>

fun seg_wf :: "node \<Rightarrow> bool" where
  "seg_wf (Node w s e None None) = (s = e)"
| "seg_wf (Node w s e (Some l) (Some r)) =
     (s < e \<and> w = val l + val r \<and> start l = s \<and> end_ix l = (s + e) div 2 \<and> start r = (s + e) div 2 + 1 \<and> end_ix r = e \<and>
      seg_wf l \<and> seg_wf r)"
| "seg_wf _ = False"

fun leaves :: "node \<Rightarrow> u32 list" where
  "leaves (Node w s e (Some l) (Some r)) = leaves l @ leaves r"
| "leaves (Node w s e _ _) = [w]"

lemma seg_wf_bounds: "seg_wf t \<Longrightarrow> start t \<le> end_ix t"
  by (induction t rule: seg_wf.induct) auto

lemma leaves_wf: "seg_wf t \<Longrightarrow> int (length (leaves t)) = end_ix t - start t + 1 \<and> val t = sum_list (leaves t)"
  by (induction t rule: seg_wf.induct) auto

lemma createNode_ok:
  "0 \<le> s \<Longrightarrow> s \<le> e \<Longrightarrow> e < int (length xs) \<Longrightarrow>
   \<exists>t. createNode xs s e = Some t \<and> seg_wf t \<and> start t = s \<and> end_ix t = e \<and> leaves t = take (nat (e - s + 1)) (drop (nat s) xs)"
proof (induction xs s e rule: createNode.induct)
  case (1 xs s e)
  define m where "m = (s + e) div 2"
  show ?case
  proof (cases "s < e")
    case True
    have m: "s \<le> m" "m < e" using True by (auto simp: m_def)
    obtain l where l: "createNode xs s m = Some l" "seg_wf l" "start l = s" "end_ix l = m" "leaves l = take (nat (m - s + 1)) (drop (nat s) xs)"
      using "1.IH"(1) [OF True m_def] "1.prems" m by auto
    obtain r where r: "createNode xs (m + 1) e = Some r" "seg_wf r" "start r = m + 1" "end_ix r = e"
        "leaves r = take (nat (e - (m + 1) + 1)) (drop (nat (m + 1)) xs)"
      using "1.IH"(2) [OF True m_def l(1)] "1.prems" m by auto
    have c: "createNode xs s e = Some (Node (val l + val r) s e (Some l) (Some r))"
      using True l(1) r(1) by (subst createNode.simps) (simp add: m_def)
    have "nat (e - s + 1) = nat (m - s + 1) + nat (e - (m + 1) + 1)" "nat (m + 1) = nat (m - s + 1) + nat s"
      using m "1.prems" by linarith+
    then have "leaves l @ leaves r = take (nat (e - s + 1)) (drop (nat s) xs)" by (simp only: l(5) r(5) take_add drop_drop)
    then show ?thesis using c True l r by (simp add: m_def)
  next
    case False
    then have e: "s = e" using "1.prems" by simp
    have "createNode xs s e = Some (Node (xs ! nat s) s e None None)" using False "1.prems" by (subst createNode.simps) auto
    moreover have "take 1 (drop (nat s) xs) = [xs ! nat s]" using "1.prems" e by (simp add: take_Suc_conv_app_nth take_Suc hd_drop_conv_nth)
    ultimately show ?thesis using e by simp
  qed
qed

lemma update_ok:
  "seg_wf t \<Longrightarrow> start t \<le> i \<Longrightarrow> i \<le> end_ix t \<Longrightarrow>
   \<exists>d t'. update_internal t i v = Some (d, t') \<and> seg_wf t' \<and> start t' = start t \<and> end_ix t' = end_ix t \<and> val t' = val t + d \<and>
     leaves t' = (leaves t)[nat (i - start t) := v]"
proof (induction t rule: seg_wf.induct)
  case (2 w s e l r)
  define m where "m = (s + e) div 2"
  have wf: "s < e" "w = val l + val r" "start l = s" "end_ix l = m" "start r = m + 1" "end_ix r = e" "seg_wf l" "seg_wf r"
    using "2.prems" by (auto simp: m_def)
  have ll: "length (leaves l) = nat (m - s + 1)" using leaves_wf [OF wf(7)] wf(3,4) by linarith
  show ?case
  proof (cases "i < m + 1")
    case True
    then obtain d l' where u: "update_internal l i v = Some (d, l')" "seg_wf l'" "start l' = s" "end_ix l' = m" "val l' = val l + d"
        "leaves l' = (leaves l)[nat (i - s) := v]"
      using "2.IH"(1) [OF wf(7)] "2.prems" wf by auto
    have "nat (i - s) < length (leaves l)" using ll True "2.prems" by simp
    then show ?thesis using u True wf by (auto simp: m_def list_update_append algebra_simps)
  next
    case False
    then obtain d r' where u: "update_internal r i v = Some (d, r')" "seg_wf r'" "start r' = m + 1" "end_ix r' = e" "val r' = val r + d"
        "leaves r' = (leaves r)[nat (i - (m + 1)) := v]"
      using "2.IH"(2) [OF wf(8)] "2.prems" wf by auto
    have "\<not> nat (i - s) < length (leaves l)" "nat (i - s) - length (leaves l) = nat (i - (m + 1))"
      using False seg_wf_bounds [OF wf(7)] unfolding ll wf(3,4) by linarith+
    then show ?thesis using u False wf by (auto simp: m_def list_update_append algebra_simps)
  qed
qed auto

lemma update_out: "seg_wf t \<Longrightarrow> \<not> (start t \<le> i \<and> i \<le> end_ix t) \<Longrightarrow> update_internal t i v = None"
proof (induction t rule: seg_wf.induct)
  case (2 w s e l r)
  then show ?case using seg_wf_bounds [of l] seg_wf_bounds [of r] by auto
qed auto

lemma sumRange_ok:
  "seg_wf t \<Longrightarrow> start t \<le> i \<Longrightarrow> i \<le> j \<Longrightarrow> j \<le> end_ix t \<Longrightarrow>
   sumRange_internal t i j = Some (sum_list (take (nat (j - i + 1)) (drop (nat (i - start t)) (leaves t))))"
proof (induction t arbitrary: i j rule: seg_wf.induct)
  case (2 w s e l r)
  define m where "m = (s + e) div 2"
  have wf: "s < e" "w = val l + val r" "start l = s" "end_ix l = m" "start r = m + 1" "end_ix r = e" "seg_wf l" "seg_wf r"
    using "2.prems"(1) by (auto simp: m_def)
  have ll: "length (leaves l) = nat (m - s + 1)" "length (leaves r) = nat (e - m)"
    using leaves_wf [OF wf(7)] leaves_wf [OF wf(8)] wf(3-6) by linarith+
  have ij: "s \<le> i" "i \<le> j" "j \<le> e" using "2.prems"(2-4) by simp_all
  have m: "s \<le> m" "m < e" using wf(1) by (auto simp: m_def)
  consider "s = i \<and> e = j" | "\<not> (s = i \<and> e = j)" "j < m + 1" | "\<not> (s = i \<and> e = j)" "i > m" | "\<not> (s = i \<and> e = j)" "i \<le> m" "m < j" by linarith
  then show ?case
  proof cases
    case 1
    then have "length (leaves l @ leaves r) = nat (j - i + 1)" using ll m by simp
    then show ?thesis using 1 ij wf(2) leaves_wf [OF wf(7)] leaves_wf [OF wf(8)] by simp
  next
    case 2
    have r: "sumRange_internal l i j = Some (sum_list (take (nat (j - i + 1)) (drop (nat (i - s)) (leaves l))))"
      using "2.IH"(1) [OF wf(7), of i j] ij 2 wf(3,4) by simp
    have "nat (i - s) + nat (j - i + 1) \<le> length (leaves l)" using 2 ij m unfolding ll by linarith
    then have "take (nat (j - i + 1)) (drop (nat (i - s)) (leaves l @ leaves r)) = take (nat (j - i + 1)) (drop (nat (i - s)) (leaves l))" by simp
    moreover have "sumRange_internal (Node w s e (Some l) (Some r)) i j = sumRange_internal l i j" using 2 ij wf(5) by auto
    ultimately show ?thesis using r by (simp only: leaves.simps node.sel)
  next
    case 3
    have r: "sumRange_internal r i j = Some (sum_list (take (nat (j - i + 1)) (drop (nat (i - (m + 1))) (leaves r))))"
      using "2.IH"(2) [OF wf(8), of i j] ij 3 wf(5,6) by simp
    have "length (leaves l) \<le> nat (i - s)" "nat (i - s) - length (leaves l) = nat (i - (m + 1))" using 3 ij m unfolding ll by linarith+
    then have "drop (nat (i - s)) (leaves l @ leaves r) = drop (nat (i - (m + 1))) (leaves r)" by simp
    moreover have "sumRange_internal (Node w s e (Some l) (Some r)) i j = sumRange_internal r i j" using 3 ij wf(4,5) by auto
    ultimately show ?thesis using r by (simp only: leaves.simps node.sel)
  next
    case 4
    have a: "sumRange_internal l i m = Some (sum_list (take (nat (m - i + 1)) (drop (nat (i - s)) (leaves l))))"
      using "2.IH"(1) [OF wf(7), of i m] ij 4 wf(3,4) by simp
    have b: "sumRange_internal r (m + 1) j = Some (sum_list (take (nat (j - m)) (leaves r)))"
      using "2.IH"(2) [OF wf(8), of "m + 1" j] ij 4 wf(5,6) by simp
    have k: "length (leaves l) - nat (i - s) = nat (m - i + 1)" "nat (i - s) \<le> length (leaves l)" using 4 ij unfolding ll by linarith+
    have n: "nat (j - i + 1) = nat (m - i + 1) + nat (j - m)" using 4 by linarith
    have "take (nat (j - i + 1)) (drop (nat (i - s)) (leaves l @ leaves r)) =
        take (nat (m - i + 1)) (drop (nat (i - s)) (leaves l)) @ take (nat (j - m)) (leaves r)"
      unfolding n using k by simp
    moreover have "sumRange_internal (Node w s e (Some l) (Some r)) i j =
        do { a \<leftarrow> sumRange_internal l i m; b \<leftarrow> sumRange_internal r (m + 1) j; Some (a + b) }" using 4 ij wf(4,5) by auto
    ultimately show ?thesis using a b by (simp only: leaves.simps node.sel) simp
  qed
qed auto

section \<open>Properties\<close>

text \<open>C24: A tree that is built or updated is well-formed: every inner node covers its range in two halves and
  holds the sum of its children.\<close>

theorem segment_tree_well_formed:
  shows "(SegmentTree xs = Some t \<longrightarrow> seg_wf t \<and> start t = 0 \<and> end_ix t = int (length xs) - 1) \<and>
    (seg_wf u \<and> update u i v = Some u' \<longrightarrow> seg_wf u' \<and> start u' = start u \<and> end_ix u' = end_ix u)"
proof -
  have "seg_wf t \<and> start t = 0 \<and> end_ix t = int (length xs) - 1" if c: "SegmentTree xs = Some t"
  proof (cases "xs = []")
    case True
    then show ?thesis using c by (simp add: SegmentTree_def createNode.simps [of "[]" 0 "-1"])
  next
    case False
    then show ?thesis using c createNode_ok [of 0 "int (length xs) - 1" xs] by (auto simp: SegmentTree_def)
  qed
  moreover have "seg_wf u' \<and> start u' = start u \<and> end_ix u' = end_ix u" if "seg_wf u" "update u i v = Some u'"
    using that update_ok [of u i v] update_out [of u i v] by (cases "start u \<le> i \<and> i \<le> end_ix u") (auto simp: update_def)
  ultimately show ?thesis by blast
qed

theorem segment_tree_well_formed_witness:
  "\<exists>t u. SegmentTree [5, 3, 9] = Some t \<and> seg_wf t \<and> update t 1 7 = Some u \<and> seg_wf u"
proof -
  obtain t where t: "SegmentTree [5, 3, 9] = Some t" using createNode_ok [of 0 2 "[5, 3, 9]"] by (auto simp: SegmentTree_def)
  then have w: "seg_wf t" "start t = 0" "end_ix t = 2" using segment_tree_well_formed [of "[5, 3, 9]" t t 0 0 t] by auto
  then obtain u where u: "update t 1 7 = Some u" using update_ok [of t 1 7] by (auto simp: update_def)
  then show ?thesis using t w segment_tree_well_formed [of "[5, 3, 9]" t t 1 7 u] by auto
qed

fun updates :: "(nat \<times> u32) list \<Rightarrow> node \<Rightarrow> node option" where
  "updates [] t = Some t"
| "updates ((i, v) # us) t = Option.bind (update t (int i) v) (updates us)"

text \<open>C23: The tree refines the array: after any sequence of updates inside the array, the sum over a range is
  the sum of that range of the updated array; an update outside the array follows a null pointer.\<close>

theorem segment_tree_refines_array:
  assumes "xs \<noteq> []" "\<forall>(i, v) \<in> set us. i < length xs" "i \<le> j" "j < length xs" "k < 0 \<or> int (length xs) \<le> k"
  shows "\<exists>t t'. SegmentTree xs = Some t \<and> updates us t = Some t' \<and>
    sumRange t' (int i) (int j) = Some (sum_list (take (j - i + 1) (drop i (fold (\<lambda>(i, v) a. a[i := v]) us xs)))) \<and>
    update t' k w = None"
proof -
  have run: "\<exists>t'. updates us t = Some t' \<and> seg_wf t' \<and> start t' = 0 \<and> end_ix t' = int (length ys) - 1 \<and>
      leaves t' = fold (\<lambda>(i, v) a. a[i := v]) us ys"
    if "seg_wf t" "start t = 0" "end_ix t = int (length ys) - 1" "leaves t = ys" "\<forall>(i, v) \<in> set us. i < length ys" for t ys
    using that
  proof (induction us arbitrary: t ys)
    case (Cons u us)
    obtain i v where u: "u = (i, v)" by (cases u)
    obtain d t1 where t1: "update_internal t (int i) v = Some (d, t1)" "seg_wf t1" "start t1 = 0" "end_ix t1 = end_ix t" "leaves t1 = ys[i := v]"
      using update_ok [OF Cons.prems(1), of "int i" v] Cons.prems unfolding u by auto
    then show ?case using Cons.IH [of t1 "ys[i := v]"] Cons.prems unfolding u by (simp add: update_def)
  qed simp
  obtain t where t: "SegmentTree xs = Some t" "seg_wf t" "start t = 0" "end_ix t = int (length xs) - 1" "leaves t = xs"
    using createNode_ok [of 0 "int (length xs) - 1" xs] assms(1) by (auto simp: SegmentTree_def)
  obtain t' where t': "updates us t = Some t'" "seg_wf t'" "start t' = 0" "end_ix t' = int (length xs) - 1"
      "leaves t' = fold (\<lambda>(i, v) a. a[i := v]) us xs"
    using run [OF t(2-5) assms(2)] by blast
  have "nat (int j - int i + 1) = j - i + 1" using assms(3) by simp
  then have "sumRange t' (int i) (int j) = Some (sum_list (take (j - i + 1) (drop i (leaves t'))))"
    using sumRange_ok [OF t'(2), of "int i" "int j"] t'(3,4) assms(3,4) by (simp add: sumRange_def)
  moreover have "update t' k w = None" using update_out [OF t'(2), of k w] t'(3,4) assms(5) by (auto simp: update_def)
  ultimately show ?thesis using t(1) t'(1) unfolding t'(5) by blast
qed

theorem segment_tree_refines_array_witness:
  "\<exists>t t'. SegmentTree [5, 3, 9, 6] = Some t \<and> updates [(1, 7)] t = Some t' \<and> sumRange t' 1 2 = Some 16 \<and> update t' 4 0 = None"
  using segment_tree_refines_array [of "[5, 3, 9, 6]" "[(1, 7)]" 1 2 4 0] by (simp add: numeral_2_eq_2)

end
