(* ===== verification/Lru.thy ===== *)
theory Lru
  imports Containers "HOL-Library.Monad_Syntax"
begin

text \<open>
  The least-recently-used cache (\<open>lru.cpp\<close>): a circular doubly linked list of nodes around a static head,
  and a map from keys to nodes.  The heap maps addresses to nodes, the head has address 0, \<open>new\<close> takes
  the next address and \<open>delete\<close> removes a node, so that a use of a deleted node is \<open>None\<close>.
\<close>

section \<open>The program\<close>

record node =
  key :: int
  val :: int
  prev :: nat
  nxt :: nat

record lru =
  heap :: "nat \<rightharpoonup> node"
  fresh :: nat
  cache :: "(int, nat) omap"

definition MAX_CACHE_SIZE :: nat where
  "MAX_CACHE_SIZE = 5"

definition list_init :: lru where
  "list_init = \<lparr>heap = [0 \<mapsto> \<lparr>key = 0, val = 0, prev = 0, nxt = 0\<rparr>], fresh = 1, cache = []\<rparr>"

definition set_next :: "nat \<Rightarrow> nat \<Rightarrow> lru \<Rightarrow> lru option" where
  "set_next a b s = do { nd \<leftarrow> heap s a; Some (s\<lparr>heap := (heap s)(a \<mapsto> nd\<lparr>nxt := b\<rparr>)\<rparr>) }"

definition set_prev :: "nat \<Rightarrow> nat \<Rightarrow> lru \<Rightarrow> lru option" where
  "set_prev a b s = do { nd \<leftarrow> heap s a; Some (s\<lparr>heap := (heap s)(a \<mapsto> nd\<lparr>prev := b\<rparr>)\<rparr>) }"

definition new_node :: "int \<Rightarrow> int \<Rightarrow> lru \<Rightarrow> nat \<times> lru" where
  "new_node k v s =
     (fresh s, s\<lparr>heap := (heap s)(fresh s \<mapsto> \<lparr>key = k, val = v, prev = fresh s, nxt = fresh s\<rparr>), fresh := fresh s + 1\<rparr>)"

definition find :: "int \<Rightarrow> lru \<Rightarrow> nat option" where
  "find k s = omap_find (cache s) k"

definition remove_from_list :: "nat \<Rightarrow> lru \<Rightarrow> lru option" where
  "remove_from_list n s = do {
     nd \<leftarrow> heap s n;
     s \<leftarrow> set_next (prev nd) (nxt nd) s;
     nd \<leftarrow> heap s n;
     set_prev (nxt nd) (prev nd) s }"

definition link_front :: "nat \<Rightarrow> lru \<Rightarrow> lru option" where
  "link_front n s = do {
     head \<leftarrow> heap s 0;
     s \<leftarrow> set_next n (nxt head) s;
     s \<leftarrow> set_prev n 0 s;
     nd \<leftarrow> heap s n;
     s \<leftarrow> set_next (prev nd) n s;
     nd \<leftarrow> heap s n;
     set_prev (nxt nd) n s }"

definition promote :: "nat \<Rightarrow> lru \<Rightarrow> lru option" where
  "promote n s = do {
     nd \<leftarrow> heap s n;
     s \<leftarrow> (if prev nd \<noteq> n \<and> nxt nd \<noteq> n then remove_from_list n s else Some s);
     link_front n s }"

definition evict :: "lru \<Rightarrow> lru option" where
  "evict s = do {
     head \<leftarrow> heap s 0;
     let tmp = prev head;
     s \<leftarrow> remove_from_list tmp s;
     nd \<leftarrow> heap s tmp;
     Some (s\<lparr>cache := omap_erase (key nd) (cache s), heap := (heap s)(tmp := None)\<rparr>) }"

definition set_val :: "nat \<Rightarrow> int \<Rightarrow> lru \<Rightarrow> lru option" where
  "set_val n v s = do { nd \<leftarrow> heap s n; Some (s\<lparr>heap := (heap s)(n \<mapsto> nd\<lparr>val := v\<rparr>)\<rparr>) }"

definition lru_set :: "int \<Rightarrow> int \<Rightarrow> lru \<Rightarrow> lru option" where
  "lru_set k v s =
     (case find k s of
        None \<Rightarrow>
          (case new_node k v s of (n, s) \<Rightarrow> do {
             s \<leftarrow> (if MAX_CACHE_SIZE \<le> length (cache s) then evict s else Some s);
             promote n (s\<lparr>cache := omap_set k n (cache s)\<rparr>) })
      | Some n \<Rightarrow> do { s \<leftarrow> set_val n v s; promote n s })"

definition lru_get :: "int \<Rightarrow> lru \<Rightarrow> (nat option \<times> lru) option" where
  "lru_get k s =
     (case find k s of
        None \<Rightarrow> Some (None, s)
      | Some n \<Rightarrow> do { s \<leftarrow> promote n s; Some (Some n, s) })"

text \<open>The commands of the main loop: \<open>get\<close> prints the pair that was found.\<close>

datatype cmd = Get int | Set int int

definition exec :: "cmd \<Rightarrow> lru \<Rightarrow> ((int \<times> int) option \<times> lru) option" where
  "exec c s =
     (case c of
        Get k \<Rightarrow> do {
          (r, s) \<leftarrow> lru_get k s;
          (case r of None \<Rightarrow> Some (None, s) | Some n \<Rightarrow> do { nd \<leftarrow> heap s n; Some (Some (key nd, val nd), s) }) }
      | Set k v \<Rightarrow> do { s \<leftarrow> lru_set k v s; Some (None, s) })"

fun run :: "cmd list \<Rightarrow> lru \<Rightarrow> ((int \<times> int) option list \<times> lru) option" where
  "run [] s = Some ([], s)"
| "run (c # cs) s = do { (r, s) \<leftarrow> exec c s; (rs, s) \<leftarrow> run cs s; Some (r # rs, s) }"

section \<open>The specification\<close>

text \<open>A list of pairs, the most recently used one first.\<close>

definition spec_exec :: "cmd \<Rightarrow> (int \<times> int) list \<Rightarrow> (int \<times> int) option \<times> (int \<times> int) list" where
  "spec_exec c xs =
     (case c of
        Get k \<Rightarrow>
          (case map_of xs k of
             None \<Rightarrow> (None, xs)
           | Some v \<Rightarrow> (Some (k, v), (k, v) # filter (\<lambda>e. fst e \<noteq> k) xs))
      | Set k v \<Rightarrow>
          (None, (k, v) # (if map_of xs k = None then take (MAX_CACHE_SIZE - 1) xs else filter (\<lambda>e. fst e \<noteq> k) xs)))"

fun spec_run :: "cmd list \<Rightarrow> (int \<times> int) list \<Rightarrow> (int \<times> int) option list \<times> (int \<times> int) list" where
  "spec_run [] xs = ([], xs)"
| "spec_run (c # cs) xs = (case spec_exec c xs of (r, xs) \<Rightarrow> case spec_run cs xs of (rs, xs) \<Rightarrow> (r # rs, xs))"

section \<open>The linked list\<close>

fun chain :: "(nat \<rightharpoonup> node) \<Rightarrow> nat list \<Rightarrow> bool" where
  "chain h (a # b # r) = (nxt (the (h a)) = b \<and> prev (the (h b)) = a \<and> chain h (b # r))"
| "chain h _ = True"

lemma chain_append: "chain h (xs @ a # ys) \<longleftrightarrow> chain h (xs @ [a]) \<and> chain h (a # ys)"
proof (induction xs)
  case (Cons x xs)
  then show ?case by (cases xs) auto
qed simp

text \<open>A link that is not part of a list may change.\<close>

lemma chain_cong:
  "\<forall>a \<in> set (butlast xs). nxt (the (h' a)) = nxt (the (h a)) \<Longrightarrow> \<forall>a \<in> set (tl xs). prev (the (h' a)) = prev (the (h a)) \<Longrightarrow>
   chain h' xs = chain h xs"
proof (induction h xs rule: chain.induct)
  case (1 h a b r)
  then show ?case by (cases r) auto
qed auto

definition ring :: "lru \<Rightarrow> nat list \<Rightarrow> bool" where
  "ring s as = (chain (heap s) (0 # as @ [0]) \<and> distinct (0 # as) \<and> (\<forall>a \<in> set (0 # as). heap s a \<noteq> None))"

text \<open>Only links differ.\<close>

definition same_data :: "lru \<Rightarrow> lru \<Rightarrow> bool" where
  "same_data s s' = (fresh s' = fresh s \<and> cache s' = cache s \<and> dom (heap s') = dom (heap s) \<and>
     (\<forall>a. key (the (heap s' a)) = key (the (heap s a)) \<and> val (the (heap s' a)) = val (the (heap s a))))"

lemma set_next_eq: "heap s a \<noteq> None \<Longrightarrow> set_next a b s = Some (s\<lparr>heap := (heap s)(a \<mapsto> (the (heap s a))\<lparr>nxt := b\<rparr>)\<rparr>)"
  by (auto simp: set_next_def)

lemma set_prev_eq: "heap s a \<noteq> None \<Longrightarrow> set_prev a b s = Some (s\<lparr>heap := (heap s)(a \<mapsto> (the (heap s a))\<lparr>prev := b\<rparr>)\<rparr>)"
  by (auto simp: set_prev_def)

lemma same_data_refl [simp]: "same_data s s"
  by (simp add: same_data_def)

lemma same_data_trans: "same_data a b \<Longrightarrow> same_data b c \<Longrightarrow> same_data a c"
  by (simp add: same_data_def)

lemma same_data_link:
  "heap s a \<noteq> None \<Longrightarrow> same_data s (s\<lparr>heap := (heap s)(a \<mapsto> (the (heap s a))\<lparr>nxt := b\<rparr>)\<rparr>)"
  "heap s a \<noteq> None \<Longrightarrow> same_data s (s\<lparr>heap := (heap s)(a \<mapsto> (the (heap s a))\<lparr>prev := b\<rparr>)\<rparr>)"
  by (auto simp: same_data_def)

lemma ring_remove:
  assumes "ring s (xs @ n # ys)"
  shows "\<exists>s'. remove_from_list n s = Some s' \<and> ring s' (xs @ ys) \<and> same_data s s' \<and>
    (\<forall>a. a \<notin> set (0 # xs @ ys) \<longrightarrow> heap s' a = heap s a)"
proof -
  obtain xs' p where p: "0 # xs = xs' @ [p]" by (metis append_butlast_last_id list.discI)
  obtain q ys' where q: "ys @ [0] = q # ys'" by (cases "ys @ [0]") auto
  let ?h = "heap s"
  have c: "chain ?h (0 # (xs @ n # ys) @ [0])" and d: "distinct (0 # xs @ n # ys)" and al: "\<forall>a \<in> set (0 # xs @ n # ys). ?h a \<noteq> None"
    using assms unfolding ring_def by auto
  have "0 # (xs @ n # ys) @ [0] = xs' @ p # n # q # ys'" using p q by (metis append_Cons append_assoc append_Nil)
  then have c': "chain ?h (xs' @ [p])" "nxt (the (?h p)) = n" "nxt (the (?h n)) = q" "prev (the (?h n)) = p" "chain ?h (q # ys')"
    using c chain_append [of ?h xs' p "n # q # ys'"] by auto
  have ps: "p \<in> set (0 # xs)" "q \<in> set (0 # ys)" using p q by (metis in_set_conv_decomp, metis Un_iff list.set_intros(1) rotate1.simps(2) set_rotate1)
  then have ne: "p \<noteq> n" "q \<noteq> n" "?h p \<noteq> None" "?h q \<noteq> None" "?h n \<noteq> None" using d al by auto
  define h1 where "h1 = ?h(p \<mapsto> (the (?h p))\<lparr>nxt := q\<rparr>)"
  define h2 where "h2 = h1(q \<mapsto> (the (h1 q))\<lparr>prev := p\<rparr>)"
  obtain nd where nd: "?h n = Some nd" using ne(5) by auto
  have "remove_from_list n s = Some (s\<lparr>heap := h2\<rparr>)"
    using ne nd c'(3,4) by (simp add: remove_from_list_def set_next_eq set_prev_eq h1_def h2_def)
  moreover have "same_data s (s\<lparr>heap := h2\<rparr>)"
    using ne unfolding same_data_def h2_def h1_def by auto
  moreover have links: "nxt (the (h2 a)) = (if a = p then q else nxt (the (?h a)))" "prev (the (h2 a)) = (if a = q then p else prev (the (?h a)))" for a
    by (auto simp: h2_def h1_def)
  have dp: "distinct (xs' @ [p])" "distinct (q # ys')" using d unfolding p [symmetric] q [symmetric] by auto
  have "chain h2 (xs' @ [p])"
  proof -
    have "set (tl (xs' @ [p])) = set xs" unfolding p [symmetric] by simp
    then have "q \<notin> set (tl (xs' @ [p]))" using ps(2) d by auto
    then show ?thesis using c'(1) dp(1) by (subst chain_cong [where h = ?h]) (auto simp: links)
  qed
  moreover have "chain h2 (q # ys')"
  proof -
    have "set (butlast (q # ys')) = set ys" unfolding q [symmetric] by simp
    then have "p \<notin> set (butlast (q # ys'))" using ps(1) d by auto
    then show ?thesis using c'(5) dp(2) by (subst chain_cong [where h = ?h]) (auto simp: links)
  qed
  ultimately have "chain h2 (xs' @ p # q # ys')" using chain_append [of h2 xs' p "q # ys'"] links(1) [of p] links(2) [of q] by simp
  moreover have "xs' @ p # q # ys' = 0 # (xs @ ys) @ [0]" using p q by (metis append_Cons append_assoc append_Nil)
  moreover have "\<forall>a \<in> set (0 # xs @ ys). h2 a \<noteq> None" using al by (auto simp: h2_def h1_def)
  ultimately have "ring (s\<lparr>heap := h2\<rparr>) (xs @ ys)" using d unfolding ring_def by auto
  moreover have "\<forall>a. a \<notin> set (0 # xs @ ys) \<longrightarrow> h2 a = ?h a" using ps by (auto simp: h2_def h1_def)
  ultimately show ?thesis using \<open>remove_from_list n s = _\<close> \<open>same_data s _\<close> by (intro exI [of _ "s\<lparr>heap := h2\<rparr>"]) simp
qed

lemma ring_link_front:
  assumes "ring s as" "n \<notin> set (0 # as)" "heap s n \<noteq> None"
  shows "\<exists>s'. link_front n s = Some s' \<and> ring s' (n # as) \<and> same_data s s'"
proof -
  let ?h = "heap s"
  obtain f r where f: "as @ [0] = f # r" by (cases "as @ [0]") auto
  have c: "chain ?h (f # r)" "nxt (the (?h 0)) = f" and d: "distinct (0 # as)" and al: "\<forall>a \<in> set (0 # as). ?h a \<noteq> None"
    using assms(1) f unfolding ring_def by auto
  have fs: "f \<in> set (0 # as)" using f by (metis Un_iff list.set_intros(1) rotate1.simps(2) set_rotate1)
  then have ne: "f \<noteq> n" "n \<noteq> 0" "?h f \<noteq> None" "?h 0 \<noteq> None" using assms(2) al by auto
  define h1 where "h1 = ?h(n \<mapsto> (the (?h n))\<lparr>nxt := f, prev := 0\<rparr>)"
  define h2 where "h2 = h1(0 \<mapsto> (the (h1 0))\<lparr>nxt := n\<rparr>)"
  define h3 where "h3 = h2(f \<mapsto> (the (h2 f))\<lparr>prev := n\<rparr>)"
  obtain hd where hd: "?h 0 = Some hd" "nxt hd = f" using ne(4) c(2) by auto
  have l: "link_front n s = Some (s\<lparr>heap := h3\<rparr>)"
    using ne hd assms(3) by (simp add: link_front_def set_next_eq set_prev_eq h1_def h2_def h3_def)
  have links: "nxt (the (h3 a)) = (if a = n then f else if a = 0 then n else nxt (the (?h a)))"
    "prev (the (h3 a)) = (if a = f then n else if a = n then 0 else prev (the (?h a)))" for a
    using ne by (auto simp: h3_def h2_def h1_def)
  have "distinct (f # r)" using d unfolding f [symmetric] by auto
  moreover have "set (butlast (f # r)) = set as" "set (f # r) = set (0 # as)" unfolding f [symmetric] by auto
  ultimately have "chain h3 (f # r)"
    using c(1) assms(2) d by (subst chain_cong [where h = ?h]) (auto simp: links)
  then have "chain h3 (0 # (n # as) @ [0])" using ne f by (simp add: links)
  moreover have "\<forall>a \<in> set (0 # n # as). h3 a \<noteq> None" using al by (auto simp: h3_def h2_def h1_def)
  ultimately have "ring (s\<lparr>heap := h3\<rparr>) (n # as)" using d assms(2) unfolding ring_def by auto
  moreover have "same_data s (s\<lparr>heap := h3\<rparr>)" using ne assms(3) unfolding same_data_def h3_def h2_def h1_def by auto
  ultimately show ?thesis using l by blast
qed

section \<open>The invariant\<close>

definition lru_inv :: "lru \<Rightarrow> nat list \<Rightarrow> bool" where
  "lru_inv s as = (ring s as \<and> omap_ok (cache s) \<and> length (cache s) = length as \<and>
     (\<forall>k a. omap_find (cache s) k = Some a \<longleftrightarrow> a \<in> set as \<and> key (the (heap s a)) = k) \<and>
     (\<forall>a. heap s a \<noteq> None \<longrightarrow> a < fresh s))"

definition contents :: "lru \<Rightarrow> nat list \<Rightarrow> (int \<times> int) list" where
  "contents s as = map (\<lambda>a. (key (the (heap s a)), val (the (heap s a)))) as"

lemma length_contents [simp]: "length (contents s as) = length as"
  by (simp add: contents_def)

lemma contents_append [simp]: "contents s (as @ bs) = contents s as @ contents s bs"
  "contents s (a # as) = (key (the (heap s a)), val (the (heap s a))) # contents s as"
  by (simp_all add: contents_def)

lemma same_data_contents: "same_data s s' \<Longrightarrow> contents s' as = contents s as"
  by (simp add: contents_def same_data_def)

lemma length_omap_set:
  "omap_ok m \<Longrightarrow> length (omap_set k v m) = (if omap_find m k = None then Suc (length m) else length m)"
proof (induction k v m rule: omap_set.induct)
  case (2 k v k' v' m)
  have "omap_find m k = None" if "k < k'"
    using that "2.prems" by (auto simp: omap_find_def omap_ok_def map_of_eq_None_iff)
  then show ?case using 2 by (auto simp: omap_ok_def omap_find_def)
qed (simp add: omap_find_def)

lemma length_omap_erase:
  "omap_ok m \<Longrightarrow> omap_find m k \<noteq> None \<Longrightarrow> Suc (length (omap_erase k m)) = length m"
proof (induction m)
  case (Cons e m)
  show ?case
  proof (cases "fst e = k")
    case True
    then have "filter (\<lambda>(k', _). k' \<noteq> k) m = m" using Cons.prems(1) by (auto simp: omap_ok_def filter_id_conv)
    then show ?thesis using True by (cases e) (simp add: omap_erase_def)
  next
    case False
    then show ?thesis using Cons by (cases e) (auto simp: omap_erase_def omap_ok_def omap_find_def)
  qed
qed (simp add: omap_find_def)

lemma inv_relink:
  assumes "lru_inv s as" "same_data s s'" "ring s' as'" "set as' = set as" "length as' = length as"
  shows "lru_inv s' as'"
proof -
  have "heap s' a \<noteq> None \<longleftrightarrow> heap s a \<noteq> None" for a using assms(2) unfolding same_data_def by (metis domIff)
  then show ?thesis using assms unfolding lru_inv_def same_data_def by auto
qed

lemma inv_find:
  assumes "lru_inv s as" "find k s = Some n"
  obtains xs ys where "as = xs @ n # ys" "key (the (heap s n)) = k" "heap s n \<noteq> None"
    "map_of (contents s as) k = Some (val (the (heap s n)))" "filter (\<lambda>e. fst e \<noteq> k) (contents s as) = contents s (xs @ ys)"
proof -
  have n: "n \<in> set as" "key (the (heap s n)) = k" using assms by (auto simp: lru_inv_def find_def)
  obtain xs ys where as: "as = xs @ n # ys" using split_list [OF n(1)] by blast
  have "distinct as" using assms(1) by (simp add: lru_inv_def ring_def)
  then have "a \<noteq> n" if "a \<in> set (xs @ ys)" for a using that as by auto
  then have ne: "key (the (heap s a)) \<noteq> k" if "a \<in> set (xs @ ys)" for a
    using that assms as unfolding lru_inv_def find_def by (metis Un_iff option.inject set_append set_ConsD list.set_intros(2))
  have "map_of (contents s xs) k = None" using ne by (fastforce simp: contents_def map_of_eq_None_iff)
  then have "map_of (contents s as) k = Some (val (the (heap s n)))" using n(2) by (simp add: as map_add_def)
  moreover have "filter (\<lambda>e. fst e \<noteq> k) (contents s as) = contents s (xs @ ys)"
    using ne n(2) by (auto simp: as contents_def filter_id_conv)
  moreover have "heap s n \<noteq> None" using assms(1) n(1) by (auto simp: lru_inv_def ring_def)
  ultimately show thesis using that as n(2) by blast
qed

lemma inv_not_found: "lru_inv s as \<Longrightarrow> find k s = None \<Longrightarrow> map_of (contents s as) k = None"
  unfolding lru_inv_def find_def contents_def map_of_eq_None_iff by force

lemma promote_present:
  assumes "lru_inv s (xs @ n # ys)"
  shows "\<exists>s'. promote n s = Some s' \<and> lru_inv s' (n # xs @ ys) \<and> same_data s s'"
proof -
  have r: "ring s (xs @ n # ys)" using assms by (simp add: lru_inv_def)
  obtain s1 where s1: "remove_from_list n s = Some s1" "ring s1 (xs @ ys)" "same_data s s1" "\<forall>a. a \<notin> set (0 # xs @ ys) \<longrightarrow> heap s1 a = heap s a"
    using ring_remove [OF r] by blast
  obtain nd where nd: "heap s n = Some nd" using r by (auto simp: ring_def)
  have d: "n \<notin> set (0 # xs @ ys)" using r by (auto simp: ring_def)
  obtain xs' p where p: "0 # xs = xs' @ [p]" by (metis append_butlast_last_id list.discI)
  obtain q ys' where q: "ys @ [0] = q # ys'" by (cases "ys @ [0]") auto
  have "0 # (xs @ n # ys) @ [0] = xs' @ p # n # q # ys'" using p q by (metis append_Cons append_assoc append_Nil)
  then have "nxt nd = q" "prev nd = p" using r nd chain_append [of "heap s" xs' p "n # q # ys'"] by (auto simp: ring_def)
  moreover have "p \<in> set (0 # xs)" "q \<in> set (0 # ys)" using p q by (metis in_set_conv_decomp, metis Un_iff list.set_intros(1) rotate1.simps(2) set_rotate1)
  ultimately have "prev nd \<noteq> n" "nxt nd \<noteq> n" using d by auto
  moreover obtain s2 where s2: "link_front n s1 = Some s2" "ring s2 (n # xs @ ys)" "same_data s1 s2"
    using ring_link_front [OF s1(2) d] s1(4) d nd by (metis option.distinct(1))
  ultimately have "promote n s = Some s2" using nd s1(1) by (simp add: promote_def)
  then show ?thesis using inv_relink [OF assms same_data_trans [OF s1(3) s2(3)] s2(2)] same_data_trans [OF s1(3) s2(3)] by auto
qed

lemma promote_new:
  assumes "ring s as" "n \<notin> set (0 # as)" "heap s n = Some nd" "prev nd = n"
  shows "\<exists>s'. promote n s = Some s' \<and> ring s' (n # as) \<and> same_data s s'"
  using ring_link_front [OF assms(1,2)] assms(3,4) by (auto simp: promote_def)

lemma evict_ok:
  assumes "lru_inv s (xs @ [t])"
  shows "\<exists>s'. evict s = Some s' \<and> lru_inv s' xs \<and> fresh s' = fresh s \<and> contents s' xs = contents s xs \<and>
    (\<forall>n. n \<notin> set (0 # xs @ [t]) \<longrightarrow> heap s' n = heap s n)"
proof -
  have r: "ring s (xs @ t # [])" using assms by (simp add: lru_inv_def)
  obtain s1 where s1: "remove_from_list t s = Some s1" "ring s1 xs" "same_data s s1" "\<forall>a. a \<notin> set (0 # xs) \<longrightarrow> heap s1 a = heap s a"
    using ring_remove [OF r] by auto
  have t: "t \<notin> set (0 # xs)" using r by (auto simp: ring_def)
  obtain nd where nd: "heap s t = Some nd" "heap s1 t = Some nd" using r s1(4) t by (auto simp: ring_def)
  obtain hd where hd: "heap s 0 = Some hd" using r by (auto simp: ring_def)
  have "chain (heap s) (t # [0])" using r chain_append [of "heap s" "0 # xs" t "[0]"] by (simp add: ring_def)
  then have p: "prev hd = t" using hd by simp
  define s2 where "s2 = s1\<lparr>cache := omap_erase (key nd) (cache s1), heap := (heap s1)(t := None)\<rparr>"
  have e: "evict s = Some s2" using hd p s1(1) nd by (simp add: evict_def s2_def)
  have "chain (heap s2) (0 # xs @ [0]) = chain (heap s1) (0 # xs @ [0])" using t by (intro chain_cong) (auto simp: s2_def)
  then have r2: "ring s2 xs" using s1(2) t by (auto simp: ring_def s2_def)
  have data: "key (the (heap s2 a)) = key (the (heap s a)) \<and> val (the (heap s2 a)) = val (the (heap s a))" if "a \<noteq> t" for a
    using s1(3) that by (simp add: s2_def same_data_def)
  have inv: "omap_ok (cache s)" "length (cache s) = Suc (length xs)" "\<forall>a. heap s a \<noteq> None \<longrightarrow> a < fresh s"
    "\<And>k a. omap_find (cache s) k = Some a \<longleftrightarrow> a \<in> set (xs @ [t]) \<and> key (the (heap s a)) = k"
    using assms unfolding lru_inv_def by auto
  have c2: "cache s2 = omap_erase (key nd) (cache s)" "fresh s2 = fresh s" using s1(3) by (simp_all add: s2_def same_data_def)
  have kt: "omap_find (cache s) (key nd) = Some t" using inv(4) nd(1) by simp
  have "omap_find (cache s2) k = Some a \<longleftrightarrow> a \<in> set xs \<and> key (the (heap s2 a)) = k" for k a
  proof -
    have "omap_find (cache s2) k = Some a \<longleftrightarrow> k \<noteq> key nd \<and> a \<in> set (xs @ [t]) \<and> key (the (heap s a)) = k"
      using inv(4) by (auto simp: c2 omap_find_erase)
    also have "\<dots> \<longleftrightarrow> a \<in> set xs \<and> key (the (heap s a)) = k" using inv(4) [of k a] kt t nd(1) by auto
    also have "\<dots> \<longleftrightarrow> a \<in> set xs \<and> key (the (heap s2 a)) = k" using data t by (metis list.set_intros(2))
    finally show ?thesis .
  qed
  moreover have "dom (heap s2) \<subseteq> dom (heap s)" using s1(3) by (auto simp: s2_def same_data_def)
  then have "heap s2 a \<noteq> None \<Longrightarrow> heap s a \<noteq> None" for a by blast
  ultimately have "lru_inv s2 xs"
    unfolding lru_inv_def c2 using r2 inv(1-3) length_omap_erase [OF inv(1), of "key nd"] kt by (auto simp: omap_ok_erase)
  moreover have "contents s2 xs = contents s xs" unfolding contents_def using data t by (metis (mono_tags, lifting) list.set_intros(2) map_eq_conv)
  moreover have "\<forall>n. n \<notin> set (0 # xs @ [t]) \<longrightarrow> heap s2 n = heap s n" using s1(4) by (auto simp: s2_def)
  ultimately show ?thesis using e c2(2) by blast
qed

section \<open>The operations refine the specification\<close>

lemma get_refines:
  assumes "lru_inv s as"
  shows "\<exists>r s' as'. exec (Get k) s = Some (r, s') \<and> lru_inv s' as' \<and> length as' = length as \<and>
    spec_exec (Get k) (contents s as) = (r, contents s' as')"
proof (cases "find k s")
  case None
  then show ?thesis using assms inv_not_found [OF assms None] by (auto simp: exec_def lru_get_def spec_exec_def)
next
  case (Some n)
  obtain xs ys where n: "as = xs @ n # ys" "key (the (heap s n)) = k" "heap s n \<noteq> None"
    "map_of (contents s as) k = Some (val (the (heap s n)))" "filter (\<lambda>e. fst e \<noteq> k) (contents s as) = contents s (xs @ ys)"
    using inv_find [OF assms Some] .
  obtain s' where s': "promote n s = Some s'" "lru_inv s' (n # xs @ ys)" "same_data s s'" using promote_present assms unfolding n(1) by blast
  obtain nd where nd: "heap s' n = Some nd" using s'(2) by (auto simp: lru_inv_def ring_def)
  have "key (the (heap s' n)) = k" "val (the (heap s' n)) = val (the (heap s n))" using s'(3) n(2) by (simp_all add: same_data_def)
  then have nd': "key nd = k" "val nd = val (the (heap s n))" using nd by simp_all
  then have "exec (Get k) s = Some (Some (k, val nd), s')" using Some s'(1) nd by (simp add: exec_def lru_get_def)
  then show ?thesis using s'(2) n(1,4,5) nd nd' same_data_contents [OF s'(3)]
    by (intro exI [of _ "Some (k, val nd)"] exI [of _ s'] exI [of _ "n # xs @ ys"]) (simp add: spec_exec_def)
qed

lemma set_present_refines:
  assumes "lru_inv s as" "find k s = Some n"
  shows "\<exists>s' as'. lru_set k v s = Some s' \<and> lru_inv s' as' \<and> length as' = length as \<and>
    contents s' as' = (k, v) # filter (\<lambda>e. fst e \<noteq> k) (contents s as) \<and> map_of (contents s as) k \<noteq> None"
proof -
  obtain xs ys where n: "as = xs @ n # ys" "key (the (heap s n)) = k" "heap s n \<noteq> None"
    "map_of (contents s as) k = Some (val (the (heap s n)))" "filter (\<lambda>e. fst e \<noteq> k) (contents s as) = contents s (xs @ ys)"
    using inv_find [OF assms] .
  obtain nd where nd: "heap s n = Some nd" using n(3) by blast
  define s1 where "s1 = s\<lparr>heap := (heap s)(n \<mapsto> nd\<lparr>val := v\<rparr>)\<rparr>"
  have "chain (heap s1) (0 # as @ [0]) = chain (heap s) (0 # as @ [0])" using nd by (intro chain_cong) (auto simp: s1_def)
  then have "ring s1 as" using assms(1) by (auto simp: lru_inv_def ring_def s1_def)
  moreover have "key (the (heap s1 a)) = key (the (heap s a))" for a using nd by (simp add: s1_def)
  ultimately have i: "lru_inv s1 (xs @ n # ys)" using assms(1) nd unfolding lru_inv_def n(1) [symmetric] by (simp add: s1_def)
  obtain s' where s': "promote n s1 = Some s'" "lru_inv s' (n # xs @ ys)" "same_data s1 s'" using promote_present [OF i] by blast
  have "n \<notin> set (xs @ ys)" using assms(1) n(1) by (auto simp: lru_inv_def ring_def)
  then have "contents s1 (xs @ ys) = contents s (xs @ ys)" by (auto simp: contents_def s1_def)
  moreover have "key nd = k" using n(2) nd by simp
  ultimately have c: "contents s' (n # xs @ ys) = (k, v) # contents s (xs @ ys)"
    unfolding same_data_contents [OF s'(3)] by (simp add: s1_def)
  have "lru_set k v s = Some s'" using assms(2) nd s'(1) by (simp add: lru_set_def set_val_def s1_def)
  then show ?thesis using s'(2) c n(1,4,5) by (intro exI [of _ s'] exI [of _ "n # xs @ ys"]) simp
qed

lemma inv_new_node:
  assumes "lru_inv s as" "new_node k v s = (n, s1)"
  shows "lru_inv s1 as" "n \<notin> set (0 # as)" "heap s1 n = Some \<lparr>key = k, val = v, prev = n, nxt = n\<rparr>" "cache s1 = cache s"
    "contents s1 as = contents s as"
proof -
  have s1: "n = fresh s" "s1 = s\<lparr>heap := (heap s)(n \<mapsto> \<lparr>key = k, val = v, prev = n, nxt = n\<rparr>), fresh := n + 1\<rparr>"
    using assms(2) by (auto simp: new_node_def)
  have "heap s n = None" using assms(1) s1(1) unfolding lru_inv_def by blast
  moreover have "\<forall>a \<in> set (0 # as). heap s a \<noteq> None" using assms(1) unfolding lru_inv_def ring_def by blast
  ultimately show out: "n \<notin> set (0 # as)" by blast
  have "chain (heap s1) (0 # as @ [0]) = chain (heap s) (0 # as @ [0])" using out by (intro chain_cong) (auto simp: s1)
  then have "ring s1 as" using assms(1) by (auto simp: lru_inv_def ring_def s1)
  moreover have "\<And>a. a \<in> set as \<Longrightarrow> heap s1 a = heap s a" using out by (auto simp: s1)
  ultimately show "lru_inv s1 as" using assms(1) out unfolding lru_inv_def by (auto simp: s1 less_SucI)
  show "contents s1 as = contents s as" using out by (auto simp: contents_def s1)
qed (use assms(2) in \<open>auto simp: new_node_def\<close>)

lemma inv_insert:
  assumes "lru_inv s as" "n \<notin> set (0 # as)" "heap s n = Some \<lparr>key = k, val = v, prev = n, nxt = n\<rparr>" "find k s = None"
  shows "\<exists>s'. promote n (s\<lparr>cache := omap_set k n (cache s)\<rparr>) = Some s' \<and> lru_inv s' (n # as) \<and> contents s' (n # as) = (k, v) # contents s as"
proof -
  let ?s = "s\<lparr>cache := omap_set k n (cache s)\<rparr>"
  have "ring ?s as" using assms(1) by (simp add: lru_inv_def ring_def)
  then obtain s' where s': "promote n ?s = Some s'" "ring s' (n # as)" "same_data ?s s'"
    using promote_new [of ?s as n] assms(2,3) by auto
  have "dom (heap s') = dom (heap s)" using s'(3) by (simp add: same_data_def)
  then have "heap s' a \<noteq> None \<longleftrightarrow> heap s a \<noteq> None" for a by blast
  moreover have "key (the (heap s' a)) = key (the (heap s a))" for a using s'(3) by (simp add: same_data_def)
  moreover have "cache s' = omap_set k n (cache s)" "fresh s' = fresh s" using s'(3) by (simp_all add: same_data_def)
  moreover have none: "omap_find (cache s) k = None" using assms(4) by (simp add: find_def)
  moreover have "\<forall>a \<in> set as. key (the (heap s a)) \<noteq> k" using assms(1) none unfolding lru_inv_def by (metis option.distinct(1))
  ultimately have "lru_inv s' (n # as)"
    using assms(1-3) s'(2) unfolding lru_inv_def by (auto simp: omap_find_set length_omap_set omap_ok_set)
  moreover have "contents s' (n # as) = (k, v) # contents s as"
    using assms(3) same_data_contents [OF s'(3), of "n # as"] by (simp add: contents_def)
  ultimately show ?thesis using s'(1) by blast
qed

lemma set_new_refines:
  assumes "lru_inv s as" "length as \<le> MAX_CACHE_SIZE" "find k s = None"
  shows "\<exists>s' as'. lru_set k v s = Some s' \<and> lru_inv s' as' \<and> length as' \<le> MAX_CACHE_SIZE \<and>
    contents s' as' = (k, v) # take (MAX_CACHE_SIZE - 1) (contents s as)"
proof -
  obtain n s1 where n: "new_node k v s = (n, s1)" by (cases "new_node k v s")
  note i = inv_new_node [OF assms(1) n]
  have len: "length (cache s1) = length as" using i(1) by (simp add: lru_inv_def)
  show ?thesis
  proof (cases "MAX_CACHE_SIZE \<le> length as")
    case False
    then obtain s' where s': "promote n (s1\<lparr>cache := omap_set k n (cache s1)\<rparr>) = Some s'" "lru_inv s' (n # as)"
        "contents s' (n # as) = (k, v) # contents s1 as"
      using inv_insert [OF i(1-3)] assms(3) i(4) by (auto simp: find_def)
    then show ?thesis using False n len assms(3) i(5) by (intro exI [of _ s'] exI [of _ "n # as"]) (auto simp: lru_set_def)
  next
    case True
    then have l5: "length as = MAX_CACHE_SIZE" using assms(2) by simp
    then obtain xs t where as: "as = xs @ [t]" by (cases as rule: rev_cases) (auto simp: MAX_CACHE_SIZE_def)
    obtain s2 where s2: "evict s1 = Some s2" "lru_inv s2 xs" "contents s2 xs = contents s1 xs"
        "\<forall>n. n \<notin> set (0 # xs @ [t]) \<longrightarrow> heap s2 n = heap s1 n"
      using evict_ok i(1) unfolding as by blast
    have n2: "n \<notin> set (0 # xs)" "heap s2 n = Some \<lparr>key = k, val = v, prev = n, nxt = n\<rparr>" using i(2,3) s2(4) unfolding as by auto
    have "find k s2 = None"
    proof (rule ccontr)
      assume "find k s2 \<noteq> None"
      then obtain a where "a \<in> set xs" "key (the (heap s2 a)) = k" using s2(2) by (auto simp: lru_inv_def find_def)
      then have "k \<in> fst ` set (contents s2 xs)" by (force simp: contents_def)
      then have "k \<in> fst ` set (contents s as)" using s2(3) i(5) as by auto
      then show False using inv_not_found [OF assms(1,3)] by (simp add: map_of_eq_None_iff)
    qed
    then obtain s' where s': "promote n (s2\<lparr>cache := omap_set k n (cache s2)\<rparr>) = Some s'" "lru_inv s' (n # xs)"
        "contents s' (n # xs) = (k, v) # contents s2 xs"
      using inv_insert [OF s2(2) n2] by blast
    have "contents s2 xs = take (MAX_CACHE_SIZE - 1) (contents s as)"
      using s2(3) i(5) l5 unfolding as by simp
    then show ?thesis using True n len assms(3) s2(1) s' l5 as
      by (intro exI [of _ s'] exI [of _ "n # xs"]) (auto simp: lru_set_def)
  qed
qed

lemma exec_refines:
  assumes "lru_inv s as" "length as \<le> MAX_CACHE_SIZE"
  shows "\<exists>r s' as'. exec c s = Some (r, s') \<and> lru_inv s' as' \<and> length as' \<le> MAX_CACHE_SIZE \<and>
    spec_exec c (contents s as) = (r, contents s' as')"
proof (cases c)
  case (Get k)
  then show ?thesis using get_refines [OF assms(1), of k] assms(2) by force
next
  case (Set k v)
  show ?thesis
  proof (cases "find k s")
    case None
    then show ?thesis using set_new_refines [OF assms None, of v] inv_not_found [OF assms(1) None] Set
      by (force simp: exec_def spec_exec_def)
  next
    case (Some n)
    then show ?thesis using set_present_refines [OF assms(1) Some, of v] Set assms(2) by (force simp: exec_def spec_exec_def)
  qed
qed

text \<open>C22: The linked list and map refine a list of at most five pairs ordered by last use: every sequence of
  commands runs without touching a deleted node and prints what the list prints.\<close>

theorem lru_refines_list: "\<exists>rs s as. run cs list_init = Some (rs, s) \<and> spec_run cs [] = (rs, contents s as) \<and> lru_inv s as \<and> length as \<le> 5"
proof -
  have all: "\<exists>rs s' as'. run cs s = Some (rs, s') \<and> spec_run cs (contents s as) = (rs, contents s' as') \<and> lru_inv s' as' \<and>
      length as' \<le> MAX_CACHE_SIZE" if "lru_inv s as" "length as \<le> MAX_CACHE_SIZE" for s as
    using that
  proof (induction cs arbitrary: s as)
    case (Cons c cs)
    obtain r s1 as1 where e: "exec c s = Some (r, s1)" "lru_inv s1 as1" "length as1 \<le> MAX_CACHE_SIZE"
        "spec_exec c (contents s as) = (r, contents s1 as1)"
      using exec_refines [OF Cons.prems] by blast
    then show ?case using Cons.IH [OF e(2,3)] by auto
  qed auto
  have "lru_inv list_init []" by (auto simp: lru_inv_def ring_def list_init_def omap_find_def omap_ok_def)
  then show ?thesis using all [of list_init "[]"] by (auto simp: contents_def MAX_CACHE_SIZE_def)
qed

end
