(* ===== verification/Bplus_Tree.thy ===== *)
theory Bplus_Tree
  imports Main "HOL-Library.Monad_Syntax"
begin

text \<open>
  The B+ tree of \<open>b+tree/b+tree.c\<close>.  An array of a node is the list of its cells in use, so \<open>nkeys\<close> is the
  length of \<open>keys\<close>; moving cells becomes taking and appending lists.  \<open>None\<close> is a failed assertion or an
  access outside an array.  The links between neighbouring leaves are not modelled.
\<close>

section \<open>The program\<close>

datatype btree_node =
  leaf_node (keys: "int list") (vals: "int list")
| index_node (keys: "int list") (child: "btree_node list")

record btree =
  root :: btree_node
  degree :: nat

abbreviation nkeys :: "btree_node \<Rightarrow> nat" where
  "nkeys n \<equiv> length (keys n)"

definition is_leaf_node :: "btree_node \<Rightarrow> bool" where
  "is_leaf_node n = (case n of leaf_node _ _ \<Rightarrow> True | index_node _ _ \<Rightarrow> False)"

definition btree_new :: "nat \<Rightarrow> btree" where
  "btree_new t = \<lparr>root = leaf_node [] [], degree = t\<rparr>"

text \<open>The loop that runs down from the last key; the result is \<open>i + 1\<close>.\<close>

fun down_to :: "int list \<Rightarrow> int \<Rightarrow> nat \<Rightarrow> nat" where
  "down_to ks k 0 = 0"
| "down_to ks k (Suc i) = (if k < ks ! i then down_to ks k i else Suc i)"

text \<open>Split of child \<open>ci\<close> of the node with keys \<open>ks\<close> and children \<open>cs\<close>.\<close>

definition btree_split :: "nat \<Rightarrow> int list \<Rightarrow> btree_node list \<Rightarrow> nat \<Rightarrow> int list \<times> btree_node list" where
  "btree_split t ks cs ci =
     (let (old, new) =
        (case cs ! ci of
           leaf_node sk sv \<Rightarrow>
             (leaf_node (take (t - 1) sk) (take (t - 1) sv),
              leaf_node (take t (drop (t - 1) sk)) (take t (drop (t - 1) sv)))
         | index_node sk sc \<Rightarrow>
             (index_node (take (t - 1) sk) (take t sc),
              index_node (take (t - 1) (drop t sk)) (take t (drop t sc))))
      in (take ci ks @ [keys (cs ! ci) ! (t - 1)] @ drop ci ks, take ci cs @ [old, new] @ drop (Suc ci) cs))"

primrec height :: "btree_node \<Rightarrow> nat" where
  "height (leaf_node ks vs) = 0"
| "height (index_node ks cs) = Suc (fold max (map height cs) 0)"

definition descend :: "nat \<Rightarrow> int list \<Rightarrow> btree_node list \<Rightarrow> int \<Rightarrow> int list \<times> btree_node list \<times> nat" where
  "descend t ks cs k =
     (let i = down_to ks k (length ks)
      in if nkeys (cs ! i) = 2 * t - 1
         then (case btree_split t ks cs i of (ks, cs) \<Rightarrow> (ks, cs, if k \<ge> ks ! i then i + 1 else i))
         else (ks, cs, i))"

lemma fold_max_start: "a \<le> fold max xs (a :: nat)"
proof (induction xs arbitrary: a)
  case (Cons x xs)
  have "a \<le> max x a" by simp
  also have "\<dots> \<le> fold max xs (max x a)" by (rule Cons.IH)
  finally show ?case by simp
qed simp

lemma fold_max_ge: "x \<in> set xs \<Longrightarrow> x \<le> fold max xs (a :: nat)"
proof (induction xs arbitrary: a)
  case (Cons y xs)
  then show ?case using fold_max_start [of "max y a" xs] by auto
qed simp

lemma fold_max_le: "a \<le> b \<Longrightarrow> \<forall>x \<in> set xs. x \<le> b \<Longrightarrow> fold max xs (a :: nat) \<le> b"
  by (induction xs arbitrary: a) auto

lemma height_child: "c \<in> set cs \<Longrightarrow> height c < height (index_node ks cs)"
  using fold_max_ge [of "height c" "map height cs" 0] by simp

lemma height_sub: "set cs' \<subseteq> set cs \<Longrightarrow> height (index_node ks' cs') \<le> height (index_node ks cs)"
  using fold_max_le [of 0 "fold max (map height cs) 0" "map height cs'"] fold_max_ge [of _ "map height cs" 0] by auto

lemma height_split:
  assumes "btree_split t ks cs i = (ks', cs')" "i < length cs" "c \<in> set cs'"
  shows "height c < height (index_node ks cs)"
proof -
  have i: "cs ! i \<in> set cs" using assms(2) by simp
  have sub: "set (take t (drop t sc)) \<subseteq> set sc" "set (take t sc) \<subseteq> set sc" for sc :: "btree_node list"
    by (auto dest: in_set_takeD in_set_dropD)
  have "c \<in> set cs \<or> height c \<le> height (cs ! i)"
    using assms(1,3) height_sub [OF sub(1)] height_sub [OF sub(2)]
    by (auto simp: btree_split_def Let_def split: btree_node.splits dest: in_set_takeD in_set_dropD)
  then show ?thesis using height_child [OF i, of ks] height_child [of c cs ks] by auto
qed

lemma height_descend:
  assumes "descend t ks cs k = (ks', cs', i)" "down_to ks k (length ks) < length cs" "i < length cs'"
  shows "height (cs' ! i) < height (index_node ks cs)"
proof (cases "nkeys (cs ! down_to ks k (length ks)) = 2 * t - 1")
  case True
  obtain ks1 cs1 where s: "btree_split t ks cs (down_to ks k (length ks)) = (ks1, cs1)" by (cases "btree_split t ks cs (down_to ks k (length ks))")
  then have "cs' = cs1" using assms(1) True by (simp add: descend_def Let_def)
  then show ?thesis using height_split [OF s assms(2)] assms(3) by simp
next
  case False
  then show ?thesis using assms height_child by (simp add: descend_def Let_def)
qed

function btree_insert_internal :: "nat \<Rightarrow> btree_node \<Rightarrow> int \<Rightarrow> int \<Rightarrow> btree_node option" where
  "btree_insert_internal t (leaf_node ks vs) k v =
     (let i = down_to ks k (length ks)
      in Some (leaf_node (take i ks @ [k] @ drop i ks) (take i vs @ [v] @ drop i vs)))"
| "btree_insert_internal t (index_node ks cs) k v =
     (if down_to ks k (length ks) < length cs
      then let (ks', cs', i) = descend t ks cs k
           in if i < length cs'
              then do { c \<leftarrow> btree_insert_internal t (cs' ! i) k v; Some (index_node ks' (cs'[i := c])) }
              else None
      else None)"
  by pat_completeness auto

termination
  by (relation "measure (\<lambda>(t, n, k, v). height n)") (auto dest!: height_descend [OF sym])

definition btree_insert :: "btree \<Rightarrow> int \<Rightarrow> int \<Rightarrow> btree option" where
  "btree_insert bt k v =
     (if nkeys (root bt) = 2 * degree bt - 1
      then case btree_split (degree bt) [] [root bt] 0 of (ks, cs) \<Rightarrow>
        do { r \<leftarrow> btree_insert_internal (degree bt) (index_node ks cs) k v; Some (bt\<lparr>root := r\<rparr>) }
      else do { r \<leftarrow> btree_insert_internal (degree bt) (root bt) k v; Some (bt\<lparr>root := r\<rparr>) })"

text \<open>Cells move from a neighbour \<open>from\<close> to the child \<open>me\<close> that has too few keys.\<close>

definition redistribute :: "nat \<Rightarrow> int list \<Rightarrow> btree_node list \<Rightarrow> nat \<Rightarrow> nat \<Rightarrow> (int list \<times> btree_node list) option" where
  "redistribute t ks cs me from =
     (let me_node = cs ! me; borrow_node = cs ! from;
          mk = keys me_node; bk = keys borrow_node;
          nborrow = (nkeys me_node + nkeys borrow_node) div 2 - nkeys me_node;
          pkey_idx = (if me < from then me else from)
      in if \<not> (nkeys me_node < t - 1 \<and> t - 1 < nkeys borrow_node \<and> nborrow < nkeys borrow_node) then None
         else case (me_node, borrow_node) of
           (leaf_node _ mv, leaf_node _ bv) \<Rightarrow>
             if me < from
             then Some (ks[pkey_idx := bk ! nborrow],
                        cs[me := leaf_node (mk @ take nborrow bk) (mv @ take nborrow bv),
                           from := leaf_node (drop nborrow bk) (drop nborrow bv)])
             else let start = nkeys borrow_node - nborrow; mk' = drop start bk @ mk
                  in Some (ks[pkey_idx := mk' ! 0],
                           cs[me := leaf_node mk' (drop start bv @ mv), from := leaf_node (take start bk) (take start bv)])
         | (index_node _ mc, index_node _ bc) \<Rightarrow>
             if me < from
             then Some (ks[pkey_idx := bk ! (nborrow - 1)],
                        cs[me := index_node (mk @ [ks ! pkey_idx] @ take (nborrow - 1) bk) (mc @ take (nborrow - 1) bc @ [bc ! (nborrow - 1)]),
                           from := index_node (drop nborrow bk) (drop nborrow bc)])
             else let start = nkeys borrow_node - nborrow
                  in Some (ks[pkey_idx := if nborrow - 1 > 0 then bk ! (start - 1) else bk ! start],
                           cs[me := index_node (take (nborrow - 1) (drop start bk) @ [ks ! pkey_idx] @ mk)
                                               (take (nborrow - 1) (drop start bc) @ [bc ! nkeys borrow_node] @ mc),
                              from := index_node (take start bk) (take (start + 1) bc)])
         | _ \<Rightarrow> None)"

definition merge :: "int list \<Rightarrow> btree_node list \<Rightarrow> nat \<Rightarrow> nat \<Rightarrow> (int list \<times> btree_node list) option" where
  "merge ks cs me to_merge =
     (let left = min me to_merge; right = max me to_merge
      in case (cs ! left, cs ! right) of
           (leaf_node lk lv, leaf_node rk rv) \<Rightarrow>
             Some (take left ks @ drop (left + 1) ks, take left cs @ [leaf_node (lk @ rk) (lv @ rv)] @ drop (left + 2) cs)
         | (index_node lk lc, index_node rk rc) \<Rightarrow>
             Some (take left ks @ drop (left + 1) ks,
                   take left cs @ [index_node (lk @ [ks ! left] @ rk) (lc @ rc)] @ drop (left + 2) cs)
         | _ \<Rightarrow> None)"

definition balance :: "nat \<Rightarrow> int list \<Rightarrow> btree_node list \<Rightarrow> nat \<Rightarrow> (int list \<times> btree_node list) option" where
  "balance t ks cs ci =
     (if ci > 0 \<and> nkeys (cs ! (ci - 1)) > t - 1 then redistribute t ks cs ci (ci - 1)
      else if ci < length ks \<and> nkeys (cs ! (ci + 1)) > t - 1 then redistribute t ks cs ci (ci + 1)
      else if ci > 0 then merge ks cs ci (ci - 1)
      else if ci < length ks then merge ks cs ci (ci + 1)
      else None)"

definition delete_entry :: "nat \<Rightarrow> int list \<Rightarrow> int list \<Rightarrow> int list \<times> int list" where
  "delete_entry i ks vs = (take i ks @ drop (i + 1) ks, take i vs @ drop (i + 1) vs)"

text \<open>The node after the deletion, and whether it has too few keys.\<close>

function btree_delete_internal :: "nat \<Rightarrow> btree_node \<Rightarrow> int \<Rightarrow> (btree_node \<times> bool) option" where
  "btree_delete_internal t (leaf_node ks vs) k =
     (let i = down_to ks k (length ks)
      in if i > 0 \<and> k = ks ! (i - 1)
         then case delete_entry (i - 1) ks vs of (ks, vs) \<Rightarrow> Some (leaf_node ks vs, length ks < t - 1)
         else Some (leaf_node ks vs, False))"
| "btree_delete_internal t (index_node ks cs) k =
     (let i = down_to ks k (length ks)
      in if i < length cs then do {
           (c, tmp) \<leftarrow> btree_delete_internal t (cs ! i) k;
           (ks, cs) \<leftarrow> (if tmp then balance t ks (cs[i := c]) i else Some (ks, cs[i := c]));
           Some (index_node ks cs, length ks < t - 1) }
         else None)"
  by pat_completeness auto

termination
  by (relation "measure (\<lambda>(t, n, k). height n)") (simp_all del: height.simps add: height_child)

definition btree_delete :: "btree \<Rightarrow> int \<Rightarrow> btree option" where
  "btree_delete bt k = do {
     (r, _) \<leftarrow> btree_delete_internal (degree bt) (root bt) k;
     Some (bt\<lparr>root := (if nkeys r = 0 \<and> \<not> is_leaf_node r then child r ! 0 else r)\<rparr>) }"

text \<open>The loop that runs up from the first key.\<close>

fun up_to :: "int list \<Rightarrow> int \<Rightarrow> nat" where
  "up_to [] k = 0"
| "up_to (x # ks) k = (if k \<ge> x then Suc (up_to ks k) else 0)"

function btree_get :: "btree_node \<Rightarrow> int \<Rightarrow> (btree_node \<times> nat) option" where
  "btree_get (leaf_node ks vs) k =
     (let i = up_to ks k in if i > 0 \<and> ks ! (i - 1) = k then Some (leaf_node ks vs, i - 1) else None)"
| "btree_get (index_node ks cs) k = (let i = up_to ks k in if i < length cs then btree_get (cs ! i) k else None)"
  by pat_completeness auto

termination
  by (relation "measure (\<lambda>(n, k). height n)") (simp_all del: height.simps add: height_child)

section \<open>Entries and separators in order\<close>

text \<open>A tree is read from left to right as a list of entries and separating keys.\<close>

datatype item = E int int | S int

fun before :: "item \<Rightarrow> item \<Rightarrow> bool" where
  "before (E x _) (E y _) = (x < y)"
| "before (E x _) (S k) = (x < k)"
| "before (S k) (E x _) = (k \<le> x)"
| "before (S k) (S k') = (k \<le> k')"

abbreviation ordered :: "item list \<Rightarrow> bool" where
  "ordered xs \<equiv> sorted_wrt before xs"

fun weave :: "int list \<Rightarrow> item list list \<Rightarrow> item list" where
  "weave (k # ks) (e # es) = e @ S k # weave ks es"
| "weave [] (e # es) = e"
| "weave ks [] = []"

primrec items :: "btree_node \<Rightarrow> item list" where
  "items (leaf_node ks vs) = map2 E ks vs"
| "items (index_node ks cs) = weave ks (map items cs)"

lemma before_sep: "before a (E s w) \<Longrightarrow> before a (S s)" "before (E s w) b \<Longrightarrow> before (S s) b"
  by (cases a; simp) (cases b; simp)

lemma before_nav:
  "before a (S s) \<Longrightarrow> s \<le> k \<Longrightarrow> before a (E k v)" "before (S s) b \<Longrightarrow> k < s \<Longrightarrow> before (E k v) b"
  by (cases a; simp) (cases b; simp)

lemma weave_append:
  "length es1 = Suc (length ks1) \<Longrightarrow> weave (ks1 @ u # ks2) (es1 @ es2) = weave ks1 es1 @ S u # weave ks2 es2"
proof (induction ks1 es1 rule: weave.induct)
  case (1 k ks e es)
  then show ?case by simp
next
  case (2 e es)
  then show ?case by simp
qed simp

text \<open>The list of a node around one child.\<close>

definition lpart :: "int list \<Rightarrow> btree_node list \<Rightarrow> item list" where
  "lpart ks cs = concat (map2 (\<lambda>c k. items c @ [S k]) cs ks)"

definition rpart :: "int list \<Rightarrow> btree_node list \<Rightarrow> item list" where
  "rpart ks cs = concat (map2 (\<lambda>k c. S k # items c) ks cs)"

lemma lpart_simps [simp]: "lpart [] [] = []" "lpart (k # ks) (c # cs) = items c @ S k # lpart ks cs"
  by (simp_all add: lpart_def)

lemma rpart_simps [simp]: "rpart [] cs = []" "rpart (k # ks) (c # cs) = S k # items c @ rpart ks cs"
  by (simp_all add: rpart_def)

lemma lpart_snoc: "length cs = length ks \<Longrightarrow> lpart (ks @ [k]) (cs @ [c]) = lpart ks cs @ items c @ [S k]"
  by (simp add: lpart_def)

lemma items_first: "length cs = length ks \<Longrightarrow> items (index_node ks (c # cs)) = items c @ rpart ks cs"
proof (induction ks arbitrary: c cs)
  case (Cons k ks)
  then show ?case by (cases cs) auto
qed simp

lemma items_focus:
  "length cs1 = length ks1 \<Longrightarrow> length cs2 = length ks2 \<Longrightarrow>
   items (index_node (ks1 @ ks2) (cs1 @ c # cs2)) = lpart ks1 cs1 @ items c @ rpart ks2 cs2"
proof (induction ks1 arbitrary: cs1)
  case Nil
  then show ?case using items_first [of cs2 ks2 c] by simp
next
  case (Cons k ks1)
  then obtain c1 cs1' where "cs1 = c1 # cs1'" by (cases cs1) auto
  then show ?case using Cons by simp
qed

lemma focus_split:
  assumes "length cs = Suc (length ks)" "i \<le> length ks"
  obtains ks1 ks2 cs1 c cs2 where "ks = ks1 @ ks2" "cs = cs1 @ c # cs2" "length ks1 = i" "length cs1 = i" "length cs2 = length ks2"
proof (rule that)
  show "ks = take i ks @ drop i ks" by simp
  show "cs = take i cs @ cs ! i # drop (Suc i) cs" using assms by (intro id_take_nth_drop) simp
qed (use assms in auto)

lemma ordered_context:
  assumes "ordered (A @ X @ B)" "ordered Y"
    "\<And>y. y \<in> set Y \<Longrightarrow> y \<in> set X \<or> (\<exists>s w. y = S s \<and> E s w \<in> set X) \<or> (\<forall>a \<in> set A. before a y) \<and> (\<forall>b \<in> set B. before y b)"
  shows "ordered (A @ Y @ B)"
proof -
  have x: "before a x" "before x b" if "a \<in> set A" "x \<in> set X" "b \<in> set B" for a x b
    using assms(1) that by (auto simp: sorted_wrt_append)
  have "(\<forall>a \<in> set A. before a y) \<and> (\<forall>b \<in> set B. before y b)" if "y \<in> set Y" for y
    using assms(1,3) that before_sep by (fastforce simp: sorted_wrt_append)
  then show ?thesis using assms(1,2) by (auto simp: sorted_wrt_append)
qed

section \<open>Shape\<close>

text \<open>All leaves are at depth \<open>h\<close>, and every node below this one has between \<open>t - 1\<close> and \<open>2 t - 1\<close> keys.\<close>

fun shape :: "nat \<Rightarrow> nat \<Rightarrow> btree_node \<Rightarrow> bool" where
  "shape t 0 (leaf_node ks vs) = (length vs = length ks)"
| "shape t (Suc h) (index_node ks cs) =
     (length cs = Suc (length ks) \<and> (\<forall>c \<in> set cs. shape t h c \<and> t - 1 \<le> nkeys c \<and> nkeys c \<le> 2 * t - 1))"
| "shape t _ _ = False"

section \<open>Searching\<close>

definition nav :: "int \<Rightarrow> int list \<Rightarrow> nat \<Rightarrow> bool" where
  "nav k ks i = (i \<le> length ks \<and> (0 < i \<longrightarrow> ks ! (i - 1) \<le> k) \<and> (i < length ks \<longrightarrow> k < ks ! i))"

lemma nav_down_to: "nav k ks (down_to ks k (length ks))"
proof -
  have "n \<le> length ks \<Longrightarrow> (n < length ks \<longrightarrow> k < ks ! n) \<Longrightarrow> nav k ks (down_to ks k n)" for n
    by (induction ks k n rule: down_to.induct) (auto simp: nav_def)
  then show ?thesis by simp
qed

lemma nav_up_to: "nav k ks (up_to ks k)"
proof (induction ks k rule: up_to.induct)
  case (2 x ks k)
  then show ?case by (auto simp: nav_def nth_Cons split: nat.splits)
qed (simp add: nav_def)

lemma nav_items:
  assumes "nav k (ks1 @ ks2) (length ks1)" "length cs1 = length ks1" "length cs2 = length ks2"
    "ordered (lpart ks1 cs1 @ X @ rpart ks2 cs2)"
  shows "(\<forall>a \<in> set (lpart ks1 cs1). before a (E k v)) \<and> (\<forall>b \<in> set (rpart ks2 cs2). before (E k v) b)"
proof
  show "\<forall>a \<in> set (lpart ks1 cs1). before a (E k v)"
  proof (cases ks1 rule: rev_cases)
    case (snoc ks s)
    then obtain cs c where cs: "cs1 = cs @ [c]" "length cs = length ks" using assms(2) by (cases cs1 rule: rev_cases) auto
    have s: "s \<le> k" using assms(1) snoc by (simp add: nav_def nth_append)
    have "ordered ((lpart ks cs @ items c) @ [S s])" using assms(4) snoc cs by (auto simp: lpart_snoc sorted_wrt_append)
    then show ?thesis using s before_nav(1) [of _ s k v] snoc cs by (auto simp: lpart_snoc sorted_wrt_append)
  qed (use assms(2) in simp)
  show "\<forall>b \<in> set (rpart ks2 cs2). before (E k v) b"
  proof (cases ks2)
    case (Cons s ks)
    then obtain c cs where cs: "cs2 = c # cs" using assms(3) by (cases cs2) auto
    have s: "k < s" using assms(1) Cons by (simp add: nav_def nth_append)
    then show ?thesis using assms(4) before_nav(2) [of s _ k v] Cons cs by (auto simp: sorted_wrt_append)
  qed simp
qed

text \<open>The position in a leaf.\<close>

lemma nav_leaf:
  assumes "nav k ks i" "length vs = length ks" "ordered (map2 E ks vs)" "j < length ks"
  shows "j < i \<Longrightarrow> ks ! j \<le> k" "i \<le> j \<Longrightarrow> k < ks ! j"
proof -
  have lt: "ks ! a < ks ! b" if "a < b" "b < length ks" for a b
    using sorted_wrt_nth_less [OF assms(3) that(1)] that assms(2) by simp
  show "ks ! j \<le> k" if "j < i"
  proof (cases "j = i - 1")
    case False
    then have "j < i - 1" "i - 1 < length ks" using that assms(1) by (auto simp: nav_def)
    then show ?thesis using lt [of j "i - 1"] assms(1) that by (auto simp: nav_def)
  qed (use that assms(1) in \<open>auto simp: nav_def\<close>)
  show "i \<le> j \<Longrightarrow> k < ks ! j" using assms(1,4) lt [of i j] by (cases "j = i") (auto simp: nav_def)
qed

lemma in_items_leaf: "length vs = length ks \<Longrightarrow> E k v \<in> set (map2 E ks vs) \<longleftrightarrow> (\<exists>j < length ks. ks ! j = k \<and> vs ! j = v)"
  by (auto simp: set_zip image_iff)

lemma leaf_missing:
  assumes nav: "nav k ks i" and l: "length vs = length ks" and o: "ordered (map2 E ks vs)" and no: "\<not> (0 < i \<and> ks ! (i - 1) = k)"
  shows "E k v \<notin> set (map2 E ks vs)"
proof
  assume "E k v \<in> set (map2 E ks vs)"
  then obtain j where j: "j < length ks" "ks ! j = k" using in_items_leaf [OF l] by blast
  then have "j < i" using nav_leaf(2) [OF nav l o j(1)] by (meson linorder_not_le order_less_irrefl)
  moreover have "j \<noteq> i - 1" using no j(2) \<open>j < i\<close> by auto
  ultimately have "j < i - 1" "i - 1 < length ks" using nav by (auto simp: nav_def)
  then have "ks ! j < ks ! (i - 1)" using sorted_wrt_nth_less [OF o, of j "i - 1"] l by simp
  then show False using j(2) nav \<open>j < i\<close> by (auto simp: nav_def)
qed

lemma get_ok:
  "shape t h n \<Longrightarrow> ordered (items n) \<Longrightarrow>
   (case btree_get n k of
      None \<Rightarrow> \<forall>v. E k v \<notin> set (items n)
    | Some (l, slot) \<Rightarrow> is_leaf_node l \<and> slot < nkeys l \<and> keys l ! slot = k \<and> E k (vals l ! slot) \<in> set (items n))"
proof (induction t h n rule: shape.induct)
  case (1 t ks vs)
  define i where "i = up_to ks k"
  have l: "length vs = length ks" and o: "ordered (map2 E ks vs)" using 1 by auto
  have nav: "nav k ks i" using nav_up_to by (simp add: i_def)
  show ?case
  proof (cases "0 < i \<and> ks ! (i - 1) = k")
    case True
    then have "i - 1 < length ks" using nav by (auto simp: nav_def)
    moreover have "E k (vs ! (i - 1)) \<in> set (map2 E ks vs)" using True calculation in_items_leaf [OF l] by blast
    ultimately show ?thesis using True l by (simp add: i_def [symmetric] Let_def is_leaf_node_def)
  next
    case False
    then have "E k v \<notin> set (map2 E ks vs)" for v using leaf_missing [OF nav l o] by blast
    then show ?thesis using False by (simp add: i_def [symmetric] Let_def)
  qed
next
  case (2 t h ks cs)
  define i where "i = up_to ks k"
  have nav: "nav k ks i" using nav_up_to by (simp add: i_def)
  have "length cs = Suc (length ks)" "i \<le> length ks" using "2.prems"(1) nav by (auto simp: nav_def)
  then obtain ks1 ks2 cs1 c cs2 where f: "ks = ks1 @ ks2" "cs = cs1 @ c # cs2" "length ks1 = i" "length cs1 = i" "length cs2 = length ks2"
    by (rule focus_split)
  have it: "items (index_node ks cs) = lpart ks1 cs1 @ items c @ rpart ks2 cs2" using items_focus f by metis
  have o: "ordered (lpart ks1 cs1 @ items c @ rpart ks2 cs2)" using "2.prems"(2) it by simp
  have out: "E k v \<notin> set (lpart ks1 cs1) \<and> E k v \<notin> set (rpart ks2 cs2)" for v
    using nav_items [of k ks1 ks2 cs1 cs2 "items c" v] nav f o by fastforce
  have g: "btree_get (index_node ks cs) k = btree_get c k" using f i_def by (simp add: Let_def nth_append)
  have "c \<in> set cs" "shape t h c" "ordered (items c)" using "2.prems"(1) f o by (auto simp: sorted_wrt_append)
  then show ?case using "2.IH" [of c] out unfolding g it by (auto split: option.splits)
qed auto

section \<open>Insertion\<close>

text \<open>What an insertion does to the items; a separator may appear where an entry is.\<close>

definition adds :: "item list \<Rightarrow> int \<Rightarrow> int \<Rightarrow> item list \<Rightarrow> bool" where
  "adds xs k v ys = (ordered ys \<and> (\<forall>a b. E a b \<in> set ys \<longleftrightarrow> E a b \<in> set xs \<or> a = k \<and> b = v) \<and>
     (\<forall>s. S s \<in> set ys \<longrightarrow> S s \<in> set xs \<or> (\<exists>b. E s b \<in> set xs)))"

definition respaces :: "item list \<Rightarrow> item list \<Rightarrow> bool" where
  "respaces xs ys = (ordered ys \<and> (\<forall>a b. E a b \<in> set ys \<longleftrightarrow> E a b \<in> set xs) \<and>
     (\<forall>s. S s \<in> set ys \<longrightarrow> S s \<in> set xs \<or> (\<exists>b. E s b \<in> set xs)))"

lemma respaces_refl: "ordered xs \<Longrightarrow> respaces xs xs"
  by (simp add: respaces_def)

lemma respaces_context:
  assumes "respaces X Y" "ordered (A @ X @ B)"
  shows "respaces (A @ X @ B) (A @ Y @ B)"
proof -
  have "ordered (A @ Y @ B)"
  proof (rule ordered_context [OF assms(2)])
    fix y assume "y \<in> set Y"
    then show "y \<in> set X \<or> (\<exists>s w. y = S s \<and> E s w \<in> set X) \<or> (\<forall>a \<in> set A. before a y) \<and> (\<forall>b \<in> set B. before y b)"
      using assms(1) by (cases y rule: item.exhaust) (auto simp: respaces_def)
  qed (use assms(1) in \<open>simp add: respaces_def\<close>)
  then show ?thesis using assms(1) by (auto simp: respaces_def)
qed

lemma adds_context:
  assumes "adds X k v Y" "ordered (A @ X @ B)" "\<forall>a \<in> set A. before a (E k v)" "\<forall>b \<in> set B. before (E k v) b"
  shows "adds (A @ X @ B) k v (A @ Y @ B)"
proof -
  have "ordered (A @ Y @ B)"
  proof (rule ordered_context [OF assms(2)])
    fix y assume "y \<in> set Y"
    then show "y \<in> set X \<or> (\<exists>s w. y = S s \<and> E s w \<in> set X) \<or> (\<forall>a \<in> set A. before a y) \<and> (\<forall>b \<in> set B. before y b)"
      using assms(1,3,4) by (cases y rule: item.exhaust) (auto simp: adds_def)
  qed (use assms(1) in \<open>simp add: adds_def\<close>)
  then show ?thesis using assms(1) by (auto simp: adds_def)
qed

lemma respaces_adds: "respaces X Y \<Longrightarrow> adds Y k v Z \<Longrightarrow> adds X k v Z"
  unfolding respaces_def adds_def by blast

lemma respaces_insert_sep:
  assumes "ordered (Y @ E z w # Z)"
  shows "respaces (Y @ E z w # Z) (Y @ S z # E z w # Z)"
  using assms before_sep(1) [of _ z w] before_sep(2) [of z w] unfolding respaces_def by (auto simp: sorted_wrt_append)

text \<open>The two halves of a full child.\<close>

definition halves :: "nat \<Rightarrow> btree_node \<Rightarrow> btree_node \<times> btree_node" where
  "halves t c =
     (case c of
        leaf_node sk sv \<Rightarrow>
          (leaf_node (take (t - 1) sk) (take (t - 1) sv), leaf_node (take t (drop (t - 1) sk)) (take t (drop (t - 1) sv)))
      | index_node sk sc \<Rightarrow>
          (index_node (take (t - 1) sk) (take t sc), index_node (take (t - 1) (drop t sk)) (take t (drop t sc))))"

lemma btree_split_halves:
  assumes "length ks1 = i" "length cs1 = i" "halves t c = (a, b)"
  shows "btree_split t (ks1 @ ks2) (cs1 @ c # cs2) i = (ks1 @ keys c ! (t - 1) # ks2, cs1 @ a # b # cs2)"
  using assms by (auto simp: btree_split_def halves_def Let_def nth_append split: btree_node.splits)

lemma halves_ok:
  assumes "shape t h c" "nkeys c = 2 * t - 1" "2 \<le> t" "ordered (items c)" "halves t c = (a, b)"
  shows "shape t h a \<and> shape t h b \<and> nkeys a = t - 1 \<and> t - 1 \<le> nkeys b \<and> nkeys b \<le> t \<and>
    respaces (items c) (items a @ S (keys c ! (t - 1)) # items b)"
proof (cases c)
  case (leaf_node sk sv)
  have h: "h = 0" "length sv = length sk" using assms(1) leaf_node by (cases h; simp)+
  have l: "length sk = 2 * t - 1" using assms(2) leaf_node by simp
  define Y where "Y = map2 E (take (t - 1) sk) (take (t - 1) sv)"
  define Z where "Z = map2 E (drop (t - 1) sk) (drop (t - 1) sv)"
  have ab: "a = leaf_node (take (t - 1) sk) (take (t - 1) sv)" "b = leaf_node (drop (t - 1) sk) (drop (t - 1) sv)"
    using assms(5) leaf_node l h(2) by (auto simp: halves_def)
  have c: "items c = Y @ Z" using leaf_node by (simp add: Y_def Z_def flip: map_append take_zip drop_zip)
  have "drop (t - 1) sk = sk ! (t - 1) # drop t sk" "drop (t - 1) sv = sv ! (t - 1) # drop t sv"
    using l h(2) assms(3) Cons_nth_drop_Suc [of "t - 1" sk] Cons_nth_drop_Suc [of "t - 1" sv] by simp_all
  then obtain w Z' where z: "Z = E (sk ! (t - 1)) w # Z'" by (simp add: Z_def)
  have "items a = Y" "items b = Z" by (simp_all add: ab Y_def Z_def)
  then have "respaces (items c) (items a @ S (keys c ! (t - 1)) # items b)"
    using respaces_insert_sep [of Y "sk ! (t - 1)" w Z'] assms(4) unfolding c z by (simp add: leaf_node z)
  then show ?thesis using h l assms(3) by (auto simp: ab)
next
  case (index_node sk sc)
  obtain h' where h: "h = Suc h'" using assms(1) index_node by (cases h) auto
  have l: "length sk = 2 * t - 1" "length sc = 2 * t" using assms(1-3) index_node h by auto
  have ab: "a = index_node (take (t - 1) sk) (take t sc)" "b = index_node (drop t sk) (drop t sc)"
    using assms(5) index_node l by (auto simp: halves_def)
  have sk: "sk = take (t - 1) sk @ sk ! (t - 1) # drop t sk" using l assms(3) id_take_nth_drop [of "t - 1" sk] by simp
  have "items c = weave (take (t - 1) sk @ sk ! (t - 1) # drop t sk) (map items (take t sc) @ map items (drop t sc))"
    using index_node sk by (simp flip: map_append)
  also have "\<dots> = items a @ S (sk ! (t - 1)) # items b" using l assms(3) by (subst weave_append) (auto simp: ab)
  finally have "respaces (items c) (items a @ S (keys c ! (t - 1)) # items b)" using assms(4) index_node respaces_refl by simp
  moreover have "shape t h a" "shape t h b" using assms(1,3) index_node l h by (auto simp: ab dest!: in_set_takeD in_set_dropD)
  ultimately show ?thesis using l assms(3) by (auto simp: ab)
qed

lemma insert_leaf:
  assumes "length vs = length ks" "ordered (map2 E ks vs)" "\<forall>b. E k b \<notin> set (map2 E ks vs)" "nav k ks i"
  shows "adds (map2 E ks vs) k v (map2 E (take i ks @ [k] @ drop i ks) (take i vs @ [v] @ drop i vs))"
proof -
  define Y where "Y = map2 E (take i ks) (take i vs)"
  define Z where "Z = map2 E (drop i ks) (drop i vs)"
  have yz: "map2 E ks vs = Y @ Z" by (simp add: Y_def Z_def flip: map_append take_zip drop_zip)
  have "map2 E (take i ks @ [k] @ drop i ks) (take i vs @ [v] @ drop i vs) = Y @ E k v # Z" using assms(1) by (simp add: Y_def Z_def)
  moreover have "adds [] k v [E k v]" by (simp add: adds_def)
  moreover have "before a (E k v)" if a: "a \<in> set Y" for a
  proof -
    obtain j where j: "j < i" "j < length ks" "a = E (ks ! j) (vs ! j)" using a assms(1) by (auto simp: Y_def set_zip)
    then have "ks ! j \<le> k" using nav_leaf(1) [OF assms(4,1,2)] by blast
    moreover have "ks ! j \<noteq> k" using assms(3) in_items_leaf [OF assms(1)] j(2) by blast
    ultimately show ?thesis using j by simp
  qed
  moreover have "before (E k v) b" if b: "b \<in> set Z" for b
  proof -
    obtain j where jz: "j < length Z" "b = Z ! j" using b by (metis in_set_conv_nth)
    then have j: "i + j < length ks" "b = E (ks ! (i + j)) (vs ! (i + j))" using assms(1) by (simp_all add: Z_def)
    then show ?thesis using nav_leaf(2) [OF assms(4,1,2) j(1)] by simp
  qed
  ultimately show ?thesis using adds_context [of "[]" k v "[E k v]" Y Z] assms(2) unfolding yz by simp
qed

lemma descend_ok:
  assumes "2 \<le> t" "shape t (Suc h) (index_node ks cs)" "ordered (items (index_node ks cs))" "descend t ks cs k = (ks', cs', i')"
  shows "shape t (Suc h) (index_node ks' cs') \<and> nav k ks' i' \<and> nkeys (cs' ! i') < 2 * t - 1 \<and>
    respaces (items (index_node ks cs)) (items (index_node ks' cs')) \<and> length ks \<le> length ks' \<and> length ks' \<le> Suc (length ks)"
proof -
  define i where "i = down_to ks k (length ks)"
  have nav: "nav k ks i" unfolding i_def by (rule nav_down_to)
  have len: "length cs = Suc (length ks)" "i \<le> length ks" using assms(2) nav by (auto simp: nav_def)
  then obtain ks1 ks2 cs1 c cs2 where f: "ks = ks1 @ ks2" "cs = cs1 @ c # cs2" "length ks1 = i" "length cs1 = i" "length cs2 = length ks2"
    by (rule focus_split)
  have ci: "cs ! i = c" using f by (simp add: nth_append)
  have all: "\<And>x. x \<in> set cs \<Longrightarrow> shape t h x \<and> t - 1 \<le> nkeys x \<and> nkeys x \<le> 2 * t - 1" using assms(2) by simp
  show ?thesis
  proof (cases "nkeys c = 2 * t - 1")
    case False
    then have "ks' = ks" "cs' = cs" "i' = i" using assms(4) ci by (auto simp: descend_def i_def [symmetric] Let_def)
    moreover have "nkeys c < 2 * t - 1" using False all [of c] f(2) by simp
    ultimately show ?thesis using assms(2,3) nav ci respaces_refl by simp
  next
    case True
    obtain a b where ab: "halves t c = (a, b)" by (cases "halves t c")
    define u where "u = keys c ! (t - 1)"
    have it: "items (index_node ks cs) = lpart ks1 cs1 @ items c @ rpart ks2 cs2" using items_focus f by metis
    then have "ordered (items c)" using assms(3) by (simp add: sorted_wrt_append)
    then have h: "shape t h a" "shape t h b" "nkeys a = t - 1" "t - 1 \<le> nkeys b" "nkeys b \<le> t"
        "respaces (items c) (items a @ S u # items b)"
      using halves_ok [OF _ True assms(1) _ ab] all [of c] f(2) by (auto simp: u_def)
    have s: "btree_split t ks cs i = (ks1 @ u # ks2, cs1 @ a # b # cs2)" unfolding f(1,2) u_def by (rule btree_split_halves [OF f(3,4) ab])
    then have e: "ks' = ks1 @ u # ks2" "cs' = cs1 @ a # b # cs2" "i' = (if k \<ge> u then i + 1 else i)"
      using assms(4) ci True f(3) by (auto simp: descend_def i_def [symmetric] Let_def nth_append split: if_splits)
    have "items (index_node ks' cs') = lpart ks1 cs1 @ items a @ rpart (u # ks2) (b # cs2)"
      unfolding e using f by (intro items_focus) auto
    then have "items (index_node ks' cs') = lpart ks1 cs1 @ (items a @ S u # items b) @ rpart ks2 cs2" by simp
    then have r: "respaces (items (index_node ks cs)) (items (index_node ks' cs'))"
      using respaces_context [OF h(6), of "lpart ks1 cs1" "rpart ks2 cs2"] assms(3) it by simp
    have "nav k ks' i'" using nav f(1,3) unfolding e nav_def by (auto simp: nth_append nth_Cons split: nat.splits if_splits)
    moreover have "shape t (Suc h) (index_node ks' cs')" using h(1-5) all assms(1) f unfolding e by auto
    moreover have "nkeys (cs' ! i') < 2 * t - 1" using h(3-5) assms(1) f(4) unfolding e by (auto simp: nth_append)
    ultimately show ?thesis using r f(1) e(1) by simp
  qed
qed

lemma insert_ok:
  assumes "2 \<le> t" "shape t h n" "ordered (items n)" "nkeys n < 2 * t - 1" "\<forall>b. E k b \<notin> set (items n)"
  shows "\<exists>n'. btree_insert_internal t n k v = Some n' \<and> shape t h n' \<and> nkeys n \<le> nkeys n' \<and> nkeys n' \<le> Suc (nkeys n) \<and>
    adds (items n) k v (items n')"
  using assms(2-5)
proof (induction h arbitrary: n)
  case 0
  then obtain ks vs where n: "n = leaf_node ks vs" "length vs = length ks" by (cases n) auto
  have "down_to ks k (length ks) \<le> length ks" using nav_down_to [of k ks] by (simp add: nav_def)
  then show ?case using insert_leaf [OF n(2) _ _ nav_down_to, of k v] 0 n by (simp add: Let_def)
next
  case (Suc h)
  then obtain ks cs where n: "n = index_node ks cs" by (cases n) auto
  obtain ks' cs' i where d: "descend t ks cs k = (ks', cs', i)" by (metis prod_cases3)
  have o: "shape t (Suc h) (index_node ks' cs')" "nav k ks' i" "nkeys (cs' ! i) < 2 * t - 1"
      "respaces (items n) (items (index_node ks' cs'))" "length ks \<le> length ks'" "length ks' \<le> Suc (length ks)"
    using descend_ok [OF assms(1) Suc.prems(1) [unfolded n] Suc.prems(2) [unfolded n] d] unfolding n by blast+
  have len: "length cs' = Suc (length ks')" "i \<le> length ks'" using o(1,2) by (auto simp: nav_def)
  then obtain ks1 ks2 cs1 c cs2 where f: "ks' = ks1 @ ks2" "cs' = cs1 @ c # cs2" "length ks1 = i" "length cs1 = i" "length cs2 = length ks2"
    by (rule focus_split)
  have ci: "cs' ! i = c" using f by (simp add: nth_append)
  have it: "items (index_node ks' cs') = lpart ks1 cs1 @ items c @ rpart ks2 cs2" using items_focus f by metis
  have ord: "ordered (lpart ks1 cs1 @ items c @ rpart ks2 cs2)" using o(4) it by (simp add: respaces_def)
  have new: "E k b \<notin> set (items (index_node ks' cs'))" for b using o(4) Suc.prems(4) by (simp add: respaces_def)
  have child_ok: "shape t h c" "ordered (items c)" "nkeys c < 2 * t - 1" "\<forall>b. E k b \<notin> set (items c)"
    using o(1,3) ord new ci f(2) unfolding it by (simp_all add: sorted_wrt_append)
  obtain c' where c': "btree_insert_internal t c k v = Some c'" "shape t h c'" "nkeys c \<le> nkeys c'" "nkeys c' \<le> Suc (nkeys c)"
      "adds (items c) k v (items c')"
    using Suc.IH [OF child_ok] by blast
  let ?n' = "index_node ks' (cs1 @ c' # cs2)"
  have "items ?n' = lpart ks1 cs1 @ items c' @ rpart ks2 cs2" unfolding f(1) using f by (intro items_focus) auto
  then have "adds (items (index_node ks' cs')) k v (items ?n')"
    using adds_context [OF c'(5) ord] nav_items [of k ks1 ks2 cs1 cs2 "items c" v] o(2) f ord it by simp
  then have "adds (items n) k v (items ?n')" using respaces_adds o(4) by blast
  moreover have "shape t (Suc h) ?n'" using o(1,3) c'(2-4) f ci by auto
  moreover have "down_to ks k (length ks) < length cs" using nav_down_to [of k ks] Suc.prems(1) n by (simp add: nav_def)
  then have "btree_insert_internal t n k v = Some ?n'" using n d c'(1) ci len f(2,4) by (simp add: list_update_append)
  ultimately show ?case using o(5,6) n by auto
qed

text \<open>The invariant of a tree.\<close>

definition btree_ok :: "btree \<Rightarrow> bool" where
  "btree_ok bt = (2 \<le> degree bt \<and> ordered (items (root bt)) \<and> nkeys (root bt) \<le> 2 * degree bt - 1 \<and>
     (is_leaf_node (root bt) \<or> 1 \<le> nkeys (root bt)) \<and> (\<exists>h. shape (degree bt) h (root bt)))"

definition entries :: "btree \<Rightarrow> (int \<times> int) set" where
  "entries bt = {(k, v). E k v \<in> set (items (root bt))}"

lemma shape_leaf: "shape t h n \<Longrightarrow> is_leaf_node n \<longleftrightarrow> h = 0"
  by (cases n; cases h) (auto simp: is_leaf_node_def)

lemma btree_new_ok: "2 \<le> t \<Longrightarrow> btree_ok (btree_new t) \<and> entries (btree_new t) = {}"
  by (auto simp: btree_ok_def btree_new_def entries_def is_leaf_node_def intro!: exI [of _ 0])

lemma btree_insert_ok:
  assumes "btree_ok bt" "\<forall>b. (k, b) \<notin> entries bt"
  obtains bt' where "btree_insert bt k v = Some bt'" "btree_ok bt'" "degree bt' = degree bt" "entries bt' = insert (k, v) (entries bt)"
proof -
  define t where "t = degree bt"
  obtain h where b: "2 \<le> t" "ordered (items (root bt))" "nkeys (root bt) \<le> 2 * t - 1" "shape t h (root bt)"
      "is_leaf_node (root bt) \<or> 1 \<le> nkeys (root bt)" "\<forall>x. E k x \<notin> set (items (root bt))"
    using assms by (auto simp: btree_ok_def entries_def t_def)
  show thesis
  proof (cases "nkeys (root bt) = 2 * t - 1")
    case False
    then obtain n' where n': "btree_insert_internal t (root bt) k v = Some n'" "shape t h n'" "nkeys (root bt) \<le> nkeys n'"
        "nkeys n' \<le> Suc (nkeys (root bt))" "adds (items (root bt)) k v (items n')"
      using insert_ok [OF b(1,4,2) _ b(6)] b(3) by (metis le_neq_implies_less)
    show thesis
    proof (rule that [of "bt\<lparr>root := n'\<rparr>"])
      show "btree_insert bt k v = Some (bt\<lparr>root := n'\<rparr>)" using False n'(1) by (simp add: btree_insert_def t_def)
      show "btree_ok (bt\<lparr>root := n'\<rparr>)" using n' b False shape_leaf [OF b(4)] shape_leaf [OF n'(2)]
        by (auto simp: btree_ok_def adds_def t_def)
      show "entries (bt\<lparr>root := n'\<rparr>) = insert (k, v) (entries bt)" using n'(5) by (auto simp: entries_def adds_def)
    qed simp
  next
    case True
    obtain x y where xy: "halves t (root bt) = (x, y)" by (cases "halves t (root bt)")
    define u where "u = keys (root bt) ! (t - 1)"
    have h: "shape t h x" "shape t h y" "nkeys x = t - 1" "t - 1 \<le> nkeys y" "nkeys y \<le> t" "respaces (items (root bt)) (items x @ S u # items y)"
      using halves_ok [OF b(4) True b(1,2) xy] by (auto simp: u_def)
    have s: "btree_split t [] [root bt] 0 = ([u], [x, y])" using btree_split_halves [of "[]" 0 "[]" t "root bt" x y "[]" "[]"] xy by (simp add: u_def)
    let ?r = "index_node [u] [x, y]"
    have r: "shape t (Suc h) ?r" "ordered (items ?r)" "\<forall>a. E k a \<notin> set (items ?r)" using h b(1,6) by (auto simp: respaces_def)
    have "nkeys ?r < 2 * t - 1" using b(1) by simp
    then obtain n' where n': "btree_insert_internal t ?r k v = Some n'" "shape t (Suc h) n'" "nkeys ?r \<le> nkeys n'"
        "nkeys n' \<le> Suc (nkeys ?r)" "adds (items ?r) k v (items n')"
      using insert_ok [OF b(1) r(1,2) _ r(3), of v] by blast
    show thesis
    proof (rule that [of "bt\<lparr>root := n'\<rparr>"])
      show "btree_insert bt k v = Some (bt\<lparr>root := n'\<rparr>)" using True n'(1) s by (simp add: btree_insert_def t_def)
      show "btree_ok (bt\<lparr>root := n'\<rparr>)" using n' b(1) by (auto simp: btree_ok_def adds_def t_def)
      show "entries (bt\<lparr>root := n'\<rparr>) = insert (k, v) (entries bt)"
        using h(6) n'(5) by (auto simp: entries_def adds_def respaces_def)
    qed simp
  qed
qed

section \<open>Deletion\<close>

text \<open>Deletion is correct for the degree 2 that the program uses.\<close>

definition removes :: "item list \<Rightarrow> int \<Rightarrow> item list \<Rightarrow> bool" where
  "removes xs k ys = (ordered ys \<and> (\<forall>a b. E a b \<in> set ys \<longleftrightarrow> E a b \<in> set xs \<and> a \<noteq> k) \<and>
     (\<forall>s. S s \<in> set ys \<longrightarrow> S s \<in> set xs \<or> (\<exists>b. E s b \<in> set xs)))"

lemma respaces_trans: "respaces X Y \<Longrightarrow> respaces Y Z \<Longrightarrow> respaces X Z"
  unfolding respaces_def by blast

lemma removes_respaces: "removes X k Y \<Longrightarrow> respaces Y Z \<Longrightarrow> removes X k Z"
  unfolding removes_def respaces_def by blast

lemma removes_context:
  assumes "removes X k Y" "ordered (A @ X @ B)" "\<forall>b. E k b \<notin> set A \<and> E k b \<notin> set B"
  shows "removes (A @ X @ B) k (A @ Y @ B)"
proof -
  have "ordered (A @ Y @ B)"
  proof (rule ordered_context [OF assms(2)])
    fix y assume "y \<in> set Y"
    then show "y \<in> set X \<or> (\<exists>s w. y = S s \<and> E s w \<in> set X) \<or> (\<forall>a \<in> set A. before a y) \<and> (\<forall>b \<in> set B. before y b)"
      using assms(1) by (cases y rule: item.exhaust) (auto simp: removes_def)
  qed (use assms(1) in \<open>simp add: removes_def\<close>)
  then show ?thesis using assms(1,3) by (auto simp: removes_def)
qed

lemma respaces_drop_sep: "ordered (Y @ S s # Z) \<Longrightarrow> respaces (Y @ S s # Z) (Y @ Z)"
  unfolding respaces_def by (auto simp: sorted_wrt_append)

text \<open>Two neighbours and the separator between them.\<close>

definition small :: "nat \<Rightarrow> btree_node \<Rightarrow> bool" where
  "small h c = (shape 2 h c \<and> nkeys c \<le> 3)"

lemma redistribute_right:
  assumes "small h L" "small h R" "nkeys L = 0" "2 \<le> nkeys R" "length ks1 = j" "length cs1 = j" "ordered (items L @ S s # items R)"
  shows "\<exists>s' L' R'. redistribute 2 (ks1 @ s # ks2) (cs1 @ L # R # cs2) j (j + 1) = Some (ks1 @ s' # ks2, cs1 @ L' # R' # cs2) \<and>
    small h L' \<and> small h R' \<and> 1 \<le> nkeys L' \<and> 1 \<le> nkeys R' \<and> respaces (items L @ S s # items R) (items L' @ S s' # items R')"
proof -
  have n: "nkeys R div 2 = 1" using assms(2,4) by (simp add: small_def) linarith
  have at: "(cs1 @ L # R # cs2) ! j = L" "(cs1 @ L # R # cs2) ! (j + 1) = R" "(ks1 @ s # ks2) ! j = s" using assms(5,6) by (simp_all add: nth_append)
  show ?thesis
  proof (cases h)
    case 0
    obtain lk lv where L: "L = leaf_node lk lv" using assms(1) 0 by (cases L) (auto simp: small_def)
    obtain rk rv where R: "R = leaf_node rk rv" "length rv = length rk" using assms(2) 0 by (cases R) (auto simp: small_def)
    have l: "lk = []" "lv = []" using assms(1,3) 0 L by (auto simp: small_def)
    obtain a b rk' where rk: "rk = a # b # rk'" using assms(4) R by (cases rk; cases "tl rk") auto
    obtain x y rv' where rv: "rv = x # y # rv'" using R rk by (cases rv; cases "tl rv") auto
    have r: "redistribute 2 (ks1 @ s # ks2) (cs1 @ L # R # cs2) j (j + 1) = Some (ks1 @ b # ks2, cs1 @ leaf_node [a] [x] # leaf_node (b # rk') (y # rv') # cs2)"
      using at n assms(3-6) L R(1) l by (simp add: redistribute_def Let_def rk rv list_update_append)
    have "respaces (items L @ S s # items R) (items (leaf_node [a] [x]) @ S b # items (leaf_node (b # rk') (y # rv')))"
      using respaces_drop_sep [of "[]" s "items R"] respaces_insert_sep [of "[E a x]" b y "map2 E rk' rv'"] assms(7)
      by (simp add: L R l rk rv) (blast intro: respaces_trans)
    moreover have "small h (leaf_node [a] [x])" "small h (leaf_node (b # rk') (y # rv'))" "1 \<le> nkeys (leaf_node [a] [x])" "1 \<le> nkeys (leaf_node (b # rk') (y # rv'))"
      using assms(2) R rk rv 0 by (auto simp: small_def Suc_le_eq)
    ultimately show ?thesis using r by blast
  next
    case (Suc h')
    obtain lk lc where L: "L = index_node lk lc" using assms(1) Suc by (cases L) (auto simp: small_def)
    obtain rk rc where R: "R = index_node rk rc" "length rc = Suc (length rk)" using assms(2) Suc by (cases R) (auto simp: small_def)
    obtain c0 where l: "lk = []" "lc = [c0]" using assms(1,3) Suc L by (auto simp: small_def length_Suc_conv)
    obtain a rk' where rk: "rk = a # rk'" "rk' \<noteq> []" using assms(4) R by (cases rk) fastforce+
    obtain x rc' where rc: "rc = x # rc'" using R by (cases rc) auto
    have r: "redistribute 2 (ks1 @ s # ks2) (cs1 @ L # R # cs2) j (j + 1) = Some (ks1 @ a # ks2, cs1 @ index_node [s] [c0, x] # index_node rk' rc' # cs2)"
      using at n assms(3-6) L R(1) l by (simp add: redistribute_def Let_def rk rc list_update_append)
    have "respaces (items L @ S s # items R) (items (index_node [s] [c0, x]) @ S a # items (index_node rk' rc'))"
      using assms(7) respaces_refl by (simp add: L R l rk rc)
    moreover have "small h (index_node [s] [c0, x])" "small h (index_node rk' rc')" "1 \<le> nkeys (index_node [s] [c0, x])" "1 \<le> nkeys (index_node rk' rc')"
      using assms(1,2) L R l rk rc Suc by (auto simp: small_def Suc_le_eq)
    ultimately show ?thesis using r by blast
  qed
qed

lemma redistribute_left:
  assumes "small h L" "small h R" "nkeys R = 0" "2 \<le> nkeys L" "length ks1 = j" "length cs1 = j" "ordered (items L @ S s # items R)"
  shows "\<exists>s' L' R'. redistribute 2 (ks1 @ s # ks2) (cs1 @ L # R # cs2) (j + 1) j = Some (ks1 @ s' # ks2, cs1 @ L' # R' # cs2) \<and>
    small h L' \<and> small h R' \<and> 1 \<le> nkeys L' \<and> 1 \<le> nkeys R' \<and> respaces (items L @ S s # items R) (items L' @ S s' # items R')"
proof -
  have n: "nkeys L div 2 = 1" using assms(1,4) by (simp add: small_def) linarith
  have at: "(cs1 @ L # R # cs2) ! j = L" "(cs1 @ L # R # cs2) ! (j + 1) = R" "(ks1 @ s # ks2) ! j = s" using assms(5,6) by (simp_all add: nth_append)
  show ?thesis
  proof (cases h)
    case 0
    obtain rk rv where R: "R = leaf_node rk rv" using assms(2) 0 by (cases R) (auto simp: small_def)
    obtain lk lv where L: "L = leaf_node lk lv" "length lv = length lk" using assms(1) 0 by (cases L) (auto simp: small_def)
    have r0: "rk = []" "rv = []" using assms(2,3) 0 R by (auto simp: small_def)
    obtain lk' a where lk: "lk = lk' @ [a]" "lk' \<noteq> []" using assms(4) L by (cases lk rule: rev_cases) fastforce+
    obtain lv' x where lv: "lv = lv' @ [x]" "length lv' = length lk'" using L lk by (cases lv rule: rev_cases) auto
    have r: "redistribute 2 (ks1 @ s # ks2) (cs1 @ L # R # cs2) (j + 1) j = Some (ks1 @ a # ks2, cs1 @ leaf_node lk' lv' # leaf_node [a] [x] # cs2)"
      using at n assms(3-6) L R r0 lk lv by (simp add: redistribute_def Let_def list_update_append)
    have "respaces (items L @ S s # items R) (items (leaf_node lk' lv') @ S a # items (leaf_node [a] [x]))"
      using respaces_drop_sep [of "items L" s "[]"] respaces_insert_sep [of "map2 E lk' lv'" a x "[]"] assms(7)
      by (simp add: L R r0 lk lv sorted_wrt_append) (blast intro: respaces_trans)
    moreover have "small h (leaf_node lk' lv')" "small h (leaf_node [a] [x])" "1 \<le> nkeys (leaf_node lk' lv')" "1 \<le> nkeys (leaf_node [a] [x])"
      using assms(1) L lk lv 0 by (auto simp: small_def Suc_le_eq)
    ultimately show ?thesis using r by blast
  next
    case (Suc h')
    obtain rk rc where R: "R = index_node rk rc" using assms(2) Suc by (cases R) (auto simp: small_def)
    obtain lk lc where L: "L = index_node lk lc" "length lc = Suc (length lk)" using assms(1) Suc by (cases L) (auto simp: small_def)
    obtain c0 where r0: "rk = []" "rc = [c0]" using assms(2,3) Suc R by (auto simp: small_def length_Suc_conv)
    obtain lk' a where lk: "lk = lk' @ [a]" "lk' \<noteq> []" using assms(4) L by (cases lk rule: rev_cases) fastforce+
    obtain lc' x where lc: "lc = lc' @ [x]" "length lc' = Suc (length lk')" using L lk by (cases lc rule: rev_cases) auto
    have r: "redistribute 2 (ks1 @ s # ks2) (cs1 @ L # R # cs2) (j + 1) j = Some (ks1 @ a # ks2, cs1 @ index_node lk' lc' # index_node [s] [x, c0] # cs2)"
      using at n assms(3-6) L R r0 lk lc by (simp add: redistribute_def Let_def list_update_append nth_append)
    have "weave (lk' @ [a]) (map items lc' @ [items x]) = weave lk' (map items lc') @ S a # items x" using lc(2) by (subst weave_append) auto
    then have "respaces (items L @ S s # items R) (items (index_node lk' lc') @ S a # items (index_node [s] [x, c0]))"
      using assms(7) respaces_refl by (simp add: L R r0 lk lc)
    moreover have "small h (index_node lk' lc')" "small h (index_node [s] [x, c0])" "1 \<le> nkeys (index_node lk' lc')" "1 \<le> nkeys (index_node [s] [x, c0])"
      using assms(1,2) L R r0 lk lc Suc by (auto simp: small_def Suc_le_eq)
    ultimately show ?thesis using r by blast
  qed
qed

lemma merge_ok:
  assumes "small h L" "small h R" "1 \<le> nkeys L + nkeys R" "nkeys L + nkeys R \<le> 2" "length ks1 = j" "length cs1 = j"
    "ordered (items L @ S s # items R)" "me = j \<and> to = j + 1 \<or> me = j + 1 \<and> to = j"
  shows "\<exists>M. merge (ks1 @ s # ks2) (cs1 @ L # R # cs2) me to = Some (ks1 @ ks2, cs1 @ M # cs2) \<and> small h M \<and> 1 \<le> nkeys M \<and>
    respaces (items L @ S s # items R) (items M)"
proof -
  have mm: "min me to = j" "max me to = j + 1" using assms(8) by auto
  have at: "(cs1 @ L # R # cs2) ! j = L" "(cs1 @ L # R # cs2) ! (j + 1) = R" "(ks1 @ s # ks2) ! j = s" using assms(5,6) by (simp_all add: nth_append)
  show ?thesis
  proof (cases h)
    case 0
    obtain lk lv where L: "L = leaf_node lk lv" "length lv = length lk" using assms(1) 0 by (cases L) (auto simp: small_def)
    obtain rk rv where R: "R = leaf_node rk rv" "length rv = length rk" using assms(2) 0 by (cases R) (auto simp: small_def)
    have "merge (ks1 @ s # ks2) (cs1 @ L # R # cs2) me to = Some (ks1 @ ks2, cs1 @ leaf_node (lk @ rk) (lv @ rv) # cs2)"
      using mm at assms(5,6) L R by (simp add: merge_def Let_def)
    moreover have "respaces (items L @ S s # items R) (items (leaf_node (lk @ rk) (lv @ rv)))"
      using respaces_drop_sep [OF assms(7)] L R by simp
    ultimately show ?thesis using assms(3,4) L R 0 by (auto simp: small_def)
  next
    case (Suc h')
    obtain lk lc where L: "L = index_node lk lc" "length lc = Suc (length lk)" using assms(1) Suc by (cases L) (auto simp: small_def)
    obtain rk rc where R: "R = index_node rk rc" "length rc = Suc (length rk)" using assms(2) Suc by (cases R) (auto simp: small_def)
    have "merge (ks1 @ s # ks2) (cs1 @ L # R # cs2) me to = Some (ks1 @ ks2, cs1 @ index_node (lk @ [s] @ rk) (lc @ rc) # cs2)"
      using mm at assms(5,6) L R by (simp add: merge_def Let_def)
    moreover have "respaces (items L @ S s # items R) (items (index_node (lk @ [s] @ rk) (lc @ rc)))"
      using respaces_refl [OF assms(7)] weave_append [of "map items lc" lk s rk "map items rc"] L R by simp
    moreover have "small h (index_node (lk @ [s] @ rk) (lc @ rc))" using assms(1,2,4) L R Suc by (auto simp: small_def)
    ultimately show ?thesis by (intro exI [of _ "index_node (lk @ [s] @ rk) (lc @ rc)"]) simp
  qed
qed

lemma items_pair:
  assumes "length cs1 = length ks1" "length cs2 = length ks2"
  shows "items (index_node (ks1 @ s # ks2) (cs1 @ L # R # cs2)) = lpart ks1 cs1 @ (items L @ S s # items R) @ rpart ks2 cs2"
  using items_focus [of cs1 ks1 "R # cs2" "s # ks2" L] assms by simp

text \<open>The children other than \<open>c\<close> have one to three keys.\<close>

definition others_ok :: "nat \<Rightarrow> btree_node list \<Rightarrow> bool" where
  "others_ok h cs = (\<forall>c \<in> set cs. small h c \<and> 1 \<le> nkeys c)"

lemma shape_others: "shape 2 (Suc h) (index_node ks cs) \<longleftrightarrow> length cs = Suc (length ks) \<and> others_ok h cs"
  by (auto simp: others_ok_def small_def)

lemma redistribute_node:
  assumes "length cs1 = length ks1" "length cs2 = length ks2" "others_ok h (cs1 @ cs2)" "ordered (items (index_node (ks1 @ s # ks2) (cs1 @ L # R # cs2)))"
    and "f = Some (ks1 @ s' # ks2, cs1 @ L' # R' # cs2)" "small h L'" "small h R'" "1 \<le> nkeys L'" "1 \<le> nkeys R'"
      "respaces (items L @ S s # items R) (items L' @ S s' # items R')"
  shows "\<exists>ks' cs'. f = Some (ks', cs') \<and> shape 2 (Suc h) (index_node ks' cs') \<and> length ks' = Suc (length ks1 + length ks2) \<and>
    respaces (items (index_node (ks1 @ s # ks2) (cs1 @ L # R # cs2))) (items (index_node ks' cs'))"
proof (intro exI conjI)
  show "f = Some (ks1 @ s' # ks2, cs1 @ L' # R' # cs2)" by (rule assms(5))
  show "shape 2 (Suc h) (index_node (ks1 @ s' # ks2) (cs1 @ L' # R' # cs2))"
    unfolding shape_others using assms(1-3,6-9) by (auto simp: others_ok_def)
  show "respaces (items (index_node (ks1 @ s # ks2) (cs1 @ L # R # cs2))) (items (index_node (ks1 @ s' # ks2) (cs1 @ L' # R' # cs2)))"
    using respaces_context [OF assms(10)] assms(4) unfolding items_pair [OF assms(1,2)] by blast
qed simp

lemma merge_node:
  assumes "length cs1 = length ks1" "length cs2 = length ks2" "others_ok h (cs1 @ cs2)" "ordered (items (index_node (ks1 @ s # ks2) (cs1 @ L # R # cs2)))"
    and "small h L" "small h R" "1 \<le> nkeys L + nkeys R" "nkeys L + nkeys R \<le> 2"
      "me = length ks1 \<and> to = length ks1 + 1 \<or> me = length ks1 + 1 \<and> to = length ks1"
  shows "\<exists>ks' cs'. merge (ks1 @ s # ks2) (cs1 @ L # R # cs2) me to = Some (ks', cs') \<and> shape 2 (Suc h) (index_node ks' cs') \<and>
    length ks' = length ks1 + length ks2 \<and>
    respaces (items (index_node (ks1 @ s # ks2) (cs1 @ L # R # cs2))) (items (index_node ks' cs'))"
proof -
  have "ordered (items L @ S s # items R)" using assms(4) unfolding items_pair [OF assms(1,2)] by (auto simp: sorted_wrt_append)
  then obtain M where m: "merge (ks1 @ s # ks2) (cs1 @ L # R # cs2) me to = Some (ks1 @ ks2, cs1 @ M # cs2)" "small h M" "1 \<le> nkeys M"
      "respaces (items L @ S s # items R) (items M)"
    using merge_ok [OF assms(5-8) refl assms(1) _ assms(9)] by blast
  have "shape 2 (Suc h) (index_node (ks1 @ ks2) (cs1 @ M # cs2))"
    unfolding shape_others using assms(1-3) m(2,3) by (auto simp: others_ok_def)
  moreover have "respaces (items (index_node (ks1 @ s # ks2) (cs1 @ L # R # cs2))) (items (index_node (ks1 @ ks2) (cs1 @ M # cs2)))"
    using respaces_context [OF m(4)] assms(4) unfolding items_pair [OF assms(1,2)] items_focus [OF assms(1,2)] by blast
  ultimately show ?thesis using m(1) by auto
qed

lemma balance_ok:
  assumes "length ks1 = i" "length cs1 = i" "length cs2 = length ks2" "1 \<le> length (ks1 @ ks2)" "others_ok h (cs1 @ cs2)"
    "small h c" "nkeys c = 0" "ordered (items (index_node (ks1 @ ks2) (cs1 @ c # cs2)))"
  shows "\<exists>ks' cs'. balance 2 (ks1 @ ks2) (cs1 @ c # cs2) i = Some (ks', cs') \<and> shape 2 (Suc h) (index_node ks' cs') \<and>
    length ks' \<le> length (ks1 @ ks2) \<and> length (ks1 @ ks2) \<le> Suc (length ks') \<and>
    respaces (items (index_node (ks1 @ ks2) (cs1 @ c # cs2))) (items (index_node ks' cs'))" (is "?goal")
proof -
  have left: ?goal if th: "0 < i" "nkeys ((cs1 @ c # cs2) ! (i - 1)) > 1 \<or> \<not> (i < length (ks1 @ ks2) \<and> nkeys ((cs1 @ c # cs2) ! (i + 1)) > 1)"
  proof -
    obtain k1 s where k1: "ks1 = k1 @ [s]" using th(1) assms(1) by (cases ks1 rule: rev_cases) auto
    obtain c1 L where c1: "cs1 = c1 @ [L]" using th(1) assms(2) by (cases cs1 rule: rev_cases) auto
    have i: "i = length k1 + 1" "length c1 = length k1" using assms(1,2) k1 c1 by auto
    have L: "(cs1 @ c # cs2) ! (i - 1) = L" "small h L" "1 \<le> nkeys L" using assms(2,5) c1 by (auto simp: others_ok_def nth_append)
    have ord: "ordered (items (index_node (k1 @ s # ks2) (c1 @ L # c # cs2)))" using assms(8) by (simp add: k1 c1)
    have oth: "others_ok h (c1 @ cs2)" using assms(5) c1 by (simp add: others_ok_def)
    show ?thesis
    proof (cases "nkeys L > 1")
      case True
      have "ordered (items L @ S s # items c)" using ord unfolding items_pair [OF i(2) assms(3)] by (auto simp: sorted_wrt_append)
      then obtain s' L' R' where r: "redistribute 2 (k1 @ s # ks2) (c1 @ L # c # cs2) (length k1 + 1) (length k1) = Some (k1 @ s' # ks2, c1 @ L' # R' # cs2)"
          "small h L'" "small h R'" "1 \<le> nkeys L'" "1 \<le> nkeys R'" "respaces (items L @ S s # items c) (items L' @ S s' # items R')"
        using redistribute_left [OF L(2) assms(6,7) _ refl i(2)] True by (metis Suc_1 Suc_leI)
      have "balance 2 (ks1 @ ks2) (cs1 @ c # cs2) i = redistribute 2 (k1 @ s # ks2) (c1 @ L # c # cs2) (length k1 + 1) (length k1)"
        using True L(1) th(1) i(1) by (simp add: balance_def k1 c1)
      then show ?thesis using redistribute_node [OF i(2) assms(3) oth ord r] by (auto simp: k1 c1)
    next
      case False
      then have "balance 2 (ks1 @ ks2) (cs1 @ c # cs2) i = merge (k1 @ s # ks2) (c1 @ L # c # cs2) (length k1 + 1) (length k1)"
        using th L(1) i(1) by (auto simp: balance_def k1 c1)
      moreover have "1 \<le> nkeys L + nkeys c" "nkeys L + nkeys c \<le> 2" using False L(3) assms(7) by simp_all
      ultimately show ?thesis using merge_node [OF i(2) assms(3) oth ord L(2) assms(6), of "length k1 + 1" "length k1"]
        by (auto simp: k1 c1 simp del: shape.simps items.simps)
    qed
  qed
  have right: ?goal if th: "i < length (ks1 @ ks2)" "i = 0 \<or> \<not> nkeys ((cs1 @ c # cs2) ! (i - 1)) > 1 \<and> nkeys ((cs1 @ c # cs2) ! (i + 1)) > 1"
  proof -
    obtain s k2 where k2: "ks2 = s # k2" using th(1) assms(1) by (cases ks2) auto
    obtain R c2 where c2: "cs2 = R # c2" "length c2 = length k2" using assms(3) k2 by (cases cs2) auto
    have l1: "length cs1 = length ks1" using assms(1,2) by simp
    have R: "(cs1 @ c # cs2) ! (i + 1) = R" "small h R" "1 \<le> nkeys R" using assms(2,5) c2 by (auto simp: others_ok_def nth_append)
    have ord: "ordered (items (index_node (ks1 @ s # k2) (cs1 @ c # R # c2)))" using assms(8) by (simp add: k2 c2)
    have oth: "others_ok h (cs1 @ c2)" using assms(5) c2 by (simp add: others_ok_def)
    show ?thesis
    proof (cases "nkeys R > 1")
      case True
      have "ordered (items c @ S s # items R)" using ord unfolding items_pair [OF l1 c2(2)] by (auto simp: sorted_wrt_append)
      then obtain s' L' R' where r: "redistribute 2 (ks1 @ s # k2) (cs1 @ c # R # c2) i (i + 1) = Some (ks1 @ s' # k2, cs1 @ L' # R' # c2)"
          "small h L'" "small h R'" "1 \<le> nkeys L'" "1 \<le> nkeys R'" "respaces (items c @ S s # items R) (items L' @ S s' # items R')"
        using redistribute_right [OF assms(6) R(2) assms(7) _ assms(1,2)] True by (metis Suc_1 Suc_leI)
      have "balance 2 (ks1 @ ks2) (cs1 @ c # cs2) i = redistribute 2 (ks1 @ s # k2) (cs1 @ c # R # c2) i (i + 1)"
        using True R(1) th by (auto simp: balance_def k2 c2)
      then show ?thesis using redistribute_node [OF l1 c2(2) oth ord r] by (auto simp: k2 c2)
    next
      case False
      then have "balance 2 (ks1 @ ks2) (cs1 @ c # cs2) i = merge (ks1 @ s # k2) (cs1 @ c # R # c2) (length ks1) (length ks1 + 1)"
        using th R(1) assms(1) by (auto simp: balance_def k2 c2)
      moreover have "1 \<le> nkeys c + nkeys R" "nkeys c + nkeys R \<le> 2" using False R(3) assms(7) by simp_all
      ultimately show ?thesis using merge_node [OF l1 c2(2) oth ord assms(6) R(2), of "length ks1" "length ks1 + 1"]
        by (auto simp: k2 c2 simp del: shape.simps items.simps)
    qed
  qed
  show ?thesis using left right assms(4) by (metis length_0_conv less_numeral_extra(3) not_gr_zero not_less_eq_eq One_nat_def list.size(3) neq0_conv not_one_le_zero)
qed

lemma delete_leaf:
  assumes "length vs = length ks" "ordered (map2 E ks vs)" "j < length ks"
  shows "removes (map2 E ks vs) (ks ! j) (map2 E (take j ks @ drop (j + 1) ks) (take j vs @ drop (j + 1) vs))"
proof -
  define Y where "Y = map2 E (take j ks) (take j vs)"
  define Z where "Z = map2 E (drop (j + 1) ks) (drop (j + 1) vs)"
  have "map2 E ks vs = map2 E (take j ks @ ks ! j # drop (j + 1) ks) (take j vs @ vs ! j # drop (j + 1) vs)"
    using id_take_nth_drop [of j ks] id_take_nth_drop [of j vs] assms(1,3) by simp
  also have "\<dots> = Y @ E (ks ! j) (vs ! j) # Z" using assms(1) by (simp add: Y_def Z_def)
  finally have yz: "map2 E ks vs = Y @ E (ks ! j) (vs ! j) # Z" .
  have "map2 E (take j ks @ drop (j + 1) ks) (take j vs @ drop (j + 1) vs) = Y @ Z" using assms(1) by (simp add: Y_def Z_def)
  moreover have "removes (Y @ E (ks ! j) (vs ! j) # Z) (ks ! j) (Y @ Z)"
    using assms(2) unfolding yz removes_def by (auto simp: sorted_wrt_append)
  ultimately show ?thesis unfolding yz by simp
qed

lemma delete_ok:
  assumes "shape 2 h n" "ordered (items n)" "nkeys n \<le> 3" "is_leaf_node n \<or> 1 \<le> nkeys n"
  shows "\<exists>n' reb. btree_delete_internal 2 n k = Some (n', reb) \<and> shape 2 h n' \<and> nkeys n' \<le> nkeys n \<and> nkeys n \<le> Suc (nkeys n') \<and>
    removes (items n) k (items n') \<and> (1 \<le> nkeys n \<longrightarrow> reb = (nkeys n' = 0))"
  using assms
proof (induction h arbitrary: n)
  case 0
  then obtain ks vs where n: "n = leaf_node ks vs" "length vs = length ks" by (cases n) auto
  define i where "i = down_to ks k (length ks)"
  have nav: "nav k ks i" unfolding i_def by (rule nav_down_to)
  have ord: "ordered (map2 E ks vs)" using 0 n by simp
  show ?case
  proof (cases "0 < i \<and> k = ks ! (i - 1)")
    case True
    then have tr: "0 < i" "ks ! (i - 1) = k" and j: "i - 1 < length ks" using nav by (auto simp: nav_def)
    define K where "K = take (i - 1) ks @ drop (i - 1 + 1) ks"
    define V where "V = take (i - 1) vs @ drop (i - 1 + 1) vs"
    have "removes (map2 E ks vs) k (map2 E K V)" using delete_leaf [OF n(2) ord j] tr(2) by (simp only: K_def V_def)
    moreover have "btree_delete_internal 2 n k = Some (leaf_node K V, length K < 2 - 1)"
      unfolding n(1) btree_delete_internal.simps Let_def i_def [symmetric] delete_entry_def K_def [symmetric] V_def [symmetric]
      using tr by simp
    moreover have "length K + 1 = length ks" "length V = length K" using j n(2) by (simp_all add: K_def V_def)
    ultimately show ?thesis using n by auto
  next
    case False
    then have "E k v \<notin> set (map2 E ks vs)" for v using leaf_missing [OF nav n(2) ord] by auto
    then have "removes (items n) k (items n)" using 0 n unfolding removes_def by auto
    moreover have "btree_delete_internal 2 n k = Some (n, False)"
      unfolding n(1) btree_delete_internal.simps Let_def i_def [symmetric] using False by auto
    ultimately show ?thesis using 0 by (intro exI [of _ n] exI [of _ False]) auto
  qed
next
  case (Suc h)
  then obtain ks cs where n: "n = index_node ks cs" by (cases n) auto
  define i where "i = down_to ks k (length ks)"
  have nav: "nav k ks i" unfolding i_def by (rule nav_down_to)
  have "length cs = Suc (length ks)" "i \<le> length ks" using Suc.prems(1) nav n by (auto simp: nav_def)
  then obtain ks1 ks2 cs1 c cs2 where f: "ks = ks1 @ ks2" "cs = cs1 @ c # cs2" "length ks1 = i" "length cs1 = i" "length cs2 = length ks2"
    by (rule focus_split)
  have it: "items n = lpart ks1 cs1 @ items c @ rpart ks2 cs2" using items_focus f n by metis
  have ord: "ordered (lpart ks1 cs1 @ items c @ rpart ks2 cs2)" using Suc.prems(2) it by simp
  have out: "\<forall>v. E k v \<notin> set (lpart ks1 cs1) \<and> E k v \<notin> set (rpart ks2 cs2)"
    using nav_items [of k ks1 ks2 cs1 cs2 "items c"] nav f ord by fastforce
  have oth: "others_ok h (cs1 @ c # cs2)" using Suc.prems(1) shape_others [of h ks cs] n f(2) by simp
  then have c: "shape 2 h c" "ordered (items c)" "nkeys c \<le> 3" "1 \<le> nkeys c" using ord by (auto simp: others_ok_def small_def sorted_wrt_append)
  obtain c' reb where c': "btree_delete_internal 2 c k = Some (c', reb)" "shape 2 h c'" "nkeys c' \<le> nkeys c"
      "removes (items c) k (items c')" "reb = (nkeys c' = 0)"
    using Suc.IH [OF c(1-3)] c(4) by blast
  let ?m = "index_node (ks1 @ ks2) (cs1 @ c' # cs2)"
  have im: "items ?m = lpart ks1 cs1 @ items c' @ rpart ks2 cs2" using f by (intro items_focus) auto
  have rm: "removes (items n) k (items ?m)" unfolding it im by (rule removes_context [OF c'(4) ord out])
  have one: "1 \<le> length (ks1 @ ks2)" using Suc.prems(4) n f(1) by (simp add: is_leaf_node_def)
  have upd: "cs[i := c'] = cs1 @ c' # cs2" "cs ! i = c" "i < length cs" using f(2,4) by (simp_all add: list_update_append nth_append)
  show ?case
  proof (cases reb)
    case False
    have "btree_delete_internal 2 n k = Some (?m, length (ks1 @ ks2) < 2 - 1)"
      unfolding n btree_delete_internal.simps Let_def i_def [symmetric] using upd c'(1) False f(1) by simp
    moreover have "shape 2 (Suc h) ?m" unfolding shape_others using oth c c'(2,3,5) False f by (auto simp: others_ok_def small_def Suc_le_eq)
    ultimately show ?thesis using rm n f(1) one by auto
  next
    case True
    have sm: "small h c'" "nkeys c' = 0" "others_ok h (cs1 @ cs2)" using c'(2,5) True oth by (auto simp: small_def others_ok_def)
    have "ordered (items ?m)" using rm by (simp add: removes_def)
    then obtain ks' cs' where b: "balance 2 (ks1 @ ks2) (cs1 @ c' # cs2) i = Some (ks', cs')" "shape 2 (Suc h) (index_node ks' cs')"
        "length ks' \<le> length (ks1 @ ks2)" "length (ks1 @ ks2) \<le> Suc (length ks')" "respaces (items ?m) (items (index_node ks' cs'))"
      using balance_ok [OF f(3-5) one sm(3,1,2)] by blast
    have "btree_delete_internal 2 n k = Some (index_node ks' cs', length ks' < 2 - 1)"
      unfolding n btree_delete_internal.simps Let_def i_def [symmetric] using upd c'(1) True f(1) b(1) by simp
    moreover have "removes (items n) k (items (index_node ks' cs'))" using removes_respaces [OF rm b(5)] .
    ultimately show ?thesis using b(2-4) n f(1) by (auto simp del: shape.simps items.simps)
  qed
qed

lemma btree_delete_ok:
  assumes "btree_ok bt" "degree bt = 2"
  obtains bt' where "btree_delete bt k = Some bt'" "btree_ok bt'" "degree bt' = 2" "entries bt' = {e \<in> entries bt. fst e \<noteq> k}"
proof -
  obtain h where b: "ordered (items (root bt))" "nkeys (root bt) \<le> 3" "shape 2 h (root bt)" "is_leaf_node (root bt) \<or> 1 \<le> nkeys (root bt)"
    using assms by (auto simp: btree_ok_def)
  obtain r reb where r: "btree_delete_internal 2 (root bt) k = Some (r, reb)" "shape 2 h r" "nkeys r \<le> nkeys (root bt)" "removes (items (root bt)) k (items r)"
    using delete_ok [OF b(3,1,2,4)] by blast
  show thesis
  proof (cases "nkeys r = 0 \<and> \<not> is_leaf_node r")
    case False
    show thesis
    proof (rule that [of "bt\<lparr>root := r\<rparr>"])
      show "btree_delete bt k = Some (bt\<lparr>root := r\<rparr>)" using r(1) False assms(2) by (auto simp: btree_delete_def)
      show "btree_ok (bt\<lparr>root := r\<rparr>)" using r(2-4) b(2) False assms(2) by (auto simp: btree_ok_def removes_def Suc_le_eq)
      show "entries (bt\<lparr>root := r\<rparr>) = {e \<in> entries bt. fst e \<noteq> k}" using r(4) by (auto simp: entries_def removes_def)
    qed (use assms(2) in simp)
  next
    case True
    then obtain cs where cs: "r = index_node [] cs" by (cases r) (auto simp: is_leaf_node_def)
    obtain h' where h: "h = Suc h'" using r(2) cs by (cases h) auto
    obtain c where c: "cs = [c]" "shape 2 h' c" "1 \<le> nkeys c" "nkeys c \<le> 3" using r(2) unfolding cs h by (auto simp: length_Suc_conv)
    show thesis
    proof (rule that [of "bt\<lparr>root := c\<rparr>"])
      show "btree_delete bt k = Some (bt\<lparr>root := c\<rparr>)" using r(1) True assms(2) cs c(1) by (auto simp: btree_delete_def)
      show "btree_ok (bt\<lparr>root := c\<rparr>)" using r(4) c assms(2) cs by (auto simp: btree_ok_def removes_def)
      show "entries (bt\<lparr>root := c\<rparr>) = {e \<in> entries bt. fst e \<noteq> k}" using r(4) cs c(1) by (auto simp: entries_def removes_def)
    qed (use assms(2) in simp)
  qed
qed

section \<open>Properties\<close>

text \<open>Sequences of the commands of the main program.\<close>

datatype op = Ins int int | Del int

fun run_ops :: "op list \<Rightarrow> btree \<Rightarrow> btree option" where
  "run_ops [] bt = Some bt"
| "run_ops (Ins k v # ops) bt = do { bt \<leftarrow> btree_insert bt k v; run_ops ops bt }"
| "run_ops (Del k # ops) bt = do { bt \<leftarrow> btree_delete bt k; run_ops ops bt }"

definition lookup :: "btree \<Rightarrow> int \<Rightarrow> int option" where
  "lookup bt k = (case btree_get (root bt) k of None \<Rightarrow> None | Some (l, slot) \<Rightarrow> Some (vals l ! slot))"

fun map_ops :: "op list \<Rightarrow> (int \<rightharpoonup> int) \<Rightarrow> (int \<rightharpoonup> int)" where
  "map_ops [] m = m"
| "map_ops (Ins k v # ops) m = map_ops ops (m(k \<mapsto> v))"
| "map_ops (Del k # ops) m = map_ops ops (m(k := None))"

text \<open>Every inserted key is new.\<close>

fun new_keys :: "op list \<Rightarrow> (int \<rightharpoonup> int) \<Rightarrow> bool" where
  "new_keys [] m = True"
| "new_keys (Ins k v # ops) m = (m k = None \<and> new_keys ops (m(k \<mapsto> v)))"
| "new_keys (Del k # ops) m = new_keys ops (m(k := None))"

definition holds :: "btree \<Rightarrow> (int \<rightharpoonup> int) \<Rightarrow> bool" where
  "holds bt m = (\<forall>k v. (k, v) \<in> entries bt \<longleftrightarrow> m k = Some v)"

lemma lookup_holds:
  assumes "btree_ok bt" "holds bt m"
  shows "lookup bt k = m k"
proof -
  obtain h where "shape (degree bt) h (root bt)" "ordered (items (root bt))" using assms(1) by (auto simp: btree_ok_def)
  then show ?thesis using get_ok [of "degree bt" h "root bt" k] assms(2)
    by (cases "m k") (auto simp: lookup_def holds_def entries_def split: option.splits)
qed

lemma run_ops_ok:
  "btree_ok bt \<Longrightarrow> holds bt m \<Longrightarrow> new_keys ops m \<Longrightarrow> degree bt = 2 \<or> (\<forall>k. Del k \<notin> set ops) \<Longrightarrow>
   \<exists>bt'. run_ops ops bt = Some bt' \<and> btree_ok bt' \<and> holds bt' (map_ops ops m)"
proof (induction ops bt arbitrary: m rule: run_ops.induct)
  case (2 k v ops bt)
  then have "\<forall>b. (k, b) \<notin> entries bt" by (simp add: holds_def)
  then obtain bt1 where b: "btree_insert bt k v = Some bt1" "btree_ok bt1" "degree bt1 = degree bt" "entries bt1 = insert (k, v) (entries bt)"
    using btree_insert_ok [OF "2.prems"(1)] by blast
  have "holds bt1 (m(k \<mapsto> v))" using "2.prems"(2,3) b(4) by (auto simp: holds_def)
  then show ?case using "2.IH" [OF b(1,2)] b(1,3) "2.prems"(3,4) by auto
next
  case (3 k ops bt)
  then have d: "degree bt = 2" by auto
  obtain bt1 where b: "btree_delete bt k = Some bt1" "btree_ok bt1" "degree bt1 = 2" "entries bt1 = {e \<in> entries bt. fst e \<noteq> k}"
    using btree_delete_ok [OF "3.prems"(1) d] by blast
  have "holds bt1 (m(k := None))" using "3.prems"(2) b(4) by (auto simp: holds_def)
  then show ?case using "3.IH" [OF b(1,2)] b(1,3) "3.prems"(3) by auto
qed simp

text \<open>C20: The tree refines a finite map.  For any degree from 2 on, a sequence of insertions of new keys, and
  for the degree 2 that the program uses any sequence of insertions of new keys and deletions, runs without a
  failed assertion, keeps the tree ordered and balanced with all nodes within their limits, and lookups give
  what the map gives.\<close>

theorem bplus_tree_refines_map:
  assumes "2 \<le> t" "t = 2 \<or> (\<forall>k. Del k \<notin> set ops)" "new_keys ops Map.empty"
  shows "\<exists>bt. run_ops ops (btree_new t) = Some bt \<and> btree_ok bt \<and> (\<forall>k. lookup bt k = map_ops ops Map.empty k)"
proof -
  have "holds (btree_new t) Map.empty" using btree_new_ok [OF assms(1)] by (simp add: holds_def)
  then obtain bt where "run_ops ops (btree_new t) = Some bt" "btree_ok bt" "holds bt (map_ops ops Map.empty)"
    using run_ops_ok [of "btree_new t" Map.empty ops] btree_new_ok [OF assms(1)] assms(2,3) by (auto simp: btree_new_def)
  then show ?thesis using lookup_holds by blast
qed

theorem bplus_tree_refines_map_witness:
  "\<exists>bt. run_ops [Ins 4 40, Ins 1 10, Ins 3 30, Ins 2 20, Del 1, Del 3] (btree_new 2) = Some bt \<and> btree_ok bt \<and>
    lookup bt 2 = Some 20 \<and> lookup bt 3 = None"
  using bplus_tree_refines_map [of 2 "[Ins 4 40, Ins 1 10, Ins 3 30, Ins 2 20, Del 1, Del 3]"] by auto

text \<open>A tree of degree 3 whose left index node is full.\<close>

definition pair_leaf :: "int \<Rightarrow> btree_node" where
  "pair_leaf k = leaf_node [k, k + 1] [k, k + 1]"

definition wide_tree :: btree where
  "wide_tree = \<lparr>root = index_node [13]
     [index_node [3, 5, 7, 9, 11] [pair_leaf 1, pair_leaf 3, pair_leaf 5, pair_leaf 7, pair_leaf 9, pair_leaf 11],
      index_node [15, 17] [pair_leaf 13, pair_leaf 15, pair_leaf 17]], degree = 3\<rparr>"

text \<open>C39: Two flaws.  For degree 3, taking two children from the left neighbour takes the wrong ones: a deletion
  in a correct tree makes another key disappear.  With a key inserted twice, a later deletion can leave an
  entry of that key that neither lookup nor deletion reaches any more.\<close>

theorem bplus_tree_flaws:
  "btree_ok wide_tree \<and> lookup wide_tree 9 = Some 9 \<and>
   (\<exists>bt. btree_delete wide_tree 13 = Some bt \<and> lookup bt 9 = None) \<and>
   (\<exists>bt. run_ops [Ins 5 1, Ins 5 2, Ins 5 3, Ins 7 4, Del 5, Del 5] (btree_new 2) = Some bt \<and>
      (5, 1) \<in> entries bt \<and> lookup bt 5 = None \<and> btree_delete bt 5 = Some bt)"
proof -
  have "\<exists>h. shape 3 h (root wide_tree)"
    by (rule exI [of _ "Suc (Suc 0)"]) (simp add: wide_tree_def pair_leaf_def)
  then have "btree_ok wide_tree" by (simp add: btree_ok_def) (simp add: wide_tree_def pair_leaf_def)
  moreover have "lookup wide_tree 9 = Some 9" by code_simp
  moreover have "map_option (\<lambda>bt. lookup bt 9) (btree_delete wide_tree 13) = Some None" by code_simp
  then have "\<exists>bt. btree_delete wide_tree 13 = Some bt \<and> lookup bt 9 = None" by auto
  moreover have "\<exists>bt. run_ops [Ins 5 1, Ins 5 2, Ins 5 3, Ins 7 4, Del 5, Del 5] (btree_new 2) = Some bt \<and>
      (5, 1) \<in> entries bt \<and> lookup bt 5 = None \<and> btree_delete bt 5 = Some bt"
  proof -
    let ?bt = "\<lparr>root = index_node [5] [leaf_node [5] [1], leaf_node [7] [4]], degree = 2\<rparr>"
    have "run_ops [Ins 5 1, Ins 5 2, Ins 5 3, Ins 7 4, Del 5, Del 5] (btree_new 2) = Some ?bt" by code_simp
    moreover have "lookup ?bt 5 = None" by code_simp
    moreover have "btree_delete ?bt 5 = Some ?bt" by code_simp
    ultimately show ?thesis by (auto simp: entries_def)
  qed
  ultimately show ?thesis by blast
qed

end
